(* ===== verification/Prelude.thy ===== *)
theory Prelude
  imports Main "HOL-Library.Word"
begin

text \<open>
  Shared vocabulary of the development: the machine integer types of the Rust sources, byte
  buffers with the two slice operations the codecs use (\<open>buf[a..b].copy_from_slice(x)\<close> and
  \<open>&buf[a..b]\<close>), little-endian integer encoding (\<open>to_le_bytes\<close> / \<open>from_le_bytes\<close>), checked
  arithmetic, and the list lemmas that several components use. The collection
  \<open>buf_simps\<close> rewrites reads of a buffer past the writes made to it; its side conditions are
  linear inequalities over offsets.
\<close>

unbundle bit_operations_syntax

section \<open>Integer types\<close>

type_synonym u8 = "8 word"
type_synonym u16 = "16 word"
type_synonym u32 = "32 word"
type_synonym u64 = "64 word"

type_synonym bytes = "u8 list"

text \<open>The collections of rewrite rules for byte buffers and for the wire codecs.\<close>

named_theorems buf_simps
named_theorems codec_simps

section \<open>Little-endian integers\<close>

text \<open>\<open>le_bytes n w\<close> is Rust's \<open>w.to_le_bytes()\<close> for an integer of \<open>n\<close> bytes, and
  \<open>from_le bs\<close> is \<open>from_le_bytes(bs)\<close>.\<close>

definition le_bytes :: "nat \<Rightarrow> 'a::len word \<Rightarrow> bytes" where
  "le_bytes n w = map (\<lambda>i. ucast (drop_bit (8 * i) w)) [0..<n]"

fun from_le :: "bytes \<Rightarrow> 'a::len word" where
  "from_le [] = 0"
| "from_le (b # bs) = ucast b OR push_bit 8 (from_le bs)"

lemma length_le_bytes [simp]: "length (le_bytes n w) = n"
  by (simp add: le_bytes_def)

lemma bit_from_le:
  "bit (from_le bs :: 'a::len word) i \<longleftrightarrow>
     i < LENGTH('a) \<and> i div 8 < length bs \<and> bit (bs ! (i div 8)) (i mod 8)"
proof (induction bs arbitrary: i)
  case Nil
  then show ?case by simp
next
  case (Cons b bs)
  show ?case
  proof (cases "i < 8")
    case True
    then show ?thesis
      by (auto simp: bit_or_iff bit_unsigned_iff bit_push_bit_iff)
  next
    case False
    then have d: "i div 8 = Suc ((i - 8) div 8)" and m: "(i - 8) mod 8 = i mod 8"
      using le_div_geq [of 8 i] le_mod_geq [of 8 i] by simp_all
    have nb: "\<not> bit b i"
      using False by (auto dest: bit_imp_le_length)
    show ?thesis
      using False nb Cons.IH [of "i - 8"]
      by (auto simp: bit_or_iff bit_unsigned_iff bit_push_bit_iff d m)
  qed
qed

lemma from_le_le_bytes:
  assumes "LENGTH('a) \<le> 8 * n"
  shows "from_le (le_bytes n (w :: 'a::len word)) = w"
proof (rule bit_word_eqI)
  fix i assume i: "i < LENGTH('a)"
  with assms have n: "i div 8 < n" by simp
  have "8 * (i div 8) + i mod 8 = i" by simp
  then show "bit (from_le (le_bytes n w) :: 'a word) i = bit w i"
    using i n by (auto simp: bit_from_le le_bytes_def bit_unsigned_iff bit_drop_bit_eq add.commute)
qed

lemma le_bytes_from_le:
  assumes "8 * length bs \<le> LENGTH('a)"
  shows "le_bytes (length bs) (from_le bs :: 'a::len word) = bs"
proof (rule nth_equalityI)
  show "length (le_bytes (length bs) (from_le bs :: 'a word)) = length bs" by simp
next
  fix k assume "k < length (le_bytes (length bs) (from_le bs :: 'a word))"
  then have k: "k < length bs" by simp
  show "le_bytes (length bs) (from_le bs :: 'a word) ! k = bs ! k"
  proof (rule bit_word_eqI)
    fix i assume i: "i < LENGTH(8)"
    then have i8: "i < 8" by simp
    have lt: "8 * k + i < LENGTH('a)" using k i8 assms by simp
    have "(8 * k + i) div 8 = k" and "(8 * k + i) mod 8 = i" using i8 by simp_all
    then show "bit (le_bytes (length bs) (from_le bs :: 'a word) ! k) i = bit (bs ! k) i"
      using k i8 lt by (simp add: le_bytes_def bit_unsigned_iff bit_drop_bit_eq bit_from_le)
  qed
qed

lemma from_le_le_bytes_u16 [simp, codec_simps]: "from_le (le_bytes 2 (w :: u16)) = w"
  by (rule from_le_le_bytes) simp

lemma from_le_le_bytes_u32 [simp, codec_simps]: "from_le (le_bytes 4 (w :: u32)) = w"
  by (rule from_le_le_bytes) simp

lemma from_le_le_bytes_u64 [simp, codec_simps]: "from_le (le_bytes 8 (w :: u64)) = w"
  by (rule from_le_le_bytes) simp

lemma le_bytes_from_le_u16: "length bs = 2 \<Longrightarrow> le_bytes 2 (from_le bs :: u16) = bs"
  using le_bytes_from_le [of bs, where 'a = 16] by simp

lemma le_bytes_from_le_u32: "length bs = 4 \<Longrightarrow> le_bytes 4 (from_le bs :: u32) = bs"
  using le_bytes_from_le [of bs, where 'a = 32] by simp

lemma le_bytes_from_le_u64: "length bs = 8 \<Longrightarrow> le_bytes 8 (from_le bs :: u64) = bs"
  using le_bytes_from_le [of bs, where 'a = 64] by simp

section \<open>Byte buffers\<close>

text \<open>\<open>buf_put off bs buf\<close> is \<open>buf[off..off + bs.len()].copy_from_slice(bs)\<close> and
  \<open>buf_get off n buf\<close> is \<open>&buf[off..off + n]\<close>, both for ranges inside the buffer. Where
  the source can be handed a range outside of it, the model tests the range and has a panic
  outcome.\<close>

definition buf_put :: "nat \<Rightarrow> 'b list \<Rightarrow> 'b list \<Rightarrow> 'b list" where
  "buf_put off bs buf = take off buf @ bs @ drop (off + length bs) buf"

definition buf_get :: "nat \<Rightarrow> nat \<Rightarrow> 'b list \<Rightarrow> 'b list" where
  "buf_get off n buf = take n (drop off buf)"

lemma length_buf_put [simp]:
  "off + length bs \<le> length buf \<Longrightarrow> length (buf_put off bs buf) = length buf"
  by (simp add: buf_put_def)

lemma length_buf_get [simp]: "off + n \<le> length buf \<Longrightarrow> length (buf_get off n buf) = n"
  by (simp add: buf_get_def)

lemma buf_get_put_same [buf_simps]:
  "off + length bs \<le> length buf \<Longrightarrow> n = length bs \<Longrightarrow> buf_get off n (buf_put off bs buf) = bs"
  by (simp add: buf_get_def buf_put_def)

lemma buf_get_put_before [buf_simps]:
  "off + n \<le> off' \<Longrightarrow> off' \<le> length buf \<Longrightarrow>
     buf_get off n (buf_put off' bs buf) = buf_get off n buf"
  by (simp add: buf_get_def buf_put_def drop_take)

lemma buf_get_put_after [buf_simps]:
  "off' + length bs \<le> off \<Longrightarrow> off' \<le> length buf \<Longrightarrow>
     buf_get off n (buf_put off' bs buf) = buf_get off n buf"
  by (simp add: buf_get_def buf_put_def)

lemma buf_get_put_inside:
  "off \<le> x \<Longrightarrow> x + n \<le> off + length bs \<Longrightarrow> off + length bs \<le> length buf \<Longrightarrow>
     buf_get x n (buf_put off bs buf) = buf_get (x - off) n bs"
  by (simp add: buf_get_def buf_put_def)

lemma nth_buf_put [buf_simps]:
  "i < length buf \<Longrightarrow> off + length bs \<le> length buf \<Longrightarrow>
     buf_put off bs buf ! i = (if off \<le> i \<and> i < off + length bs then bs ! (i - off) else buf ! i)"
  by (auto simp: buf_put_def nth_append min_def)

lemma nth_buf_get:
  "i < n \<Longrightarrow> off + n \<le> length buf \<Longrightarrow> buf_get off n buf ! i = buf ! (off + i)"
  by (simp add: buf_get_def)

lemma buf_get_replicate [buf_simps]:
  "off + n \<le> m \<Longrightarrow> buf_get off n (replicate m x) = replicate n x"
  by (simp add: buf_get_def min_def)

lemma buf_get_all: "n = length buf \<Longrightarrow> buf_get 0 n buf = buf"
  by (simp add: buf_get_def)

lemma buf_get_split: "buf_get off (m + n) buf = buf_get off m buf @ buf_get (off + m) n buf"
  by (simp add: buf_get_def take_add add.commute)

lemma buf_get_update [buf_simps]:
  "i < off \<or> off + n \<le> i \<Longrightarrow> buf_get off n (buf[i := v]) = buf_get off n buf"
  by (auto simp: buf_get_def drop_update_cancel take_update_cancel drop_update_swap)

lemma buf_get_1: "i < length buf \<Longrightarrow> buf_get i 1 buf = [buf ! i]"
  by (simp add: buf_get_def take_Suc_conv_app_nth flip: Cons_nth_drop_Suc)

lemma buf_get_append1 [buf_simps]: "off + n \<le> length a \<Longrightarrow> buf_get off n (a @ b) = buf_get off n a"
  by (simp add: buf_get_def)

lemma buf_get_append2 [buf_simps]:
  "length a \<le> off \<Longrightarrow> buf_get off n (a @ b) = buf_get (off - length a) n b"
  by (simp add: buf_get_def)

lemma buf_get_take: "off + n \<le> m \<Longrightarrow> buf_get off n (take m bs) = buf_get off n bs"
  by (simp add: buf_get_def drop_take)

text \<open>Two buffers of the same length are equal once they agree on a list of consecutive fields
  that covers them; the argument lists the field widths.\<close>

fun same_fields :: "nat \<Rightarrow> nat list \<Rightarrow> 'b list \<Rightarrow> 'b list \<Rightarrow> bool" where
  "same_fields off [] a b = True"
| "same_fields off (n # ns) a b =
     (buf_get off n a = buf_get off n b \<and> same_fields (off + n) ns a b)"

lemma same_fields_get:
  "same_fields off ns a b \<Longrightarrow> buf_get off (sum_list ns) a = buf_get off (sum_list ns) b"
proof (induction ns arbitrary: off)
  case Nil
  then show ?case by (simp add: buf_get_def)
next
  case (Cons n ns)
  then show ?case by (simp add: buf_get_split)
qed

lemma buf_eq_by_fields:
  assumes "same_fields 0 ns a b" "length a = sum_list ns" "length b = sum_list ns"
  shows "a = b"
  using same_fields_get [OF assms(1)] assms(2,3) by (simp add: buf_get_all)

section \<open>Checked arithmetic on machine words\<close>

text \<open>Rust's \<open>checked_add\<close> on unsigned integers: \<open>None\<close> on overflow.\<close>

definition checked_add :: "'a::len word \<Rightarrow> 'a word \<Rightarrow> 'a word option" where
  "checked_add a b = (if unat a + unat b < 2 ^ LENGTH('a) then Some (a + b) else None)"

lemma checked_add_Some:
  "checked_add a b = Some c \<Longrightarrow> unat c = unat a + unat b"
  by (auto simp: checked_add_def unat_word_ariths split: if_splits)

lemma checked_add_le: "checked_add a b = Some c \<Longrightarrow> a \<le> c"
  by (simp add: word_le_nat_alt checked_add_Some)

lemma checked_add_less: "checked_add a b = Some c \<Longrightarrow> 0 < b \<Longrightarrow> a < c"
  by (simp add: word_less_nat_alt checked_add_Some)

section \<open>Lists\<close>

text \<open>\<open>find_last P xs\<close> is the first hit of a reverse iteration, \<open>xs.iter().rev().find(P)\<close>.\<close>

definition find_last :: "('a \<Rightarrow> bool) \<Rightarrow> 'a list \<Rightarrow> 'a option" where
  "find_last P xs = find P (rev xs)"

lemma find_last_Nil [simp]: "find_last P [] = None"
  by (simp add: find_last_def)

lemma find_last_snoc [simp]:
  "find_last P (xs @ [x]) = (if P x then Some x else find_last P xs)"
  by (simp add: find_last_def)

lemma find_None_iff_set: "find P xs = None \<longleftrightarrow> (\<forall>x\<in>set xs. \<not> P x)"
  by (induction xs) auto

lemma find_Some_set: "find P xs = Some x \<Longrightarrow> x \<in> set xs \<and> P x"
  by (induction xs) (auto split: if_splits)

lemma find_last_None_iff: "find_last P xs = None \<longleftrightarrow> (\<forall>x\<in>set xs. \<not> P x)"
  by (simp add: find_last_def find_None_iff_set)

lemma find_last_Some_set: "find_last P xs = Some x \<Longrightarrow> x \<in> set xs \<and> P x"
  by (auto simp: find_last_def dest: find_Some_set)

text \<open>Where at most one element satisfies the predicate, the direction of the search does
  not matter.\<close>

lemma find_last_unique:
  assumes "x \<in> set xs" "P x" "\<And>y. y \<in> set xs \<Longrightarrow> P y \<Longrightarrow> y = x"
  shows "find_last P xs = Some x"
proof (cases "find_last P xs")
  case None
  with assms(1,2) show ?thesis by (simp add: find_last_None_iff)
next
  case (Some y)
  then have "y = x" using assms(3) find_last_Some_set by metis
  with Some show ?thesis by simp
qed

end
