(* ===== verification/Core_Error.thy ===== *)
theory Core_Error
  imports Prelude
begin

text \<open>
  The error enum of the core crate (\<open>arcgraph-core/src/error.rs\<close>) and the identifier newtypes of
  \<open>arcgraph-core/src/ids.rs\<close>. Identifiers are type synonyms for the integer they wrap. A
  \<open>reason\<close> or \<open>target\<close> string keeps the fixed text of the source's \<open>format!\<close> template; the numbers
  printed into it are left out, no code branches on them.
\<close>

type_synonym NodeId = u64
type_synonym RelId = u64
type_synonym PageId = u64
type_synonym Lsn = u64
type_synonym TenantId = u64
type_synonym TxnId = u64
type_synonym LabelId = u32
type_synonym TypeId = u32

definition Lsn_ZERO :: Lsn where "Lsn_ZERO = 0"
definition Lsn_MAX :: Lsn where "Lsn_MAX = 0xFFFFFFFFFFFFFFFF"
definition TenantId_SYSTEM :: TenantId where "TenantId_SYSTEM = 0"
definition TenantId_DEFAULT :: TenantId where "TenantId_DEFAULT = 1"

datatype ArcGraphError =
    Io string
  | PageCorruption PageId string
  | WalCorruption Lsn string
  | WalRecordTypeReserved u8
  | MvccConflict string
  | InvalidRecordLength nat nat
  | UnknownPageType u8
  | UnsupportedRecordVersion u8
  | BadPageMagic u32 u32
  | BufferPoolExhausted
  | TransactionAborted string
  | WalUnavailable
  | WalFormatMismatch u16 "u16 list"
  | WalBadMagic bytes bytes
  | UnsafeMountOptions string string
  | WalErrorRolledBack ArcGraphError
  | UnrecoverableOrphans u64 string
  | WalDecryptionFailed Lsn u16 string
  | PageDecryptionFailed PageId u16 string
  | VectorIndexInconsistency u64 u64 u64 u64 u64 u64 int

text \<open>The outcome of code that can panic: \<open>expect\<close> and \<open>unwrap\<close> on the wrong variant,
  \<open>assert!\<close>, a slice range outside its buffer.\<close>

datatype 'a run = Done 'a | Panicked

fun bind_run :: "'a run \<Rightarrow> ('a \<Rightarrow> 'b run) \<Rightarrow> 'b run" where
  "bind_run Panicked f = Panicked"
| "bind_run (Done x) f = f x"

lemma bind_run_Done_iff: "bind_run m f = Done y \<longleftrightarrow> (\<exists>x. m = Done x \<and> f x = Done y)"
  by (cases m) auto

lemma Lsn_MAX_eq_max_word: "Lsn_MAX = - 1"
  by (simp add: Lsn_MAX_def)

lemma Lsn_le_MAX [simp]: "(l :: Lsn) \<le> Lsn_MAX"
  by (simp add: Lsn_MAX_eq_max_word)

lemma Lsn_MAX_le [simp]: "Lsn_MAX \<le> (l :: Lsn) \<longleftrightarrow> l = Lsn_MAX"
  using order_antisym [OF Lsn_le_MAX [of l]] by auto

lemma Lsn_MAX_not_less [simp]: "\<not> Lsn_MAX < (l :: Lsn)"
  using Lsn_le_MAX [of l] leD by blast

lemma Lsn_less_MAX: "(l :: Lsn) < Lsn_MAX \<longleftrightarrow> l \<noteq> Lsn_MAX"
  using Lsn_le_MAX [of l] by (auto simp: order_less_le)

text \<open>Building an error value from a result, the way \<open>?\<close> propagates it.\<close>

fun bind_res :: "'e + 'a \<Rightarrow> ('a \<Rightarrow> 'e + 'b) \<Rightarrow> 'e + 'b" where
  "bind_res (Inl e) f = Inl e"
| "bind_res (Inr x) f = f x"

lemma bind_res_Inr_iff: "bind_res m f = Inr y \<longleftrightarrow> (\<exists>x. m = Inr x \<and> f x = Inr y)"
  by (cases m) auto

end
