(* ===== verification/Record_Codec.thy ===== *)
theory Record_Codec
  imports Core_Error
begin

text \<open>
  The on-disk record formats of \<open>arcgraph-core/src/record.rs\<close>: the page-type byte, the 40 byte page
  header, the 64 byte node record, the 96 byte relationship record and the 32 byte adjacency
  (TEL) entry. Every \<open>to_bytes\<close> starts from a zeroed array and writes its fields at the
  offsets of the source; every \<open>from_bytes\<close> makes the source's checks in the source's order.
  The floating point weight of a relationship is kept as its 32 bit pattern, which is all the
  codec moves. The locale \<open>fixed_codec\<close> is the contract of a fixed width codec; it is
  interpreted on the four record formats.
\<close>

section \<open>Constants and page types\<close>

definition PAGE_SIZE :: nat where "PAGE_SIZE = 8192"
definition PAGE_MAGIC :: u32 where "PAGE_MAGIC = 0x47435241"
definition PAGE_HEADER_VERSION :: u8 where "PAGE_HEADER_VERSION = 2"
definition NODE_RECORD_VERSION :: u8 where "NODE_RECORD_VERSION = 1"
definition REL_RECORD_VERSION :: u8 where "REL_RECORD_VERSION = 1"

datatype PageType =
  Free | Node | Rel | Tel | IndexInternal | IndexLeaf | VectorNeighbor | WalBuffer
  | IndexOverflow | PropSlotted

definition PageType_from_byte :: "u8 \<Rightarrow> ArcGraphError + PageType" where
  "PageType_from_byte b =
     (if b = 0 then Inr Free
      else if b = 1 then Inr Node
      else if b = 2 then Inr Rel
      else if b = 3 then Inr Tel
      else if b = 4 then Inr IndexInternal
      else if b = 5 then Inr IndexLeaf
      else if b = 6 then Inr VectorNeighbor
      else if b = 7 then Inr WalBuffer
      else if b = 8 then Inr IndexOverflow
      else if b = 9 then Inr PropSlotted
      else Inl (UnknownPageType b))"

fun PageType_as_byte :: "PageType \<Rightarrow> u8" where
  "PageType_as_byte Free = 0"
| "PageType_as_byte Node = 1"
| "PageType_as_byte Rel = 2"
| "PageType_as_byte Tel = 3"
| "PageType_as_byte IndexInternal = 4"
| "PageType_as_byte IndexLeaf = 5"
| "PageType_as_byte VectorNeighbor = 6"
| "PageType_as_byte WalBuffer = 7"
| "PageType_as_byte IndexOverflow = 8"
| "PageType_as_byte PropSlotted = 9"

section \<open>Page header\<close>

record PageHeader =
  ph_magic :: u32
  ph_version :: u8
  ph_page_type :: u8
  ph_flags :: u16
  ph_page_id :: u64
  ph_lsn :: u64
  ph_tenant_id :: u64
  ph_checksum :: u32
  ph_slot_count :: u16
  ph_free_space :: u16

definition PageHeader_SIZE :: nat where "PageHeader_SIZE = 40"

definition PageHeader_new :: "PageId \<Rightarrow> PageType \<Rightarrow> TenantId \<Rightarrow> PageHeader" where
  "PageHeader_new page_id page_type tenant =
     \<lparr> ph_magic = PAGE_MAGIC, ph_version = PAGE_HEADER_VERSION,
       ph_page_type = PageType_as_byte page_type, ph_flags = 0, ph_page_id = page_id,
       ph_lsn = 0, ph_tenant_id = tenant, ph_checksum = 0, ph_slot_count = 0,
       ph_free_space = 0 \<rparr>"

definition PageHeader_to_bytes :: "PageHeader \<Rightarrow> bytes" where
  "PageHeader_to_bytes h =
     (let buf = replicate PageHeader_SIZE 0;
          buf = buf_put 0 (le_bytes 4 (ph_magic h)) buf;
          buf = buf[4 := ph_version h];
          buf = buf[5 := ph_page_type h];
          buf = buf_put 6 (le_bytes 2 (ph_flags h)) buf;
          buf = buf_put 8 (le_bytes 8 (ph_page_id h)) buf;
          buf = buf_put 16 (le_bytes 8 (ph_lsn h)) buf;
          buf = buf_put 24 (le_bytes 8 (ph_tenant_id h)) buf;
          buf = buf_put 32 (le_bytes 4 (ph_checksum h)) buf;
          buf = buf_put 36 (le_bytes 2 (ph_slot_count h)) buf;
          buf = buf_put 38 (le_bytes 2 (ph_free_space h)) buf
      in buf)"

definition PageHeader_from_bytes :: "bytes \<Rightarrow> ArcGraphError + PageHeader" where
  "PageHeader_from_bytes bs =
     (let magic = from_le (buf_get 0 4 bs) in
      if magic \<noteq> PAGE_MAGIC then Inl (BadPageMagic magic PAGE_MAGIC)
      else if bs ! 4 \<noteq> PAGE_HEADER_VERSION then Inl (UnsupportedRecordVersion (bs ! 4))
      else bind_res (PageType_from_byte (bs ! 5)) (\<lambda>_.
        Inr \<lparr> ph_magic = magic, ph_version = bs ! 4, ph_page_type = bs ! 5,
              ph_flags = from_le (buf_get 6 2 bs), ph_page_id = from_le (buf_get 8 8 bs),
              ph_lsn = from_le (buf_get 16 8 bs), ph_tenant_id = from_le (buf_get 24 8 bs),
              ph_checksum = from_le (buf_get 32 4 bs),
              ph_slot_count = from_le (buf_get 36 2 bs),
              ph_free_space = from_le (buf_get 38 2 bs) \<rparr>))"

section \<open>Node record\<close>

record NodeRecord =
  nr_id :: u64
  nr_label_id :: u32
  nr_flags :: u8
  nr_property_ref :: u64
  nr_inline_u32a :: u32
  nr_inline_u32b :: u32
  nr_vector_ref :: u64
  nr_out_tel_ref :: u64
  nr_in_tel_ref :: u64
  nr_created_lsn :: u64

definition VERSION_MASK :: u8 where "VERSION_MASK = 0b00000111"
definition DELETED :: u8 where "DELETED = 0b00001000"
definition HAS_VECTOR :: u8 where "HAS_VECTOR = 0b00010000"
definition HAS_EXTENDED :: u8 where "HAS_EXTENDED = 0b00100000"

definition NodeRecord_SIZE :: nat where "NodeRecord_SIZE = 64"

definition NodeRecord_new :: "NodeId \<Rightarrow> LabelId \<Rightarrow> Lsn \<Rightarrow> NodeRecord" where
  "NodeRecord_new i label created =
     \<lparr> nr_id = i, nr_label_id = label, nr_flags = NODE_RECORD_VERSION AND VERSION_MASK,
       nr_property_ref = 0, nr_inline_u32a = 0, nr_inline_u32b = 0, nr_vector_ref = 0,
       nr_out_tel_ref = 0, nr_in_tel_ref = 0, nr_created_lsn = created \<rparr>"

definition NodeRecord_version :: "NodeRecord \<Rightarrow> u8" where
  "NodeRecord_version r = nr_flags r AND VERSION_MASK"

definition NodeRecord_is_deleted :: "NodeRecord \<Rightarrow> bool" where
  "NodeRecord_is_deleted r \<longleftrightarrow> (nr_flags r AND DELETED) \<noteq> 0"

definition NodeRecord_is_visible_at :: "NodeRecord \<Rightarrow> Lsn \<Rightarrow> bool" where
  "NodeRecord_is_visible_at r read_lsn \<longleftrightarrow>
     nr_created_lsn r \<le> read_lsn \<and> \<not> NodeRecord_is_deleted r"

definition NodeRecord_to_bytes :: "NodeRecord \<Rightarrow> bytes" where
  "NodeRecord_to_bytes r =
     (let buf = replicate NodeRecord_SIZE 0;
          buf = buf_put 0 (le_bytes 8 (nr_id r)) buf;
          buf = buf_put 8 (le_bytes 4 (nr_label_id r)) buf;
          buf = buf[12 := nr_flags r];
          buf = buf_put 16 (le_bytes 8 (nr_property_ref r)) buf;
          buf = buf_put 24 (le_bytes 4 (nr_inline_u32a r)) buf;
          buf = buf_put 28 (le_bytes 4 (nr_inline_u32b r)) buf;
          buf = buf_put 32 (le_bytes 8 (nr_vector_ref r)) buf;
          buf = buf_put 40 (le_bytes 8 (nr_out_tel_ref r)) buf;
          buf = buf_put 48 (le_bytes 8 (nr_in_tel_ref r)) buf;
          buf = buf_put 56 (le_bytes 8 (nr_created_lsn r)) buf
      in buf)"

definition NodeRecord_from_bytes :: "bytes \<Rightarrow> ArcGraphError + NodeRecord" where
  "NodeRecord_from_bytes bs =
     (let flags = bs ! 12; version = flags AND VERSION_MASK in
      if version \<noteq> NODE_RECORD_VERSION then Inl (UnsupportedRecordVersion version)
      else Inr
        \<lparr> nr_id = from_le (buf_get 0 8 bs), nr_label_id = from_le (buf_get 8 4 bs),
          nr_flags = flags, nr_property_ref = from_le (buf_get 16 8 bs),
          nr_inline_u32a = from_le (buf_get 24 4 bs),
          nr_inline_u32b = from_le (buf_get 28 4 bs),
          nr_vector_ref = from_le (buf_get 32 8 bs),
          nr_out_tel_ref = from_le (buf_get 40 8 bs),
          nr_in_tel_ref = from_le (buf_get 48 8 bs),
          nr_created_lsn = from_le (buf_get 56 8 bs) \<rparr>)"

section \<open>Relationship record\<close>

record RelRecord =
  rr_id :: u64
  rr_type_id :: u32
  rr_flags :: u8
  rr_src_id :: u64
  rr_dst_id :: u64
  rr_property_ref :: u64
  rr_inline_u32a :: u32
  rr_inline_u32b :: u32
  rr_created_lsn :: u64
  rr_expired_lsn :: u64
  rr_weight :: u32

definition RelRecord_SIZE :: nat where "RelRecord_SIZE = 96"

definition RelRecord_new :: "RelId \<Rightarrow> TypeId \<Rightarrow> NodeId \<Rightarrow> NodeId \<Rightarrow> Lsn \<Rightarrow> RelRecord" where
  "RelRecord_new i ty src dst created =
     \<lparr> rr_id = i, rr_type_id = ty, rr_flags = REL_RECORD_VERSION AND VERSION_MASK,
       rr_src_id = src, rr_dst_id = dst, rr_property_ref = 0, rr_inline_u32a = 0,
       rr_inline_u32b = 0, rr_created_lsn = created, rr_expired_lsn = Lsn_MAX,
       rr_weight = 0 \<rparr>"

definition RelRecord_is_visible_at :: "RelRecord \<Rightarrow> Lsn \<Rightarrow> bool" where
  "RelRecord_is_visible_at r read_lsn \<longleftrightarrow>
     rr_created_lsn r \<le> read_lsn \<and> read_lsn < rr_expired_lsn r"

definition RelRecord_to_bytes :: "RelRecord \<Rightarrow> bytes" where
  "RelRecord_to_bytes r =
     (let buf = replicate RelRecord_SIZE 0;
          buf = buf_put 0 (le_bytes 8 (rr_id r)) buf;
          buf = buf_put 8 (le_bytes 4 (rr_type_id r)) buf;
          buf = buf[12 := rr_flags r];
          buf = buf_put 16 (le_bytes 8 (rr_src_id r)) buf;
          buf = buf_put 24 (le_bytes 8 (rr_dst_id r)) buf;
          buf = buf_put 32 (le_bytes 8 (rr_property_ref r)) buf;
          buf = buf_put 40 (le_bytes 4 (rr_inline_u32a r)) buf;
          buf = buf_put 44 (le_bytes 4 (rr_inline_u32b r)) buf;
          buf = buf_put 48 (le_bytes 8 (rr_created_lsn r)) buf;
          buf = buf_put 56 (le_bytes 8 (rr_expired_lsn r)) buf;
          buf = buf_put 64 (le_bytes 4 (rr_weight r)) buf
      in buf)"

definition RelRecord_from_bytes :: "bytes \<Rightarrow> ArcGraphError + RelRecord" where
  "RelRecord_from_bytes bs =
     (let flags = bs ! 12; version = flags AND VERSION_MASK in
      if version \<noteq> REL_RECORD_VERSION then Inl (UnsupportedRecordVersion version)
      else Inr
        \<lparr> rr_id = from_le (buf_get 0 8 bs), rr_type_id = from_le (buf_get 8 4 bs),
          rr_flags = flags, rr_src_id = from_le (buf_get 16 8 bs),
          rr_dst_id = from_le (buf_get 24 8 bs),
          rr_property_ref = from_le (buf_get 32 8 bs),
          rr_inline_u32a = from_le (buf_get 40 4 bs),
          rr_inline_u32b = from_le (buf_get 44 4 bs),
          rr_created_lsn = from_le (buf_get 48 8 bs),
          rr_expired_lsn = from_le (buf_get 56 8 bs),
          rr_weight = from_le (buf_get 64 4 bs) \<rparr>)"

section \<open>TEL entry\<close>

record TelEntry =
  te_dst_id :: u64
  te_rel_id :: u64
  te_created_lsn :: u64
  te_expired_lsn :: u64

definition TelEntry_SIZE :: nat where "TelEntry_SIZE = 32"

definition TelEntry_new :: "NodeId \<Rightarrow> RelId \<Rightarrow> Lsn \<Rightarrow> TelEntry" where
  "TelEntry_new dst rel created =
     \<lparr> te_dst_id = dst, te_rel_id = rel, te_created_lsn = created,
       te_expired_lsn = Lsn_MAX \<rparr>"

definition TelEntry_is_visible_at :: "TelEntry \<Rightarrow> Lsn \<Rightarrow> bool" where
  "TelEntry_is_visible_at e read_lsn \<longleftrightarrow>
     te_created_lsn e \<le> read_lsn \<and> read_lsn < te_expired_lsn e"

definition TelEntry_to_bytes :: "TelEntry \<Rightarrow> bytes" where
  "TelEntry_to_bytes e =
     (let buf = replicate TelEntry_SIZE 0;
          buf = buf_put 0 (le_bytes 8 (te_dst_id e)) buf;
          buf = buf_put 8 (le_bytes 8 (te_rel_id e)) buf;
          buf = buf_put 16 (le_bytes 8 (te_created_lsn e)) buf;
          buf = buf_put 24 (le_bytes 8 (te_expired_lsn e)) buf
      in buf)"

definition TelEntry_from_bytes :: "bytes \<Rightarrow> TelEntry" where
  "TelEntry_from_bytes bs =
     \<lparr> te_dst_id = from_le (buf_get 0 8 bs), te_rel_id = from_le (buf_get 8 8 bs),
       te_created_lsn = from_le (buf_get 16 8 bs),
       te_expired_lsn = from_le (buf_get 24 8 bs) \<rparr>"

section \<open>The contract of a fixed width codec\<close>

text \<open>A codec with encodings of one width, whose decoder inverts the encoder on the records
  this build writes. Records stored one after the other are read back from their offsets.\<close>

locale fixed_codec =
  fixes enc :: "'r \<Rightarrow> bytes"
    and dec :: "bytes \<Rightarrow> ArcGraphError + 'r"
    and wf :: "'r \<Rightarrow> bool"
    and width :: nat
  assumes enc_length: "length (enc r) = width"
    and dec_enc: "wf r \<Longrightarrow> dec (enc r) = Inr r"
begin

lemma enc_inj: "wf r \<Longrightarrow> wf r' \<Longrightarrow> enc r = enc r' \<Longrightarrow> r = r'"
  by (metis dec_enc sum.inject(2))

lemma get_concat:
  "k < length rs \<Longrightarrow> buf_get (k * width) width (concat (map enc rs)) = enc (rs ! k)"
proof (induction rs arbitrary: k)
  case Nil
  then show ?case by simp
next
  case (Cons r rs)
  show ?case
  proof (cases k)
    case 0
    then show ?thesis by (simp add: buf_get_def enc_length)
  next
    case (Suc j)
    with Cons show ?thesis by (simp add: buf_get_def enc_length)
  qed
qed

lemma dec_concat:
  "k < length rs \<Longrightarrow> wf (rs ! k) \<Longrightarrow>
     dec (buf_get (k * width) width (concat (map enc rs))) = Inr (rs ! k)"
  by (simp add: get_concat dec_enc)

lemma dec_put:
  "wf r \<Longrightarrow> off + width \<le> length buf \<Longrightarrow> dec (buf_get off width (buf_put off (enc r) buf)) = Inr r"
  by (simp add: buf_get_put_same enc_length dec_enc)

end

section \<open>Round trips\<close>

text \<open>A header, node or relationship that this build writes: its version bits (and, for the header,
  its magic and type byte) are known ones.\<close>

definition header_wf :: "PageHeader \<Rightarrow> bool" where
  "header_wf h \<longleftrightarrow> ph_magic h = PAGE_MAGIC \<and> ph_version h = PAGE_HEADER_VERSION \<and>
     ph_page_type h \<in> range PageType_as_byte"

definition node_wf :: "NodeRecord \<Rightarrow> bool" where
  "node_wf r \<longleftrightarrow> nr_flags r AND VERSION_MASK = NODE_RECORD_VERSION"

definition rel_wf :: "RelRecord \<Rightarrow> bool" where
  "rel_wf r \<longleftrightarrow> rr_flags r AND VERSION_MASK = REL_RECORD_VERSION"

lemma PageType_byte_roundtrip: "PageType_from_byte (PageType_as_byte t) = Inr t"
  by (cases t) (simp_all add: PageType_from_byte_def)

lemma PageType_from_byte_Inr: "PageType_from_byte b = Inr t \<longleftrightarrow> b = PageType_as_byte t"
  by (auto simp: PageType_byte_roundtrip) (auto simp: PageType_from_byte_def split: if_splits)

lemma length_PageHeader_to_bytes [simp]: "length (PageHeader_to_bytes h) = 40"
  by (simp add: PageHeader_to_bytes_def PageHeader_SIZE_def)

lemma length_NodeRecord_to_bytes [simp]: "length (NodeRecord_to_bytes r) = 64"
  by (simp add: NodeRecord_to_bytes_def NodeRecord_SIZE_def)

lemma length_RelRecord_to_bytes [simp]: "length (RelRecord_to_bytes r) = 96"
  by (simp add: RelRecord_to_bytes_def RelRecord_SIZE_def)

lemma length_TelEntry_to_bytes [simp]: "length (TelEntry_to_bytes r) = 32"
  by (simp add: TelEntry_to_bytes_def TelEntry_SIZE_def)

interpretation hdr_codec: fixed_codec PageHeader_to_bytes PageHeader_from_bytes header_wf 40
proof
  fix h assume h: "header_wf h"
  then obtain t where "ph_page_type h = PageType_as_byte t"
    by (auto simp: header_wf_def)
  with h show "PageHeader_from_bytes (PageHeader_to_bytes h) = Inr h"
    by (simp add: header_wf_def PageHeader_to_bytes_def PageHeader_from_bytes_def
        PageHeader_SIZE_def Let_def buf_simps PageType_byte_roundtrip)
qed simp

interpretation node_codec: fixed_codec NodeRecord_to_bytes NodeRecord_from_bytes node_wf 64
  by unfold_locales
    (simp_all add: node_wf_def NodeRecord_to_bytes_def NodeRecord_from_bytes_def
      NodeRecord_SIZE_def Let_def buf_simps)

interpretation rel_codec: fixed_codec RelRecord_to_bytes RelRecord_from_bytes rel_wf 96
  by unfold_locales
    (simp_all add: rel_wf_def RelRecord_to_bytes_def RelRecord_from_bytes_def
      RelRecord_SIZE_def Let_def buf_simps)

interpretation tel_codec: fixed_codec TelEntry_to_bytes "\<lambda>bs. Inr (TelEntry_from_bytes bs)"
    "\<lambda>_. True" 32
  by unfold_locales
    (simp_all add: TelEntry_to_bytes_def TelEntry_from_bytes_def TelEntry_SIZE_def buf_simps)

lemma TelEntry_roundtrip: "TelEntry_from_bytes (TelEntry_to_bytes e) = e"
  using tel_codec.dec_enc [of e] by simp

text \<open>The decoders accept only what the well-formedness predicates describe.\<close>

lemma PageHeader_from_bytes_wf: "PageHeader_from_bytes bs = Inr h \<Longrightarrow> header_wf h"
  by (auto simp: PageHeader_from_bytes_def header_wf_def Let_def bind_res_Inr_iff
      PageType_from_byte_Inr split: if_splits)

lemma NodeRecord_from_bytes_wf: "NodeRecord_from_bytes bs = Inr r \<Longrightarrow> node_wf r"
  by (auto simp: NodeRecord_from_bytes_def node_wf_def Let_def split: if_splits)

lemma RelRecord_from_bytes_wf: "RelRecord_from_bytes bs = Inr r \<Longrightarrow> rel_wf r"
  by (auto simp: RelRecord_from_bytes_def rel_wf_def Let_def split: if_splits)

text \<open>Reading a header loses nothing: every byte of an accepted header is written back.\<close>

lemma PageHeader_lossless:
  assumes "PageHeader_from_bytes bs = Inr h" "length bs = 40"
  shows "PageHeader_to_bytes h = bs"
proof (rule buf_eq_by_fields)
  have h: "h = \<lparr> ph_magic = from_le (buf_get 0 4 bs), ph_version = bs ! 4,
      ph_page_type = bs ! 5, ph_flags = from_le (buf_get 6 2 bs),
      ph_page_id = from_le (buf_get 8 8 bs), ph_lsn = from_le (buf_get 16 8 bs),
      ph_tenant_id = from_le (buf_get 24 8 bs), ph_checksum = from_le (buf_get 32 4 bs),
      ph_slot_count = from_le (buf_get 36 2 bs), ph_free_space = from_le (buf_get 38 2 bs) \<rparr>"
    using assms(1)
    by (auto simp: PageHeader_from_bytes_def Let_def bind_res_Inr_iff split: if_splits)
  show "same_fields 0 [4, 1, 1, 2, 8, 8, 8, 4, 2, 2] (PageHeader_to_bytes h) bs"
    using assms(2)
    by (simp add: h PageHeader_to_bytes_def PageHeader_SIZE_def Let_def buf_simps buf_get_1
        le_bytes_from_le_u16 le_bytes_from_le_u32 le_bytes_from_le_u64 del: One_nat_def)
qed (use assms(2) in simp_all)

text \<open>C26: the page header codec is exact. Forty bytes decode to header \<open>h\<close> if and only if \<open>h\<close> has the
  magic, the version and a page type that this build writes, and the bytes are what \<open>to_bytes\<close> produces
  for it: nothing else is accepted and no byte is ignored.\<close>

theorem header_codec_exact:
  assumes "length bs = 40"
  shows "PageHeader_from_bytes bs = Inr h \<longleftrightarrow> header_wf h \<and> PageHeader_to_bytes h = bs"
  using PageHeader_from_bytes_wf PageHeader_lossless [OF _ assms] hdr_codec.dec_enc by blast

theorem header_codec_exact_witness:
  "PageHeader_from_bytes (PageHeader_to_bytes (PageHeader_new 3 Node 5)) = Inr (PageHeader_new 3 Node 5)"
proof -
  have "header_wf (PageHeader_new 3 Node 5)"
    unfolding header_wf_def PageHeader_new_def by (simp only: PageHeader.simps rangeI simp_thms)
  with header_codec_exact [of "PageHeader_to_bytes (PageHeader_new 3 Node 5)" "PageHeader_new 3 Node 5"]
  show ?thesis by simp
qed

text \<open>Records packed on a page are read back. From an array of encoded node records, and of
  encoded relationship records, the record at each index decodes to the record that was stored there,
  for all records whose version bits are current, with every flag and field kept.\<close>

theorem record_array_roundtrip:
  assumes "i < length ns" "node_wf (ns ! i)" "j < length rs" "rel_wf (rs ! j)"
  shows "NodeRecord_from_bytes (buf_get (i * NodeRecord_SIZE) NodeRecord_SIZE
      (concat (map NodeRecord_to_bytes ns))) = Inr (ns ! i) \<and>
    RelRecord_from_bytes (buf_get (j * RelRecord_SIZE) RelRecord_SIZE
      (concat (map RelRecord_to_bytes rs))) = Inr (rs ! j)"
  using node_codec.dec_concat [OF assms(1,2)] rel_codec.dec_concat [OF assms(3,4)]
  by (simp add: NodeRecord_SIZE_def RelRecord_SIZE_def)

theorem record_array_roundtrip_witness:
  "RelRecord_from_bytes (buf_get 96 96 (concat (map RelRecord_to_bytes
     [RelRecord_new 1 2 3 4 5, RelRecord_new 6 7 8 9 10]))) = Inr (RelRecord_new 6 7 8 9 10)"
proof -
  have "node_wf (NodeRecord_new 1 2 3)" "rel_wf (RelRecord_new 6 7 8 9 10)"
    by (simp_all add: node_wf_def rel_wf_def NodeRecord_new_def RelRecord_new_def VERSION_MASK_def
        NODE_RECORD_VERSION_def REL_RECORD_VERSION_def)
  with record_array_roundtrip [of 0 "[NodeRecord_new 1 2 3]" 1
      "[RelRecord_new 1 2 3 4 5, RelRecord_new 6 7 8 9 10]"]
  show ?thesis by (simp add: RelRecord_SIZE_def)
qed

end
