(* ===== verification/Tel_Block.thy ===== *)
theory Tel_Block
  imports Record_Codec
begin

text \<open>
  Transactional edge log blocks, \<open>arcgraph-storage/src/tel.rs\<close>. A block holds the outgoing edges of
  one vertex and label; entries grow from the end of the buffer towards its start, and the
  published \<open>entry_count\<close> is the only thing a reader trusts. Sizes and counts are natural
  numbers: the source keeps them in \<open>u32\<close>, the largest legal block is 65536 bytes and
  \<open>saturating_mul\<close> is written out. An append is the composition of its two memory effects, the
  store of the entry bytes and the publication of the count, so that readers can be interleaved
  between them.
\<close>

section \<open>Block\<close>

definition HEADER_SIZE :: nat where "HEADER_SIZE = 32"
definition ENTRY_SIZE :: nat where "ENTRY_SIZE = TelEntry_SIZE"
definition MIN_BLOCK_BYTES :: nat where "MIN_BLOCK_BYTES = HEADER_SIZE + ENTRY_SIZE"
definition MAX_BLOCK_BYTES :: nat where "MAX_BLOCK_BYTES = 65536"
definition MAX_ENTRIES :: nat where "MAX_ENTRIES = (MAX_BLOCK_BYTES - HEADER_SIZE) div ENTRY_SIZE"
definition NO_PREV_BLOCK :: u64 where "NO_PREV_BLOCK = 0xFFFFFFFFFFFFFFFF"

datatype TelError =
    InvalidBlockSize nat
  | Full nat nat
  | AlreadyLinked PageId

record TelBlock =
  tb_src_vertex_id :: u64
  tb_label :: u32
  tb_tenant_id :: u64
  tb_block_size :: nat
  tb_capacity_entries :: nat
  tb_entry_count :: nat
  tb_prev_block_ptr :: u64
  tb_entries_buf :: bytes

definition TelBlock_new :: "NodeId \<Rightarrow> LabelId \<Rightarrow> nat \<Rightarrow> TenantId \<Rightarrow> TelError + TelBlock" where
  "TelBlock_new src label block_size tenant =
     (if \<not> (MIN_BLOCK_BYTES \<le> block_size \<and> block_size \<le> MAX_BLOCK_BYTES)
         \<or> (block_size - HEADER_SIZE) mod ENTRY_SIZE \<noteq> 0
      then Inl (InvalidBlockSize block_size)
      else let entries_bytes = block_size - HEADER_SIZE in
        Inr \<lparr> tb_src_vertex_id = src, tb_label = label, tb_tenant_id = tenant,
              tb_block_size = block_size,
              tb_capacity_entries = entries_bytes div ENTRY_SIZE,
              tb_entry_count = 0, tb_prev_block_ptr = NO_PREV_BLOCK,
              tb_entries_buf = replicate entries_bytes 0 \<rparr>)"

definition TelBlock_prev_block_ptr :: "TelBlock \<Rightarrow> PageId option" where
  "TelBlock_prev_block_ptr b =
     (if tb_prev_block_ptr b = NO_PREV_BLOCK then None else Some (tb_prev_block_ptr b))"

definition set_prev_block_ptr :: "TelBlock \<Rightarrow> PageId \<Rightarrow> TelBlock \<times> (TelError + unit)" where
  "set_prev_block_ptr b prev =
     (if tb_prev_block_ptr b = NO_PREV_BLOCK
      then (b\<lparr>tb_prev_block_ptr := prev\<rparr>, Inr ())
      else (b, Inl (AlreadyLinked (tb_prev_block_ptr b))))"

text \<open>The start of slot \<open>i\<close>: \<open>slot_end = buf_len - i * ENTRY_SIZE\<close> and
  \<open>slot_start = slot_end - ENTRY_SIZE\<close>.\<close>

definition slot_start :: "TelBlock \<Rightarrow> nat \<Rightarrow> nat" where
  "slot_start b i = length (tb_entries_buf b) - i * ENTRY_SIZE - ENTRY_SIZE"

definition append_store :: "TelBlock \<Rightarrow> TelEntry \<Rightarrow> TelBlock" where
  "append_store b entry =
     b\<lparr>tb_entries_buf :=
        buf_put (slot_start b (tb_entry_count b)) (TelEntry_to_bytes entry) (tb_entries_buf b)\<rparr>"

definition append_publish :: "TelBlock \<Rightarrow> TelBlock" where
  "append_publish b = b\<lparr>tb_entry_count := tb_entry_count b + 1\<rparr>"

definition TelBlock_append :: "TelBlock \<Rightarrow> TelEntry \<Rightarrow> TelBlock \<times> (TelError + nat)" where
  "TelBlock_append b entry =
     (let count = tb_entry_count b in
      if count \<ge> tb_capacity_entries b then (b, Inl (Full count (tb_capacity_entries b)))
      else (append_publish (append_store b entry), Inr count))"

definition entry_bytes :: "TelBlock \<Rightarrow> nat \<Rightarrow> bytes option" where
  "entry_bytes b index =
     (if index \<ge> tb_entry_count b then None
      else Some (buf_get (slot_start b index) ENTRY_SIZE (tb_entries_buf b)))"

definition entry_at :: "TelBlock \<Rightarrow> nat \<Rightarrow> TelEntry option" where
  "entry_at b index = map_option TelEntry_from_bytes (entry_bytes b index)"

definition visible_entry_at :: "TelBlock \<Rightarrow> nat \<Rightarrow> Lsn \<Rightarrow> TelEntry option" where
  "visible_entry_at b index snapshot_lsn =
     (case entry_at b index of
        None \<Rightarrow> None
      | Some e \<Rightarrow> if TelEntry_is_visible_at e snapshot_lsn then Some e else None)"

section \<open>Growth\<close>

definition next_block_size :: "nat \<Rightarrow> nat option" where
  "next_block_size current =
     (if current \<ge> MAX_BLOCK_BYTES then None
      else if current < MIN_BLOCK_BYTES \<or> (current - HEADER_SIZE) mod ENTRY_SIZE \<noteq> 0 then None
      else let doubled = min (current * 2) (2 ^ 32 - 1) in
        Some (min doubled MAX_BLOCK_BYTES))"

text \<open>The copy loop \<open>for i in 0..count\<close> of \<open>grown\<close>, over the indices that are left; both
  \<open>expect\<close> calls are panics of the model.\<close>

fun grown_copy :: "TelBlock \<Rightarrow> nat list \<Rightarrow> TelBlock \<Rightarrow> TelBlock run" where
  "grown_copy b [] new_block = Done new_block"
| "grown_copy b (i # is) new_block =
     (case entry_bytes b i of
        None \<Rightarrow> Panicked
      | Some bs \<Rightarrow>
          (case TelBlock_append new_block (TelEntry_from_bytes bs) of
             (new_block', Inl _) \<Rightarrow> Panicked
           | (new_block', Inr _) \<Rightarrow> grown_copy b is new_block'))"

definition grown :: "TelBlock \<Rightarrow> TelBlock option run" where
  "grown b =
     (case next_block_size (tb_block_size b) of
        None \<Rightarrow> Done None
      | Some next_size \<Rightarrow>
          (case TelBlock_new (tb_src_vertex_id b) (tb_label b) next_size (tb_tenant_id b) of
             Inl _ \<Rightarrow> Panicked
           | Inr new_block \<Rightarrow>
               bind_run (grown_copy b [0..<tb_entry_count b] new_block)
                 (\<lambda>new_block'. Done (Some new_block'))))"

section \<open>Scan\<close>

record TelScan =
  ts_snapshot :: nat
  ts_next :: nat
  ts_snapshot_lsn :: Lsn

definition TelBlock_scan :: "TelBlock \<Rightarrow> Lsn \<Rightarrow> TelScan" where
  "TelBlock_scan b snapshot_lsn =
     \<lparr> ts_snapshot = tb_entry_count b, ts_next = 0, ts_snapshot_lsn = snapshot_lsn \<rparr>"

text \<open>One turn of the \<open>while\<close> loop of \<open>TelScan::next\<close>: \<open>None\<close> when the loop ends, otherwise the
  advanced scan and the entry it found, if that entry is visible. The block is an argument because the
  scan reads it by reference.\<close>

definition TelScan_turn :: "TelBlock \<Rightarrow> TelScan \<Rightarrow> (TelScan \<times> TelEntry option) option" where
  "TelScan_turn b s =
     (if ts_next s < ts_snapshot s
      then Some (s\<lparr>ts_next := ts_next s + 1\<rparr>,
                 visible_entry_at b (ts_next s) (ts_snapshot_lsn s))
      else None)"

function TelScan_next :: "TelBlock \<Rightarrow> TelScan \<Rightarrow> TelScan \<times> TelEntry option" where
  "TelScan_next b s =
     (case TelScan_turn b s of
        None \<Rightarrow> (s, None)
      | Some (s', Some e) \<Rightarrow> (s', Some e)
      | Some (s', None) \<Rightarrow> TelScan_next b s')"
  by pat_completeness auto
termination
  by (relation "measure (\<lambda>(b, s). ts_snapshot s - ts_next s)")
    (auto simp: TelScan_turn_def split: if_splits)

definition TelScan_size_hint :: "TelScan \<Rightarrow> nat \<times> nat option" where
  "TelScan_size_hint s = (0, Some (ts_snapshot s - ts_next s))"

text \<open>Driving the iterator to its end, \<open>scan.collect()\<close>.\<close>

lemma TelScan_next_measure:
  "TelScan_next b s = (s', Some e) \<Longrightarrow> ts_next s < ts_next s' \<and> ts_snapshot s' = ts_snapshot s \<and>
     ts_next s' \<le> ts_snapshot s \<and> ts_snapshot_lsn s' = ts_snapshot_lsn s"
proof (induction b s rule: TelScan_next.induct)
  case (1 b s)
  show ?case
  proof (cases "ts_next s < ts_snapshot s")
    case False
    with "1.prems" show ?thesis by (simp add: TelScan_turn_def)
  next
    case True
    then have turn: "TelScan_turn b s =
        Some (s\<lparr>ts_next := ts_next s + 1\<rparr>, visible_entry_at b (ts_next s) (ts_snapshot_lsn s))"
      by (simp add: TelScan_turn_def)
    show ?thesis
    proof (cases "visible_entry_at b (ts_next s) (ts_snapshot_lsn s)")
      case (Some x)
      with "1.prems" turn True show ?thesis by auto
    next
      case None
      with "1.prems" turn have "TelScan_next b (s\<lparr>ts_next := ts_next s + 1\<rparr>) = (s', Some e)"
        by simp
      from "1.IH" [OF turn refl None this] show ?thesis by simp
    qed
  qed
qed

declare TelScan_next.simps [simp del]

function TelScan_collect :: "TelBlock \<Rightarrow> TelScan \<Rightarrow> TelEntry list" where
  "TelScan_collect b s =
     (case TelScan_next b s of
        (s', None) \<Rightarrow> []
      | (s', Some e) \<Rightarrow> e # TelScan_collect b s')"
  by pat_completeness auto
termination
  by (relation "measure (\<lambda>(b, s). ts_snapshot s - ts_next s)")
    (auto dest!: sym [of "(_, _)"] TelScan_next_measure)

declare TelScan_collect.simps [simp del]

section \<open>Interleaved appends and one scan\<close>

text \<open>One writer and one reader of a block. The writer stores the bytes of an entry and then
  publishes the count; the reader takes turns of its scan. \<open>sys_out\<close> is what the scan has
  yielded so far.\<close>

record tel_sys =
  sys_block :: TelBlock
  sys_stored :: bool
  sys_scan :: TelScan
  sys_out :: "TelEntry list"

inductive tel_step :: "tel_sys \<Rightarrow> tel_sys \<Rightarrow> bool" where
  store: "\<not> sys_stored c \<Longrightarrow>
    tb_entry_count (sys_block c) < tb_capacity_entries (sys_block c) \<Longrightarrow>
    tel_step c (c\<lparr>sys_block := append_store (sys_block c) e, sys_stored := True\<rparr>)"
| publish: "sys_stored c \<Longrightarrow>
    tel_step c (c\<lparr>sys_block := append_publish (sys_block c), sys_stored := False\<rparr>)"
| turn: "TelScan_turn (sys_block c) (sys_scan c) = Some (s', r) \<Longrightarrow>
    tel_step c (c\<lparr>sys_scan := s', sys_out := sys_out c @ (case r of None \<Rightarrow> [] | Some e \<Rightarrow> [e])\<rparr>)"

definition tel_start :: "TelBlock \<Rightarrow> Lsn \<Rightarrow> tel_sys" where
  "tel_start b snapshot_lsn =
     \<lparr> sys_block = b, sys_stored = False, sys_scan = TelBlock_scan b snapshot_lsn, sys_out = [] \<rparr>"

section \<open>Invariant and abstraction\<close>

text \<open>The invariant of a block, and the list of entries it stands for, oldest first.\<close>

definition tel_inv :: "TelBlock \<Rightarrow> bool" where
  "tel_inv b \<longleftrightarrow> MIN_BLOCK_BYTES \<le> tb_block_size b \<and> tb_block_size b \<le> MAX_BLOCK_BYTES \<and>
     (tb_block_size b - HEADER_SIZE) mod ENTRY_SIZE = 0 \<and>
     tb_capacity_entries b = (tb_block_size b - HEADER_SIZE) div ENTRY_SIZE \<and>
     length (tb_entries_buf b) = tb_block_size b - HEADER_SIZE \<and>
     tb_entry_count b \<le> tb_capacity_entries b"

definition slot_entry :: "TelBlock \<Rightarrow> nat \<Rightarrow> TelEntry" where
  "slot_entry b i = TelEntry_from_bytes (buf_get (slot_start b i) ENTRY_SIZE (tb_entries_buf b))"

definition tel_entries :: "TelBlock \<Rightarrow> TelEntry list" where
  "tel_entries b = map (slot_entry b) [0..<tb_entry_count b]"

lemmas tel_consts = HEADER_SIZE_def ENTRY_SIZE_def TelEntry_SIZE_def MIN_BLOCK_BYTES_def
  MAX_BLOCK_BYTES_def

lemma length_tel_entries [simp]: "length (tel_entries b) = tb_entry_count b"
  by (simp add: tel_entries_def)

lemma tel_inv_buf_length: "tel_inv b \<Longrightarrow> length (tb_entries_buf b) = tb_capacity_entries b * 32"
  by (auto simp: tel_inv_def tel_consts)

lemma slot_in_bounds:
  assumes "tel_inv b" "i < tb_capacity_entries b"
  shows "slot_start b i + 32 \<le> length (tb_entries_buf b)"
  using assms tel_inv_buf_length [OF assms(1)] by (simp add: slot_start_def tel_consts)

lemma slots_disjoint:
  assumes "tel_inv b" "i < j" "j < tb_capacity_entries b"
  shows "slot_start b j + 32 \<le> slot_start b i"
  using assms tel_inv_buf_length [OF assms(1)] by (simp add: slot_start_def tel_consts)

lemma entry_at_eq: "entry_at b i = (if i < tb_entry_count b then Some (tel_entries b ! i) else None)"
  by (simp add: entry_at_def entry_bytes_def tel_entries_def slot_entry_def)

lemma visible_entry_at_eq:
  "i < tb_entry_count b \<Longrightarrow> visible_entry_at b i l =
     (if TelEntry_is_visible_at (tel_entries b ! i) l then Some (tel_entries b ! i) else None)"
  by (simp add: visible_entry_at_def entry_at_eq)

text \<open>A store touches no published slot and the slot it fills is the next one.\<close>

lemma append_store_fields [simp]:
  "tb_entry_count (append_store b e) = tb_entry_count b"
  "tb_capacity_entries (append_store b e) = tb_capacity_entries b"
  "tb_block_size (append_store b e) = tb_block_size b"
  "tb_prev_block_ptr (append_store b e) = tb_prev_block_ptr b"
  by (simp_all add: append_store_def)

lemma append_store_length:
  assumes "tel_inv b" "tb_entry_count b < tb_capacity_entries b"
  shows "length (tb_entries_buf (append_store b e)) = length (tb_entries_buf b)"
  using slot_in_bounds [OF assms] by (simp add: append_store_def)

lemma append_store_inv:
  "tel_inv b \<Longrightarrow> tb_entry_count b < tb_capacity_entries b \<Longrightarrow> tel_inv (append_store b e)"
  using append_store_length [of b e] by (simp add: tel_inv_def)

lemma slot_start_store:
  "tel_inv b \<Longrightarrow> tb_entry_count b < tb_capacity_entries b \<Longrightarrow>
     slot_start (append_store b e) i = slot_start b i"
  by (simp add: slot_start_def append_store_length)

lemma slot_entry_store:
  assumes inv: "tel_inv b" and room: "tb_entry_count b < tb_capacity_entries b"
    and i: "i \<le> tb_entry_count b"
  shows "slot_entry (append_store b e) i = (if i = tb_entry_count b then e else slot_entry b i)"
proof (cases "i = tb_entry_count b")
  case True
  then show ?thesis
    using slot_in_bounds [OF inv room]
    by (simp add: slot_entry_def slot_start_store [OF inv room])
      (simp add: append_store_def buf_get_put_same TelEntry_roundtrip tel_consts)
next
  case False
  with i have lt: "i < tb_entry_count b" by simp
  show ?thesis
    using False slot_in_bounds [OF inv room] slots_disjoint [OF inv lt room]
    by (simp add: slot_entry_def slot_start_store [OF inv room])
      (simp add: append_store_def buf_get_put_after)
qed

lemma tel_entries_store:
  "tel_inv b \<Longrightarrow> tb_entry_count b < tb_capacity_entries b \<Longrightarrow>
     tel_entries (append_store b e) = tel_entries b"
  by (simp add: tel_entries_def slot_entry_store)

lemma slot_entry_publish [simp]: "slot_entry (append_publish b) i = slot_entry b i"
  by (simp add: slot_entry_def append_publish_def slot_start_def)

lemma tel_entries_publish:
  "tel_entries (append_publish b) = tel_entries b @ [slot_entry b (tb_entry_count b)]"
proof -
  have "tb_entry_count (append_publish b) = Suc (tb_entry_count b)"
    by (simp add: append_publish_def)
  then show ?thesis
    by (simp add: tel_entries_def)
qed

lemma append_publish_inv:
  "tel_inv b \<Longrightarrow> tb_entry_count b < tb_capacity_entries b \<Longrightarrow> tel_inv (append_publish b)"
  by (simp add: tel_inv_def append_publish_def)

lemma append_ok:
  assumes inv: "tel_inv b" and room: "tb_entry_count b < tb_capacity_entries b"
  obtains b' where "TelBlock_append b e = (b', Inr (tb_entry_count b))" "tel_inv b'"
    "tel_entries b' = tel_entries b @ [e]" "tb_capacity_entries b' = tb_capacity_entries b"
    "tb_block_size b' = tb_block_size b" "tb_entry_count b' = Suc (tb_entry_count b)"
proof
  let ?b' = "append_publish (append_store b e)"
  show "TelBlock_append b e = (?b', Inr (tb_entry_count b))"
    using room by (simp add: TelBlock_append_def)
  show "tel_inv ?b'"
    using append_publish_inv append_store_inv [OF inv room] room by simp
  show "tel_entries ?b' = tel_entries b @ [e]"
    using inv room by (simp add: tel_entries_publish tel_entries_store slot_entry_store)
qed (simp_all add: append_publish_def)

lemma TelBlock_new_inv:
  assumes "TelBlock_new src l sz t = Inr b"
  shows "tel_inv b \<and> tel_entries b = [] \<and> tb_entry_count b = 0 \<and>
    tb_capacity_entries b = (sz - HEADER_SIZE) div ENTRY_SIZE \<and> tb_block_size b = sz"
  using assms by (auto simp: TelBlock_new_def tel_inv_def tel_entries_def Let_def split: if_splits)

text \<open>Growth copies every entry, in order, and neither \<open>expect\<close> can fire.\<close>

lemma next_block_size_legal:
  assumes "tel_inv b" "tb_block_size b < MAX_BLOCK_BYTES"
  shows "next_block_size (tb_block_size b) = Some (min (tb_block_size b * 2) MAX_BLOCK_BYTES)"
  using assms by (auto simp: next_block_size_def tel_inv_def tel_consts min_def)

lemma grown_size_legal:
  assumes inv: "tel_inv b" and lt: "tb_block_size b < MAX_BLOCK_BYTES"
  obtains nb where
    "TelBlock_new s l (min (tb_block_size b * 2) MAX_BLOCK_BYTES) t = Inr nb"
    "tb_capacity_entries b < tb_capacity_entries nb"
proof -
  obtain k where k: "tb_block_size b = 32 + 32 * k" "1 \<le> k" "tb_capacity_entries b = k"
  proof
    have "32 dvd tb_block_size b - 32" and "64 \<le> tb_block_size b"
      using inv by (auto simp: tel_inv_def tel_consts)
    then show "tb_block_size b = 32 + 32 * ((tb_block_size b - 32) div 32)"
      and "1 \<le> (tb_block_size b - 32) div 32"
      by auto
    show "tb_capacity_entries b = (tb_block_size b - 32) div 32"
      using inv by (simp add: tel_inv_def tel_consts)
  qed
  have "TelBlock_new s l (min (tb_block_size b * 2) MAX_BLOCK_BYTES) t
      = Inr \<lparr> tb_src_vertex_id = s, tb_label = l, tb_tenant_id = t,
              tb_block_size = min (tb_block_size b * 2) MAX_BLOCK_BYTES,
              tb_capacity_entries = min (2 * k + 1) 2047, tb_entry_count = 0,
              tb_prev_block_ptr = NO_PREV_BLOCK,
              tb_entries_buf = replicate (32 * min (2 * k + 1) 2047) 0 \<rparr>"
    using k lt by (auto simp: TelBlock_new_def tel_consts min_def Let_def)
  then show thesis
    using k lt by (intro that) (auto simp: tel_consts)
qed

lemma grown_copy_ok:
  assumes "tel_inv nb" "tb_entry_count nb + length is \<le> tb_capacity_entries nb"
    "\<And>i. i \<in> set is \<Longrightarrow> i < tb_entry_count b"
  shows "\<exists>nb'. grown_copy b is nb = Done nb' \<and> tel_inv nb' \<and>
    tel_entries nb' = tel_entries nb @ map ((!) (tel_entries b)) is \<and>
    tb_capacity_entries nb' = tb_capacity_entries nb \<and> tb_block_size nb' = tb_block_size nb"
  using assms
proof (induction "is" arbitrary: nb)
  case Nil
  then show ?case by simp
next
  case (Cons i "is")
  have i: "i < tb_entry_count b" using Cons.prems(3) by simp
  then obtain bs where bs: "entry_bytes b i = Some bs" "TelEntry_from_bytes bs = tel_entries b ! i"
    using entry_at_eq [of b i] by (auto simp: entry_at_def)
  have room: "tb_entry_count nb < tb_capacity_entries nb" using Cons.prems(2) by simp
  from append_ok [OF Cons.prems(1) room, of "tel_entries b ! i"] obtain nb1 where nb1:
    "TelBlock_append nb (tel_entries b ! i) = (nb1, Inr (tb_entry_count nb))" "tel_inv nb1"
    "tel_entries nb1 = tel_entries nb @ [tel_entries b ! i]"
    "tb_capacity_entries nb1 = tb_capacity_entries nb"
    "tb_block_size nb1 = tb_block_size nb" "tb_entry_count nb1 = Suc (tb_entry_count nb)"
    by blast
  show ?case
    using Cons.IH [OF nb1(2)] Cons.prems nb1 bs by simp
qed

lemma grown_ok:
  assumes inv: "tel_inv b" and lt: "tb_block_size b < MAX_BLOCK_BYTES"
  shows "\<exists>nb. grown b = Done (Some nb) \<and> tel_inv nb \<and> tel_entries nb = tel_entries b \<and>
    tb_block_size nb = min (tb_block_size b * 2) MAX_BLOCK_BYTES \<and>
    tb_entry_count nb < tb_capacity_entries nb"
proof -
  obtain nb where nb: "TelBlock_new (tb_src_vertex_id b) (tb_label b)
      (min (tb_block_size b * 2) MAX_BLOCK_BYTES) (tb_tenant_id b) = Inr nb"
    and cap: "tb_capacity_entries b < tb_capacity_entries nb"
    using grown_size_legal [OF inv lt] by blast
  note new = TelBlock_new_inv [OF nb]
  have le: "tb_entry_count b \<le> tb_capacity_entries b" using inv by (simp add: tel_inv_def)
  have "\<exists>nb'. grown_copy b [0..<tb_entry_count b] nb = Done nb' \<and> tel_inv nb' \<and>
    tel_entries nb' = tel_entries nb @ map ((!) (tel_entries b)) [0..<tb_entry_count b] \<and>
    tb_capacity_entries nb' = tb_capacity_entries nb \<and> tb_block_size nb' = tb_block_size nb"
    by (rule grown_copy_ok) (use new cap le in auto)
  then obtain nb' where nb': "grown_copy b [0..<tb_entry_count b] nb = Done nb'" "tel_inv nb'"
    "tel_entries nb' = tel_entries nb @ map ((!) (tel_entries b)) [0..<tb_entry_count b]"
    "tb_capacity_entries nb' = tb_capacity_entries nb" "tb_block_size nb' = tb_block_size nb"
    by blast
  have ents: "tel_entries nb' = tel_entries b"
    using nb'(3) new map_nth [of "tel_entries b"] by simp
  then have "tb_entry_count nb' = tb_entry_count b"
    using length_tel_entries by metis
  then show ?thesis
    using nb' ents new nb cap le next_block_size_legal [OF inv lt] by (simp add: grown_def)
qed

text \<open>A scan that runs alone yields the visible entries in insertion order.\<close>

lemma TelScan_collect_from:
  assumes "ts_next s \<le> ts_snapshot s" "ts_snapshot s = tb_entry_count b"
  shows "TelScan_collect b s =
    filter (\<lambda>e. TelEntry_is_visible_at e (ts_snapshot_lsn s)) (drop (ts_next s) (tel_entries b))"
  using assms
proof (induction "ts_snapshot s - ts_next s" arbitrary: s)
  case 0
  then have "TelScan_next b s = (s, None)"
    by (subst TelScan_next.simps) (simp add: TelScan_turn_def)
  with 0 show ?case
    by (subst TelScan_collect.simps) simp
next
  case (Suc n)
  let ?s = "s\<lparr>ts_next := Suc (ts_next s)\<rparr>"
  let ?e = "tel_entries b ! ts_next s"
  from Suc.hyps(2) Suc.prems have lt: "ts_next s < tb_entry_count b" by simp
  have IH: "TelScan_collect b ?s = filter (\<lambda>e. TelEntry_is_visible_at e (ts_snapshot_lsn s))
      (drop (Suc (ts_next s)) (tel_entries b))"
    using Suc.hyps(1) [of ?s] Suc.hyps(2) Suc.prems by simp
  have drop: "drop (ts_next s) (tel_entries b) = ?e # drop (Suc (ts_next s)) (tel_entries b)"
    using lt by (simp add: Cons_nth_drop_Suc)
  have "TelScan_next b s = (if TelEntry_is_visible_at ?e (ts_snapshot_lsn s)
      then (?s, Some ?e) else TelScan_next b ?s)"
    using lt Suc.prems
    by (subst TelScan_next.simps) (simp add: TelScan_turn_def visible_entry_at_eq)
  then have "TelScan_collect b s = (if TelEntry_is_visible_at ?e (ts_snapshot_lsn s)
      then ?e # TelScan_collect b ?s else TelScan_collect b ?s)"
    by (subst (1 3) TelScan_collect.simps) simp
  then show ?case
    using IH by (simp add: drop)
qed

text \<open>The interleaving invariant: relative to the entries \<open>es\<close> published when the scan was made.\<close>

definition scan_inv :: "TelEntry list \<Rightarrow> Lsn \<Rightarrow> tel_sys \<Rightarrow> bool" where
  "scan_inv es l c \<longleftrightarrow> tel_inv (sys_block c) \<and>
     (sys_stored c \<longrightarrow> tb_entry_count (sys_block c) < tb_capacity_entries (sys_block c)) \<and>
     take (length es) (tel_entries (sys_block c)) = es \<and>
     ts_snapshot (sys_scan c) = length es \<and> ts_snapshot_lsn (sys_scan c) = l \<and>
     ts_next (sys_scan c) \<le> length es \<and>
     sys_out c = filter (\<lambda>e. TelEntry_is_visible_at e l) (take (ts_next (sys_scan c)) es)"

lemma scan_inv_start: "tel_inv b \<Longrightarrow> scan_inv (tel_entries b) l (tel_start b l)"
  by (simp add: scan_inv_def tel_start_def TelBlock_scan_def)

lemma scan_inv_turn:
  assumes inv: "scan_inv es l c"
    and turn: "TelScan_turn (sys_block c) (sys_scan c) = Some (s', r)"
  shows "scan_inv es l
    (c\<lparr>sys_scan := s', sys_out := sys_out c @ (case r of None \<Rightarrow> [] | Some e \<Rightarrow> [e])\<rparr>)"
proof -
  let ?n = "ts_next (sys_scan c)"
  have lt: "?n < length es" and s': "s' = (sys_scan c)\<lparr>ts_next := Suc ?n\<rparr>"
    and r: "r = visible_entry_at (sys_block c) ?n l"
    using turn inv by (auto simp: TelScan_turn_def scan_inv_def split: if_splits)
  have pre: "take (length es) (tel_entries (sys_block c)) = es"
    using inv by (simp add: scan_inv_def)
  then have len: "length es \<le> tb_entry_count (sys_block c)"
    by (metis length_take length_tel_entries min.cobounded1)
  have "tel_entries (sys_block c) ! ?n = es ! ?n"
    using lt pre by (metis nth_take)
  with lt len r have "r = (if TelEntry_is_visible_at (es ! ?n) l then Some (es ! ?n) else None)"
    by (simp add: visible_entry_at_eq)
  then show ?thesis
    using inv lt s' by (simp add: scan_inv_def take_Suc_conv_app_nth)
qed

lemma scan_inv_step: "tel_step c c' \<Longrightarrow> scan_inv es l c \<Longrightarrow> scan_inv es l c'"
proof (induction rule: tel_step.induct)
  case (store c e)
  then show ?case
    by (simp add: scan_inv_def append_store_inv tel_entries_store)
next
  case (publish c)
  have "length es \<le> tb_entry_count (sys_block c)"
    using publish.prems
    by (metis length_take length_tel_entries min.cobounded1 scan_inv_def)
  then show ?case
    using publish by (simp add: scan_inv_def append_publish_inv tel_entries_publish)
next
  case (turn c s' r)
  then show ?case by (blast intro: scan_inv_turn)
qed

lemma scan_inv_reach: "tel_step\<^sup>*\<^sup>* c c' \<Longrightarrow> scan_inv es l c \<Longrightarrow> scan_inv es l c'"
  by (induction rule: rtranclp_induct) (auto intro: scan_inv_step)

section \<open>Properties\<close>

text \<open>C15: a scan is a frozen snapshot. However the stores and publications of a writer interleave
  with the turns of a scan, the scan yields exactly the entries of the block at the time the scan was
  made that are visible at its snapshot LSN, oldest first: what it has yielded so far is the
  filtered prefix up to its cursor, and when its loop ends it has yielded all of them.\<close>

theorem tel_scan_frozen:
  assumes "tel_inv b" "tel_step\<^sup>*\<^sup>* (tel_start b l) c"
  shows "sys_out c = filter (\<lambda>e. TelEntry_is_visible_at e l)
      (take (ts_next (sys_scan c)) (tel_entries b)) \<and>
    (TelScan_turn (sys_block c) (sys_scan c) = None \<longrightarrow>
      sys_out c = filter (\<lambda>e. TelEntry_is_visible_at e l) (tel_entries b))"
  using scan_inv_reach [OF assms(2) scan_inv_start [OF assms(1)]]
  by (auto simp: scan_inv_def TelScan_turn_def split: if_splits)

text \<open>C24: \<open>append\<close> refines list append. On a block with room it writes the entry at the end of the
  block's entry list and returns its index, every earlier entry unchanged; on a full block it
  reports \<open>Full\<close> and changes nothing. The invariant is kept in both cases.\<close>

theorem tel_append_refines:
  assumes "tel_inv b"
  shows "case TelBlock_append b e of
      (b', Inr i) \<Rightarrow> i = tb_entry_count b \<and> tel_inv b' \<and> tel_entries b' = tel_entries b @ [e] \<and>
         tb_capacity_entries b' = tb_capacity_entries b
    | (b', Inl err) \<Rightarrow> b' = b \<and> err = Full (tb_entry_count b) (tb_capacity_entries b) \<and>
         tb_entry_count b = tb_capacity_entries b"
proof (cases "tb_entry_count b < tb_capacity_entries b")
  case True
  from append_ok [OF assms this, of e] obtain b' where
    "TelBlock_append b e = (b', Inr (tb_entry_count b))" "tel_inv b'"
    "tel_entries b' = tel_entries b @ [e]" "tb_capacity_entries b' = tb_capacity_entries b"
    by blast
  then show ?thesis by simp
next
  case False
  with assms have "tb_entry_count b = tb_capacity_entries b" by (simp add: tel_inv_def)
  then show ?thesis by (simp add: TelBlock_append_def Let_def)
qed

text \<open>C25: \<open>grown\<close> never panics on a legal block: below the cap it returns a block of twice the
  size (at most the cap) with the same entries in the same order and room for at least one more; at the
  cap it returns \<open>None\<close>.\<close>

theorem tel_grown_preserves:
  assumes "tel_inv b"
  shows "if tb_block_size b < MAX_BLOCK_BYTES
    then \<exists>nb. grown b = Done (Some nb) \<and> tel_inv nb \<and> tel_entries nb = tel_entries b \<and>
      tb_block_size nb = min (tb_block_size b * 2) MAX_BLOCK_BYTES \<and>
      tb_entry_count nb < tb_capacity_entries nb
    else grown b = Done None"
  using grown_ok [OF assms] by (simp add: grown_def next_block_size_def)

text \<open>A scan that is collected yields the visible entries of the block in insertion order.\<close>

theorem tel_scan_collect:
  "TelScan_collect b (TelBlock_scan b l) =
     filter (\<lambda>e. TelEntry_is_visible_at e l) (tel_entries b)"
  using TelScan_collect_from [of "TelBlock_scan b l" b] by (simp add: TelBlock_scan_def)

text \<open>Calls of \<open>set_prev_block_ptr\<close> on one block, in order, with their results.\<close>

fun link_calls :: "TelBlock \<Rightarrow> PageId list \<Rightarrow> TelBlock \<times> (TelError + unit) list" where
  "link_calls b [] = (b, [])"
| "link_calls b (p # ps) =
     (case set_prev_block_ptr b p of (b', res) \<Rightarrow>
        case link_calls b' ps of (b'', rs) \<Rightarrow> (b'', res # rs))"

lemma link_calls_linked:
  "tb_prev_block_ptr b \<noteq> NO_PREV_BLOCK \<Longrightarrow>
     link_calls b ps = (b, map (\<lambda>_. Inl (AlreadyLinked (tb_prev_block_ptr b))) ps)"
  by (induction ps) (simp_all add: set_prev_block_ptr_def)

lemma link_calls_sentinels:
  "tb_prev_block_ptr b = NO_PREV_BLOCK \<Longrightarrow> \<forall>p \<in> set ps. p = NO_PREV_BLOCK \<Longrightarrow>
     link_calls b (ps @ qs) =
       (case link_calls b qs of (b', rs) \<Rightarrow> (b', map (\<lambda>_. Inr ()) ps @ rs))"
proof (induction ps)
  case Nil
  then show ?case by (simp split: prod.split)
next
  case (Cons p ps)
  have "set_prev_block_ptr b p = (b, Inr ())" using Cons.prems by (simp add: set_prev_block_ptr_def)
  with Cons show ?case by (simp split: prod.split)
qed

text \<open>C33: the link of a block is written once. Of any sequence of link calls on an unlinked block the first
  call with a page id other than the sentinel sets the pointer; every later call, whatever its
  page id, is refused with that page id and changes nothing. The exception is the page id
  that equals the sentinel: calls with it before the first proper one succeed and leave the block unlinked.\<close>

theorem tel_link_write_once:
  assumes "tb_prev_block_ptr b = NO_PREV_BLOCK" "\<forall>s \<in> set ss. s = NO_PREV_BLOCK" "p \<noteq> NO_PREV_BLOCK"
  shows "link_calls b ss = (b, map (\<lambda>_. Inr ()) ss) \<and>
    link_calls b (ss @ p # qs) =
      (b\<lparr>tb_prev_block_ptr := p\<rparr>,
       map (\<lambda>_. Inr ()) ss @ Inr () # map (\<lambda>_. Inl (AlreadyLinked p)) qs)"
proof -
  have "link_calls (b\<lparr>tb_prev_block_ptr := p\<rparr>) qs =
      (b\<lparr>tb_prev_block_ptr := p\<rparr>, map (\<lambda>_. Inl (AlreadyLinked p)) qs)"
    using link_calls_linked [of "b\<lparr>tb_prev_block_ptr := p\<rparr>" qs] assms(3) by simp
  moreover have "set_prev_block_ptr b p = (b\<lparr>tb_prev_block_ptr := p\<rparr>, Inr ())"
    using assms(1) by (simp add: set_prev_block_ptr_def)
  ultimately show ?thesis
    using link_calls_sentinels [OF assms(1,2), of "[]"] link_calls_sentinels [OF assms(1,2), of "p # qs"]
    by simp
qed

section \<open>Witnesses\<close>

text \<open>A block of 128 bytes (three slots) holding one edge.\<close>

definition demo_block :: TelBlock where
  "demo_block = fst (TelBlock_append (projr (TelBlock_new 7 3 128 1)) (TelEntry_new 9 4 5))"

lemma demo_new:
  obtains b where "TelBlock_new 7 3 128 1 = Inr b" "tel_inv b" "tel_entries b = []"
    "tb_entry_count b = 0" "tb_capacity_entries b = 3" "tb_block_size b = 128"
proof -
  have "\<exists>b. TelBlock_new 7 3 128 1 = Inr b"
    by (simp add: TelBlock_new_def tel_consts Let_def)
  then obtain b where b: "TelBlock_new 7 3 128 1 = Inr b" by blast
  from TelBlock_new_inv [OF b] b that show thesis by (simp add: tel_consts)
qed

lemma demo_block_props: "tel_inv demo_block" "tel_entries demo_block = [TelEntry_new 9 4 5]"
  "tb_entry_count demo_block = 1" "tb_capacity_entries demo_block = 3"
  "tb_block_size demo_block = 128"
proof -
  obtain b where b: "TelBlock_new 7 3 128 1 = Inr b" "tel_inv b" "tel_entries b = []"
    "tb_entry_count b = 0" "tb_capacity_entries b = 3" "tb_block_size b = 128"
    by (rule demo_new)
  have room: "tb_entry_count b < tb_capacity_entries b" using b by simp
  from append_ok [OF b(2) room, of "TelEntry_new 9 4 5"] obtain b' where
    "TelBlock_append b (TelEntry_new 9 4 5) = (b', Inr (tb_entry_count b))" "tel_inv b'"
    "tel_entries b' = tel_entries b @ [TelEntry_new 9 4 5]"
    "tb_capacity_entries b' = tb_capacity_entries b"
    "tb_block_size b' = tb_block_size b" "tb_entry_count b' = Suc (tb_entry_count b)"
    by blast
  with b show "tel_inv demo_block" "tel_entries demo_block = [TelEntry_new 9 4 5]"
    "tb_entry_count demo_block = 1" "tb_capacity_entries demo_block = 3"
    "tb_block_size demo_block = 128"
    by (simp_all add: demo_block_def)
qed

lemma demo_run:
  "\<exists>c. tel_step\<^sup>*\<^sup>* (tel_start demo_block 8) c \<and> tb_entry_count (sys_block c) = 2 \<and>
     ts_next (sys_scan c) = 1 \<and> ts_snapshot (sys_scan c) = 1"
proof -
  let ?c0 = "tel_start demo_block 8"
  let ?c1 = "?c0\<lparr>sys_block := append_store demo_block (TelEntry_new 1 1 1), sys_stored := True\<rparr>"
  let ?c2 = "?c1\<lparr>sys_block := append_publish (sys_block ?c1), sys_stored := False\<rparr>"
  have 1: "tel_step ?c0 ?c1"
    using tel_step.store [of ?c0 "TelEntry_new 1 1 1"]
    by (simp add: tel_start_def demo_block_props)
  have 2: "tel_step ?c1 ?c2"
    by (rule tel_step.publish) simp
  have "\<exists>s' r. TelScan_turn (sys_block ?c2) (sys_scan ?c2) = Some (s', r) \<and> ts_next s' = 1 \<and>
      ts_snapshot s' = 1"
    by (simp add: tel_start_def TelBlock_scan_def TelScan_turn_def demo_block_props)
  then obtain s' r where t: "TelScan_turn (sys_block ?c2) (sys_scan ?c2) = Some (s', r)"
    "ts_next s' = 1" "ts_snapshot s' = 1"
    by blast
  let ?c3 = "?c2\<lparr>sys_scan := s', sys_out := sys_out ?c2 @ (case r of None \<Rightarrow> [] | Some e \<Rightarrow> [e])\<rparr>"
  have 3: "tel_step ?c2 ?c3"
    by (rule tel_step.turn [OF t(1)])
  have "tel_step\<^sup>*\<^sup>* ?c0 ?c3"
    using 1 2 3 by (meson converse_rtranclp_into_rtranclp rtranclp.rtrancl_refl)
  moreover have "tb_entry_count (sys_block ?c3) = 2"
    by (simp add: append_publish_def demo_block_props)
  ultimately show ?thesis
    using t by (intro exI [of _ ?c3]) simp
qed

theorem tel_scan_frozen_witness:
  "\<exists>c. tel_step\<^sup>*\<^sup>* (tel_start demo_block 8) c \<and> tb_entry_count (sys_block c) = 2 \<and>
     sys_out c = [TelEntry_new 9 4 5]"
proof -
  obtain c where c: "tel_step\<^sup>*\<^sup>* (tel_start demo_block 8) c" "tb_entry_count (sys_block c) = 2"
    "ts_next (sys_scan c) = 1" "ts_snapshot (sys_scan c) = 1"
    using demo_run by blast
  have "sys_out c = filter (\<lambda>e. TelEntry_is_visible_at e 8) (tel_entries demo_block)"
    using tel_scan_frozen [OF demo_block_props(1) c(1)] c
    by (simp add: TelScan_turn_def demo_block_props)
  moreover have "TelEntry_is_visible_at (TelEntry_new 9 4 5) 8"
    by (simp add: TelEntry_is_visible_at_def TelEntry_new_def Lsn_MAX_def)
  ultimately show ?thesis
    using c by (auto simp: demo_block_props)
qed

theorem tel_append_refines_witness:
  "tel_inv demo_block \<and>
   tel_entries (fst (TelBlock_append demo_block (TelEntry_new 2 6 7))) =
     [TelEntry_new 9 4 5, TelEntry_new 2 6 7]"
  using tel_append_refines [OF demo_block_props(1), of "TelEntry_new 2 6 7"]
  by (simp add: demo_block_props TelBlock_append_def Let_def)

theorem tel_grown_preserves_witness:
  "\<exists>nb. grown demo_block = Done (Some nb) \<and> tel_entries nb = [TelEntry_new 9 4 5] \<and>
     tb_block_size nb = 256"
proof -
  have "tb_block_size demo_block < MAX_BLOCK_BYTES"
    by (simp add: demo_block_props tel_consts)
  with tel_grown_preserves [OF demo_block_props(1)]
  obtain nb where "grown demo_block = Done (Some nb)" "tel_entries nb = tel_entries demo_block"
    "tb_block_size nb = min (tb_block_size demo_block * 2) MAX_BLOCK_BYTES"
    by auto
  then show ?thesis
    by (auto simp: demo_block_props tel_consts)
qed

theorem tel_link_write_once_witness:
  "link_calls demo_block [NO_PREV_BLOCK, 4, 5, NO_PREV_BLOCK] =
     (demo_block\<lparr>tb_prev_block_ptr := 4\<rparr>,
      [Inr (), Inr (), Inl (AlreadyLinked 4), Inl (AlreadyLinked 4)])"
proof -
  have "tb_prev_block_ptr demo_block = NO_PREV_BLOCK"
    by (simp add: demo_block_def TelBlock_new_def TelBlock_append_def append_publish_def
        tel_consts Let_def)
  moreover have "(4 :: PageId) \<noteq> NO_PREV_BLOCK" by (simp add: NO_PREV_BLOCK_def)
  ultimately show ?thesis
    using tel_link_write_once [of demo_block "[NO_PREV_BLOCK]" 4 "[5, NO_PREV_BLOCK]"] by simp
qed

end
