(* ===== verification/Wal_Record.thy ===== *)
theory Wal_Record
  imports Record_Codec
begin

text \<open>
  The write-ahead log record of \<open>arcgraph-storage/src/wal/record.rs\<close>: record types, the 44 byte
  framing header, \<open>encode\<close>, \<open>encode_to_vec\<close> and \<open>decode\<close>. The checksum is computed by the
  \<open>crc32c\<close> crate, which is a parameter \<open>crc\<close> of the definitions; no property below assumes anything
  of it. The signed timestamp is kept as its 64 bit pattern.
\<close>

datatype WalRecordType =
  Begin | Commit | Abort | PutNode | PutRel | DeleteNode | DeleteRel | Checkpoint
  | InternString | PutBlob | IndexPage | CommitBundle

definition WalRecordType_from_byte :: "u8 \<Rightarrow> ArcGraphError + WalRecordType" where
  "WalRecordType_from_byte b =
     (if b = 1 then Inr Begin
      else if b = 2 then Inr Commit
      else if b = 3 then Inr Abort
      else if b = 4 then Inr PutNode
      else if b = 5 then Inr PutRel
      else if b = 6 then Inr DeleteNode
      else if b = 7 then Inr DeleteRel
      else if b = 8 then Inr Checkpoint
      else if b = 9 then Inr InternString
      else if b = 10 then Inr PutBlob
      else if b = 11 then Inr IndexPage
      else if b = 12 then Inr CommitBundle
      else if 13 \<le> b \<and> b \<le> 17 then Inl (WalRecordTypeReserved b)
      else Inl (WalCorruption Lsn_ZERO ''unknown wal record type byte''))"

fun WalRecordType_as_byte :: "WalRecordType \<Rightarrow> u8" where
  "WalRecordType_as_byte Begin = 1"
| "WalRecordType_as_byte Commit = 2"
| "WalRecordType_as_byte Abort = 3"
| "WalRecordType_as_byte PutNode = 4"
| "WalRecordType_as_byte PutRel = 5"
| "WalRecordType_as_byte DeleteNode = 6"
| "WalRecordType_as_byte DeleteRel = 7"
| "WalRecordType_as_byte Checkpoint = 8"
| "WalRecordType_as_byte InternString = 9"
| "WalRecordType_as_byte PutBlob = 10"
| "WalRecordType_as_byte IndexPage = 11"
| "WalRecordType_as_byte CommitBundle = 12"

record WalRecord =
  wr_record_type :: WalRecordType
  wr_txn_id :: u64
  wr_lsn :: Lsn
  wr_timestamp_ms :: u64
  wr_tenant_id :: TenantId
  wr_payload :: bytes

definition WAL_HEADER_SIZE :: nat where "WAL_HEADER_SIZE = 44"
definition MAX_RECORD_LEN :: nat where "MAX_RECORD_LEN = 2 ^ 32 - 1"
definition MAX_PAYLOAD_LEN :: nat where "MAX_PAYLOAD_LEN = MAX_RECORD_LEN - WAL_HEADER_SIZE"

definition encoded_len :: "WalRecord \<Rightarrow> nat" where
  "encoded_len r = WAL_HEADER_SIZE + length (wr_payload r)"

text \<open>The record bytes with the checksum field still zero, and \<open>encode\<close>, which appends to
  \<open>out\<close> (unchanged on error).\<close>

definition WalRecord_body :: "WalRecord \<Rightarrow> bytes" where
  "WalRecord_body r =
     (let total_len = encoded_len r;
          buf = replicate total_len 0;
          buf = buf_put 4 (le_bytes 4 (word_of_nat total_len :: u32)) buf;
          buf = buf[8 := WalRecordType_as_byte (wr_record_type r)];
          buf = buf_put 12 (le_bytes 8 (wr_txn_id r)) buf;
          buf = buf_put 20 (le_bytes 8 (wr_lsn r)) buf;
          buf = buf_put 28 (le_bytes 8 (wr_timestamp_ms r)) buf;
          buf = buf_put 36 (le_bytes 8 (wr_tenant_id r)) buf;
          buf = buf_put 44 (wr_payload r) buf
      in buf)"

definition WalRecord_encode ::
  "(bytes \<Rightarrow> u32) \<Rightarrow> WalRecord \<Rightarrow> bytes \<Rightarrow> bytes \<times> (ArcGraphError + nat)" where
  "WalRecord_encode crc r out =
     (if length (wr_payload r) > MAX_PAYLOAD_LEN
      then (out, Inl (InvalidRecordLength (length (wr_payload r)) MAX_PAYLOAD_LEN))
      else
        let total_len = encoded_len r;
            buf = WalRecord_body r;
            buf = buf_put 0 (le_bytes 4 (crc (buf_get 4 (total_len - 4) buf))) buf
        in (out @ buf, Inr total_len))"

definition encode_to_vec :: "(bytes \<Rightarrow> u32) \<Rightarrow> WalRecord \<Rightarrow> ArcGraphError + bytes" where
  "encode_to_vec crc r =
     (case WalRecord_encode crc r [] of
        (out, Inl e) \<Rightarrow> Inl e
      | (out, Inr _) \<Rightarrow> Inr out)"

definition WalRecord_decode ::
  "(bytes \<Rightarrow> u32) \<Rightarrow> bytes \<Rightarrow> ArcGraphError + (WalRecord \<times> nat)" where
  "WalRecord_decode crc bs =
     (if length bs < WAL_HEADER_SIZE then Inl (InvalidRecordLength (length bs) WAL_HEADER_SIZE)
      else
        let len = unat (from_le (buf_get 4 4 bs) :: u32) in
        if len < WAL_HEADER_SIZE then Inl (WalCorruption Lsn_ZERO ''record length < header size'')
        else if length bs < len then Inl (InvalidRecordLength (length bs) len)
        else
          let crc_stored = from_le (buf_get 0 4 bs);
              crc_computed = crc (buf_get 4 (len - 4) bs) in
          if crc_stored \<noteq> crc_computed then Inl (WalCorruption Lsn_ZERO ''crc mismatch'')
          else if bs ! 9 \<noteq> 0 \<or> bs ! 10 \<noteq> 0 \<or> bs ! 11 \<noteq> 0
          then Inl (WalCorruption Lsn_ZERO ''non-zero reserved bytes'')
          else
            bind_res (WalRecordType_from_byte (bs ! 8)) (\<lambda>ty.
              Inr (\<lparr> wr_record_type = ty,
                     wr_txn_id = from_le (buf_get 12 8 bs),
                     wr_lsn = from_le (buf_get 20 8 bs),
                     wr_timestamp_ms = from_le (buf_get 28 8 bs),
                     wr_tenant_id = from_le (buf_get 36 8 bs),
                     wr_payload = buf_get WAL_HEADER_SIZE (len - WAL_HEADER_SIZE) bs \<rparr>, len)))"

section \<open>Encoding\<close>

lemma WalRecordType_byte_roundtrip: "WalRecordType_from_byte (WalRecordType_as_byte t) = Inr t"
  by (cases t) (simp_all add: WalRecordType_from_byte_def)

lemma WalRecordType_from_byte_Inr:
  "WalRecordType_from_byte b = Inr t \<longleftrightarrow> b = WalRecordType_as_byte t"
  by (auto simp: WalRecordType_byte_roundtrip)
    (auto simp: WalRecordType_from_byte_def split: if_splits)

lemma encoded_len_ge: "44 \<le> encoded_len r"
  by (simp add: encoded_len_def WAL_HEADER_SIZE_def)

lemma length_WalRecord_body [simp]: "length (WalRecord_body r) = encoded_len r"
  by (simp add: WalRecord_body_def encoded_len_def WAL_HEADER_SIZE_def Let_def)

text \<open>The fields of an encoded record, as the decoder reads them.\<close>

definition record_bytes :: "(bytes \<Rightarrow> u32) \<Rightarrow> WalRecord \<Rightarrow> bytes" where
  "record_bytes crc r =
     buf_put 0 (le_bytes 4 (crc (buf_get 4 (encoded_len r - 4) (WalRecord_body r))))
       (WalRecord_body r)"

lemma encode_to_vec_eq:
  "encode_to_vec crc r =
     (if length (wr_payload r) > MAX_PAYLOAD_LEN
      then Inl (InvalidRecordLength (length (wr_payload r)) MAX_PAYLOAD_LEN)
      else Inr (record_bytes crc r))"
  by (simp add: encode_to_vec_def WalRecord_encode_def record_bytes_def Let_def)

lemma length_record_bytes [simp]: "length (record_bytes crc r) = encoded_len r"
  using encoded_len_ge [of r] by (simp add: record_bytes_def)

lemma record_bytes_nonempty [simp]: "record_bytes crc r \<noteq> []"
  using length_record_bytes [of crc r] encoded_len_ge [of r] by (auto simp del: length_record_bytes)

lemma record_bytes_tail:
  "4 \<le> off \<Longrightarrow> buf_get off n (record_bytes crc r) = buf_get off n (WalRecord_body r)"
  using encoded_len_ge [of r] by (simp add: record_bytes_def buf_simps)

lemma record_bytes_nth:
  "4 \<le> i \<Longrightarrow> i < encoded_len r \<Longrightarrow> record_bytes crc r ! i = WalRecord_body r ! i"
  using encoded_len_ge [of r] by (simp add: record_bytes_def buf_simps)

lemma record_bytes_crc:
  "buf_get 0 4 (record_bytes crc r) =
     le_bytes 4 (crc (buf_get 4 (encoded_len r - 4) (record_bytes crc r)))"
  using encoded_len_ge [of r] by (simp add: record_bytes_tail) (simp add: record_bytes_def buf_simps)

lemma body_fields:
  "buf_get 4 4 (WalRecord_body r) = le_bytes 4 (word_of_nat (encoded_len r) :: u32)"
  "WalRecord_body r ! 8 = WalRecordType_as_byte (wr_record_type r)"
  "WalRecord_body r ! 9 = 0" "WalRecord_body r ! 10 = 0" "WalRecord_body r ! 11 = 0"
  "buf_get 12 8 (WalRecord_body r) = le_bytes 8 (wr_txn_id r)"
  "buf_get 20 8 (WalRecord_body r) = le_bytes 8 (wr_lsn r)"
  "buf_get 28 8 (WalRecord_body r) = le_bytes 8 (wr_timestamp_ms r)"
  "buf_get 36 8 (WalRecord_body r) = le_bytes 8 (wr_tenant_id r)"
  "buf_get 44 (encoded_len r - 44) (WalRecord_body r) = wr_payload r"
  by (simp_all add: WalRecord_body_def encoded_len_def WAL_HEADER_SIZE_def Let_def buf_simps)

lemma unat_encoded_len:
  "length (wr_payload r) \<le> MAX_PAYLOAD_LEN \<Longrightarrow>
     unat (word_of_nat (encoded_len r) :: u32) = encoded_len r"
proof -
  assume "length (wr_payload r) \<le> MAX_PAYLOAD_LEN"
  then have "encoded_len r < 2 ^ 32"
    by (simp add: encoded_len_def MAX_PAYLOAD_LEN_def MAX_RECORD_LEN_def WAL_HEADER_SIZE_def)
  then show ?thesis by (simp add: unat_of_nat)
qed

lemma decode_record_bytes:
  assumes "length (wr_payload r) \<le> MAX_PAYLOAD_LEN"
  shows "WalRecord_decode crc (record_bytes crc r @ rest) = Inr (r, encoded_len r)"
  using encoded_len_ge [of r]
  by (simp add: WalRecord_decode_def Let_def WAL_HEADER_SIZE_def buf_get_append1 nth_append
      record_bytes_crc record_bytes_tail record_bytes_nth body_fields unat_encoded_len [OF assms]
      WalRecordType_byte_roundtrip)

text \<open>Conversely, what the decoder accepts is the encoding of the record it returns.\<close>

lemma decode_Inr_fields:
  assumes "WalRecord_decode crc bs = Inr (r, n)"
  shows "44 \<le> n" "n \<le> length bs" "n = unat (from_le (buf_get 4 4 bs) :: u32)"
    "from_le (buf_get 0 4 bs) = crc (buf_get 4 (n - 4) bs)"
    "bs ! 8 = WalRecordType_as_byte (wr_record_type r)"
    "bs ! 9 = 0" "bs ! 10 = 0" "bs ! 11 = 0"
    "wr_txn_id r = from_le (buf_get 12 8 bs)" "wr_lsn r = from_le (buf_get 20 8 bs)"
    "wr_timestamp_ms r = from_le (buf_get 28 8 bs)"
    "wr_tenant_id r = from_le (buf_get 36 8 bs)"
    "wr_payload r = buf_get 44 (n - 44) bs"
  using assms
  by (auto simp: WalRecord_decode_def Let_def WAL_HEADER_SIZE_def bind_res_Inr_iff
      WalRecordType_from_byte_Inr not_less split: if_splits)

lemma decode_len:
  assumes "WalRecord_decode crc bs = Inr (r, n)"
  shows "encoded_len r = n" "length (wr_payload r) \<le> MAX_PAYLOAD_LEN"
proof -
  note f = decode_Inr_fields [OF assms]
  have "length (wr_payload r) = n - 44" using f(1,2,13) by simp
  moreover have "n < 2 ^ 32"
    using f(3) unsigned_less [of "from_le (buf_get 4 4 bs) :: u32"] by simp
  ultimately show "encoded_len r = n" "length (wr_payload r) \<le> MAX_PAYLOAD_LEN"
    using f(1)
    by (simp_all add: encoded_len_def WAL_HEADER_SIZE_def MAX_PAYLOAD_LEN_def MAX_RECORD_LEN_def)
qed

lemma decode_body:
  assumes dec: "WalRecord_decode crc bs = Inr (r, n)"
  shows "same_fields 4 [4, 1, 1, 1, 1, 8, 8, 8, 8, n - 44] (WalRecord_body r) bs"
proof -
  note f = decode_Inr_fields [OF dec]
  have n: "encoded_len r = n" by (rule decode_len [OF dec])
  have "word_of_nat n = (from_le (buf_get 4 4 bs) :: u32)"
    using f(3) by simp
  then have "le_bytes 4 (word_of_nat n :: u32) = buf_get 4 4 bs"
    using f(1,2) by (simp add: le_bytes_from_le_u32)
  then show ?thesis
    using f(1,2) body_fields [of r]
    by (simp add: n f(5-13) buf_get_1 le_bytes_from_le_u64 del: One_nat_def)
qed

lemma decode_Inr_bytes:
  assumes dec: "WalRecord_decode crc bs = Inr (r, n)"
  shows "take n bs = record_bytes crc r"
proof (rule buf_eq_by_fields [symmetric])
  note f = decode_Inr_fields [OF dec]
  have n: "encoded_len r = n" by (rule decode_len [OF dec])
  have sum: "sum_list [4, 1, 1, 1, 1, 8, 8, 8, 8, n - 44] = n - 4" using f(1) by simp
  have body: "buf_get 4 (n - 4) (WalRecord_body r) = buf_get 4 (n - 4) bs"
    using same_fields_get [OF decode_body [OF dec]] unfolding sum .
  have "buf_get 0 4 (record_bytes crc r) = buf_get 0 4 bs"
    using f(1,2,4) body by (simp add: record_bytes_crc record_bytes_tail n flip: f(4))
      (simp add: le_bytes_from_le_u32)
  then show "same_fields 0 [4, n - 4] (record_bytes crc r) (take n bs)"
    using f(1,2) body by (simp add: buf_get_take record_bytes_tail)
  show "length (record_bytes crc r) = sum_list [4, n - 4]" using n f(1) by simp
  show "length (take n bs) = sum_list [4, n - 4]" using f(1,2) by simp
qed

lemma decode_prefix:
  assumes le: "length (wr_payload r) \<le> MAX_PAYLOAD_LEN" and k: "k < encoded_len r"
  shows "\<exists>got expected.
    WalRecord_decode crc (take k (record_bytes crc r)) = Inl (InvalidRecordLength got expected)"
proof (cases "k < 44")
  case True
  then have "length (take k (record_bytes crc r)) < 44" by simp
  then show ?thesis unfolding WalRecord_decode_def WAL_HEADER_SIZE_def by auto
next
  case False
  then have "buf_get 4 4 (take k (record_bytes crc r)) =
      le_bytes 4 (word_of_nat (encoded_len r) :: u32)"
    by (simp add: buf_get_take record_bytes_tail body_fields)
  then show ?thesis
    using False k encoded_len_ge [of r]
    by (simp add: WalRecord_decode_def WAL_HEADER_SIZE_def Let_def unat_encoded_len [OF le])
qed

section \<open>Properties\<close>

text \<open>C12: the WAL decoder accepts exactly the encodings. \<open>decode\<close> returns record \<open>r\<close> having consumed
  \<open>n\<close> bytes if and only if the input starts with the bytes that \<open>encode_to_vec\<close> produces for
  \<open>r\<close> and \<open>n\<close> is their number, whatever follows. In particular decoding inverts encoding, two
  records never share an encoding and no encoding is a proper prefix of another. This holds for
  every checksum function.\<close>

theorem wal_decode_iff_encoding:
  "WalRecord_decode crc bs = Inr (r, n) \<longleftrightarrow>
     (\<exists>e rest. encode_to_vec crc r = Inr e \<and> bs = e @ rest \<and> n = length e)"
proof
  assume dec: "WalRecord_decode crc bs = Inr (r, n)"
  have "encode_to_vec crc r = Inr (take n bs)"
    using decode_Inr_bytes [OF dec] decode_len [OF dec] by (simp add: encode_to_vec_eq)
  moreover have "length (take n bs) = n" using decode_Inr_fields(2) [OF dec] by simp
  ultimately show "\<exists>e rest. encode_to_vec crc r = Inr e \<and> bs = e @ rest \<and> n = length e"
    by (intro exI [of _ "take n bs"] exI [of _ "drop n bs"]) simp
next
  assume "\<exists>e rest. encode_to_vec crc r = Inr e \<and> bs = e @ rest \<and> n = length e"
  then show "WalRecord_decode crc bs = Inr (r, n)"
    by (auto simp: encode_to_vec_eq decode_record_bytes split: if_splits)
qed

text \<open>C23: a record cut short is reported as a length error and never as a record or as corruption:
  every proper prefix of an encoding decodes to \<open>InvalidRecordLength\<close>. This is what lets recovery
  tell a torn tail from a damaged record.\<close>

theorem wal_decode_torn_prefix:
  assumes "encode_to_vec crc r = Inr e" "k < length e"
  shows "\<exists>got expected. WalRecord_decode crc (take k e) = Inl (InvalidRecordLength got expected)"
  using assms decode_prefix by (auto simp: encode_to_vec_eq split: if_splits)

theorem wal_decode_torn_prefix_witness:
  "\<exists>e. encode_to_vec (\<lambda>_. 0) \<lparr> wr_record_type = Commit, wr_txn_id = 3, wr_lsn = 7,
        wr_timestamp_ms = 0, wr_tenant_id = 1, wr_payload = [1, 2] \<rparr> = Inr e \<and> length e = 46 \<and>
     (\<exists>got expected. WalRecord_decode (\<lambda>_. 0) (take 45 e) = Inl (InvalidRecordLength got expected))"
proof -
  let ?r = "\<lparr> wr_record_type = Commit, wr_txn_id = 3, wr_lsn = 7,
        wr_timestamp_ms = 0, wr_tenant_id = 1, wr_payload = [1, 2] \<rparr>"
  have e: "encode_to_vec (\<lambda>_. 0) ?r = Inr (record_bytes (\<lambda>_. 0) ?r)"
    by (simp add: encode_to_vec_eq MAX_PAYLOAD_LEN_def MAX_RECORD_LEN_def WAL_HEADER_SIZE_def)
  moreover have l: "length (record_bytes (\<lambda>_. 0) ?r) = 46"
    by (simp add: encoded_len_def WAL_HEADER_SIZE_def)
  ultimately show ?thesis
    using wal_decode_torn_prefix [OF e, of 45] by auto
qed

end
