(* ===== verification/Wal_Segment.thy ===== *)
theory Wal_Segment
  imports Wal_Record
begin

text \<open>
  WAL segment files, \<open>arcgraph-storage/src/wal/segment.rs\<close>: the 8 byte segment header, segment file
  names, and the writer that appends batches and rotates. A WAL directory is the list of its
  segments in ascending order with their contents, which is what \<open>list_segments\<close> and the reads of
  the source see. A write at an offset and \<open>set_len\<close> are the file operations; failures of the
  operating system are not modelled, but \<open>create_new\<close> on an existing name and a short
  \<open>read_exact_at\<close> are errors as in the source. Segment numbers and byte counts are natural numbers
  (the source keeps them in \<open>u64\<close>).
\<close>

section \<open>Segment header\<close>

definition WAL_SEGMENT_MAGIC :: bytes where "WAL_SEGMENT_MAGIC = [0x41, 0x47, 0x57, 0x4C]"
definition CURRENT_WAL_FORMAT_VERSION :: u16 where "CURRENT_WAL_FORMAT_VERSION = 8"
definition SUPPORTED_WAL_FORMAT_VERSIONS :: "u16 list" where
  "SUPPORTED_WAL_FORMAT_VERSIONS = [1, 2, 3, 4, 5, 6, 7, 8, 9, 10]"

definition SegmentHeader_SIZE :: nat where "SegmentHeader_SIZE = 8"

definition SegmentHeader_encode :: "u16 \<Rightarrow> bytes" where
  "SegmentHeader_encode format_version =
     (let out = replicate SegmentHeader_SIZE 0;
          out = buf_put 0 WAL_SEGMENT_MAGIC out;
          out = buf_put 4 (le_bytes 2 format_version) out
      in out)"

definition SegmentHeader_decode :: "bytes \<Rightarrow> ArcGraphError + u16" where
  "SegmentHeader_decode bs =
     (if length bs < SegmentHeader_SIZE
      then Inl (WalFormatMismatch 0 SUPPORTED_WAL_FORMAT_VERSIONS)
      else
        let magic = buf_get 0 4 bs in
        if magic \<noteq> WAL_SEGMENT_MAGIC then Inl (WalBadMagic magic WAL_SEGMENT_MAGIC)
        else
          let format_version = from_le [bs ! 4, bs ! 5] in
          if bs ! 6 \<noteq> 0 \<or> bs ! 7 \<noteq> 0
          then Inl (WalFormatMismatch format_version SUPPORTED_WAL_FORMAT_VERSIONS)
          else if format_version \<notin> set SUPPORTED_WAL_FORMAT_VERSIONS
          then Inl (WalFormatMismatch format_version SUPPORTED_WAL_FORMAT_VERSIONS)
          else Inr format_version)"

section \<open>Segment file names\<close>

definition SEGMENT_FILENAME_PREFIX :: string where "SEGMENT_FILENAME_PREFIX = ''wal-''"
definition SEGMENT_FILENAME_SUFFIX :: string where "SEGMENT_FILENAME_SUFFIX = ''.log''"

definition digit_char :: "nat \<Rightarrow> char" where "digit_char d = char_of (48 + d)"

fun dec_string :: "nat \<Rightarrow> string" where
  "dec_string n = (if n < 10 then [digit_char n]
                   else dec_string (n div 10) @ [digit_char (n mod 10)])"

declare dec_string.simps [simp del]

definition segment_filename :: "nat \<Rightarrow> string" where
  "segment_filename n =
     SEGMENT_FILENAME_PREFIX @
     replicate (10 - length (dec_string n)) (digit_char 0) @ dec_string n @
     SEGMENT_FILENAME_SUFFIX"

text \<open>Rust's \<open>str::parse::<u64>\<close>: an optional plus sign, then at least one digit and nothing
  else, with an error on overflow.\<close>

fun parse_digits :: "nat \<Rightarrow> string \<Rightarrow> nat option" where
  "parse_digits acc [] = Some acc"
| "parse_digits acc (c # cs) =
     (let d = of_char c - 48 :: nat in
      if (of_char c :: nat) < 48 \<or> d > 9 then None
      else if acc * 10 + d \<ge> 2 ^ 64 then None
      else parse_digits (acc * 10 + d) cs)"

definition parse_u64 :: "string \<Rightarrow> nat option" where
  "parse_u64 s =
     (case s of
        [] \<Rightarrow> None
      | c # cs \<Rightarrow> if c = CHR ''+'' then (if cs = [] then None else parse_digits 0 cs)
                  else parse_digits 0 s)"

definition strip_prefix :: "string \<Rightarrow> string \<Rightarrow> string option" where
  "strip_prefix p s = (if take (length p) s = p then Some (drop (length p) s) else None)"

definition strip_suffix :: "string \<Rightarrow> string \<Rightarrow> string option" where
  "strip_suffix p s =
     (if length p \<le> length s \<and> drop (length s - length p) s = p
      then Some (take (length s - length p) s) else None)"

definition parse_segment_filename :: "string \<Rightarrow> nat option" where
  "parse_segment_filename name =
     Option.bind (strip_prefix SEGMENT_FILENAME_PREFIX name) (\<lambda>s.
     Option.bind (strip_suffix SEGMENT_FILENAME_SUFFIX s) parse_u64)"

definition list_segments :: "string list \<Rightarrow> nat list" where
  "list_segments names = sort (List.map_filter parse_segment_filename names)"

section \<open>Files\<close>

type_synonym wal_dir = "(nat \<times> bytes) list"

definition set_len :: "nat \<Rightarrow> bytes \<Rightarrow> bytes" where
  "set_len n f = take n f @ replicate (n - length f) 0"

definition write_all_at :: "bytes \<Rightarrow> nat \<Rightarrow> bytes \<Rightarrow> bytes" where
  "write_all_at bs off f =
     take off f @ replicate (off - length f) 0 @ bs @ drop (off + length bs) f"

definition set_file :: "nat \<Rightarrow> bytes \<Rightarrow> wal_dir \<Rightarrow> wal_dir" where
  "set_file n f d = map (\<lambda>(m, g). if m = n then (m, f) else (m, g)) d"

section \<open>Segment writer\<close>

record SegmentWriter =
  sw_current_seg :: nat
  sw_current_bytes :: nat
  sw_max_bytes :: nat
  sw_format_version :: u16

definition WAL_FORMAT_PAGE_IMAGE :: string where "WAL_FORMAT_PAGE_IMAGE = ''page-image''"
definition WAL_FORMAT_DELTA_V9 :: string where "WAL_FORMAT_DELTA_V9 = ''delta-v9''"
definition WAL_FORMAT_DELTA_V10 :: string where "WAL_FORMAT_DELTA_V10 = ''delta-v10''"

text \<open>The argument is what reading the generation's MANIFEST gave: an error, no manifest (also
  when the directory has no parent), or its \<open>wal_format\<close>.\<close>

definition generation_wal_format :: "string + string option \<Rightarrow> ArcGraphError + u16" where
  "generation_wal_format manifest =
     (case manifest of
        Inl e \<Rightarrow> Inl (WalCorruption Lsn_ZERO ''cannot derive torn segment format from MANIFEST'')
      | Inr None \<Rightarrow> Inr CURRENT_WAL_FORMAT_VERSION
      | Inr (Some wal_format) \<Rightarrow>
          if wal_format = WAL_FORMAT_PAGE_IMAGE then Inr CURRENT_WAL_FORMAT_VERSION
          else if wal_format = WAL_FORMAT_DELTA_V9 then Inr 9
          else if wal_format = WAL_FORMAT_DELTA_V10 then Inr 10
          else Inl (WalCorruption Lsn_ZERO ''MANIFEST carries unsupported wal_format''))"

text \<open>The format a torn terminal segment is restamped with: inherited from a v9 or v10 predecessor,
  the current one after an older predecessor, the manifest's when there is none.\<close>

definition torn_segment_format :: "string + string option \<Rightarrow> wal_dir \<Rightarrow> ArcGraphError + u16" where
  "torn_segment_format manifest d =
     (case rev d of
        _ # (_, previous) # _ \<Rightarrow>
          if length previous < SegmentHeader_SIZE then Inl (Io ''failed to fill whole buffer'')
          else bind_res (SegmentHeader_decode (take SegmentHeader_SIZE previous)) (\<lambda>v.
            Inr (if v = 9 \<or> v = 10 then v else CURRENT_WAL_FORMAT_VERSION))
      | _ \<Rightarrow> generation_wal_format manifest)"

definition mk_writer :: "nat \<Rightarrow> nat \<Rightarrow> nat \<Rightarrow> u16 \<Rightarrow> SegmentWriter" where
  "mk_writer seg nbytes max_bytes v =
     \<lparr> sw_current_seg = seg, sw_current_bytes = nbytes, sw_max_bytes = max_bytes,
       sw_format_version = v \<rparr>"

definition SegmentWriter_open ::
  "string + string option \<Rightarrow> wal_dir \<Rightarrow> nat \<Rightarrow> (wal_dir \<times> (ArcGraphError + SegmentWriter)) run"
  where
  "SegmentWriter_open manifest d max_bytes =
     (if \<not> max_bytes > 0 then Panicked
      else Done (case rev d of
        (n, f) # _ \<Rightarrow>
          if length f < SegmentHeader_SIZE then
            (case torn_segment_format manifest d of
               Inl e \<Rightarrow> (d, Inl e)
             | Inr v \<Rightarrow>
                 (set_file n (set_len SegmentHeader_SIZE
                    (write_all_at (SegmentHeader_encode v) 0 f)) d,
                  Inr (mk_writer n 0 max_bytes v)))
          else
            (case SegmentHeader_decode (take SegmentHeader_SIZE f) of
               Inl e \<Rightarrow> (d, Inl e)
             | Inr v \<Rightarrow>
                 if v = CURRENT_WAL_FORMAT_VERSION \<or> v = 9 \<or> v = 10
                 then (d, Inr (mk_writer n (length f - SegmentHeader_SIZE) max_bytes v))
                 else (d @ [(n + 1, SegmentHeader_encode CURRENT_WAL_FORMAT_VERSION)],
                       Inr (mk_writer (n + 1) 0 max_bytes CURRENT_WAL_FORMAT_VERSION)))
      | [] \<Rightarrow>
          (case generation_wal_format manifest of
             Inl e \<Rightarrow> (d @ [(0, [])], Inl e)
           | Inr v \<Rightarrow> (d @ [(0, SegmentHeader_encode v)], Inr (mk_writer 0 0 max_bytes v)))))"

definition landing_segment_for :: "SegmentWriter \<Rightarrow> nat \<Rightarrow> nat" where
  "landing_segment_for w batch_bytes =
     (if sw_current_bytes w + batch_bytes > sw_max_bytes w \<and> sw_current_bytes w > 0
      then sw_current_seg w + 1 else sw_current_seg w)"

definition rotate_segment ::
  "wal_dir \<Rightarrow> SegmentWriter \<Rightarrow> wal_dir \<times> SegmentWriter \<times> (ArcGraphError + unit)" where
  "rotate_segment d w =
     (let next_seg = sw_current_seg w + 1 in
      if next_seg \<in> fst ` set d then (d, w, Inl (Io ''file exists''))
      else (d @ [(next_seg, SegmentHeader_encode (sw_format_version w))],
            w\<lparr>sw_current_seg := next_seg, sw_current_bytes := 0\<rparr>, Inr ()))"

definition write_batch ::
  "wal_dir \<Rightarrow> SegmentWriter \<Rightarrow> bytes \<Rightarrow> wal_dir \<times> SegmentWriter" where
  "write_batch d w bs =
     (set_file (sw_current_seg w)
        (write_all_at bs (SegmentHeader_SIZE + sw_current_bytes w)
          (the (map_of d (sw_current_seg w)))) d,
      w\<lparr>sw_current_bytes := sw_current_bytes w + length bs\<rparr>)"

definition SegmentWriter_append ::
  "wal_dir \<Rightarrow> SegmentWriter \<Rightarrow> bytes \<Rightarrow> wal_dir \<times> SegmentWriter \<times> (ArcGraphError + unit)" where
  "SegmentWriter_append d w bs =
     (if bs = [] then (d, w, Inr ())
      else if sw_current_bytes w + length bs > sw_max_bytes w \<and> sw_current_bytes w > 0 then
        (case rotate_segment d w of
           (d', w', Inl e) \<Rightarrow> (d', w', Inl e)
         | (d', w', Inr _) \<Rightarrow> (case write_batch d' w' bs of (d'', w'') \<Rightarrow> (d'', w'', Inr ())))
      else (case write_batch d w bs of (d'', w'') \<Rightarrow> (d'', w'', Inr ())))"

section \<open>Header and file name lemmas\<close>

lemma length_SegmentHeader_encode [simp]: "length (SegmentHeader_encode v) = 8"
  by (simp add: SegmentHeader_encode_def SegmentHeader_SIZE_def WAL_SEGMENT_MAGIC_def Let_def)

lemma u16_bytes: "from_le [le_bytes 2 (v :: u16) ! 0, le_bytes 2 v ! Suc 0] = v"
proof -
  have "[le_bytes 2 v ! 0, le_bytes 2 v ! Suc 0] = le_bytes 2 v"
    by (rule nth_equalityI) (auto simp: less_Suc_eq numeral_2_eq_2)
  then show ?thesis by (simp del: from_le.simps)
qed

lemma SegmentHeader_decode_encode:
  "SegmentHeader_decode (SegmentHeader_encode v @ rest) =
     (if v \<in> set SUPPORTED_WAL_FORMAT_VERSIONS then Inr v
      else Inl (WalFormatMismatch v SUPPORTED_WAL_FORMAT_VERSIONS))"
proof -
  let ?e = "SegmentHeader_encode v"
  have "buf_get 0 4 ?e = WAL_SEGMENT_MAGIC" "?e ! 4 = le_bytes 2 v ! 0"
    "?e ! 5 = le_bytes 2 v ! Suc 0" "?e ! 6 = 0" "?e ! 7 = 0"
    by (simp_all add: SegmentHeader_encode_def SegmentHeader_SIZE_def WAL_SEGMENT_MAGIC_def
        Let_def buf_simps)
  then show ?thesis
    by (simp add: SegmentHeader_decode_def SegmentHeader_SIZE_def buf_get_append1 nth_append
        u16_bytes Let_def del: from_le.simps)
qed

lemma of_char_digit: "d < 10 \<Longrightarrow> (of_char (digit_char d) :: nat) = 48 + d"
  by (simp add: digit_char_def)

lemma parse_digits_append:
  "parse_digits acc (xs @ ys) = Option.bind (parse_digits acc xs) (\<lambda>a. parse_digits a ys)"
  by (induction xs arbitrary: acc) (auto simp: Let_def)

lemma parse_digits_dec: "n < 2 ^ 64 \<Longrightarrow> parse_digits 0 (dec_string n) = Some n"
proof (induction n rule: dec_string.induct)
  case (1 n)
  show ?case
  proof (cases "n < 10")
    case True
    with "1.prems" show ?thesis by (subst dec_string.simps) (simp add: of_char_digit)
  next
    case False
    with "1.prems" "1.IH" have IH: "parse_digits 0 (dec_string (n div 10)) = Some (n div 10)" by simp
    show ?thesis
      using False IH "1.prems"
      by (subst dec_string.simps) (simp add: parse_digits_append of_char_digit Let_def)
  qed
qed

lemma parse_digits_zeros: "parse_digits 0 (replicate k (digit_char 0) @ s) = parse_digits 0 s"
  by (induction k) (simp_all add: of_char_digit)

lemma dec_string_nonempty: "dec_string n \<noteq> []"
  by (subst dec_string.simps) simp

lemma dec_string_digits: "c \<in> set (dec_string n) \<Longrightarrow> c \<in> digit_char ` {..<10}"
proof (induction n rule: dec_string.induct)
  case (1 n)
  show ?case
  proof (cases "n < 10")
    case True
    with "1.prems" show ?thesis by (simp add: dec_string.simps [of n])
  next
    case False
    with "1.prems" have "c \<in> set (dec_string (n div 10)) \<or> c = digit_char (n mod 10)"
      by (auto simp: dec_string.simps [of n])
    with "1.IH" [OF False] show ?thesis by auto
  qed
qed

lemma digit_not_plus: "d < 10 \<Longrightarrow> digit_char d \<noteq> CHR ''+''"
proof
  assume "d < 10" "digit_char d = CHR ''+''"
  then have "(of_char (CHR ''+'') :: nat) = 48 + d" using of_char_digit by metis
  then show False by simp
qed

lemma parse_u64_padded:
  assumes "n < 2 ^ 64"
  shows "parse_u64 (replicate k (digit_char 0) @ dec_string n) = Some n"
proof -
  let ?s = "replicate k (digit_char 0) @ dec_string n"
  have ne: "?s \<noteq> []" by (simp add: dec_string_nonempty)
  then obtain c cs where s: "?s = c # cs" by (cases ?s) auto
  then have "c \<in> set ?s" by simp
  then have "c = digit_char 0 \<or> c \<in> set (dec_string n)" by auto
  moreover have "digit_char 0 \<in> digit_char ` {..<10}" by (rule imageI) simp
  ultimately have "c \<in> digit_char ` {..<10}" using dec_string_digits [of c n] by blast
  then obtain d where "d < 10" "c = digit_char d" by (auto simp only: image_iff lessThan_iff)
  then have "c \<noteq> CHR ''+''" by (simp only: digit_not_plus not_False_eq_True)
  then have "parse_u64 ?s = parse_digits 0 ?s" unfolding s parse_u64_def
    by (simp del: parse_digits.simps)
  also have "\<dots> = Some n"
    unfolding parse_digits_zeros by (rule parse_digits_dec [OF assms])
  finally show ?thesis .
qed

lemma segment_filename_roundtrip:
  assumes "n < 2 ^ 64"
  shows "parse_segment_filename (segment_filename n) = Some n"
proof -
  let ?mid = "replicate (10 - length (dec_string n)) (digit_char 0) @ dec_string n"
  have name: "segment_filename n = SEGMENT_FILENAME_PREFIX @ (?mid @ SEGMENT_FILENAME_SUFFIX)"
    unfolding segment_filename_def by (simp only: append_assoc)
  have "strip_prefix p (p @ s) = Some s" and "strip_suffix q (s @ q) = Some s" for p q s
    by (simp_all add: strip_prefix_def strip_suffix_def)
  then show ?thesis
    unfolding parse_segment_filename_def name
    by (simp only: Option.bind.simps parse_u64_padded [OF assms])
qed

section \<open>The writer's invariant\<close>

text \<open>The contents of a segment that holds records: a supported header and the encodings.\<close>

definition seg_bytes :: "(bytes \<Rightarrow> u32) \<Rightarrow> u16 \<Rightarrow> WalRecord list \<Rightarrow> bytes" where
  "seg_bytes crc v rs = SegmentHeader_encode v @ concat (map (record_bytes crc) rs)"

definition seg_holds :: "(bytes \<Rightarrow> u32) \<Rightarrow> bytes \<Rightarrow> WalRecord list \<Rightarrow> bool" where
  "seg_holds crc f rs \<longleftrightarrow> (\<exists>v \<in> set SUPPORTED_WAL_FORMAT_VERSIONS. f = seg_bytes crc v rs) \<and>
     (\<forall>r \<in> set rs. length (wr_payload r) \<le> MAX_PAYLOAD_LEN)"

text \<open>A directory whose segments hold the record lists \<open>rss\<close>, in order.\<close>

definition dir_holds :: "(bytes \<Rightarrow> u32) \<Rightarrow> wal_dir \<Rightarrow> WalRecord list list \<Rightarrow> bool" where
  "dir_holds crc d rss \<longleftrightarrow> sorted_wrt (<) (map fst d) \<and>
     list_all2 (\<lambda>(n, f) rs. seg_holds crc f rs) d rss"

definition writer_inv ::
  "(bytes \<Rightarrow> u32) \<Rightarrow> wal_dir \<Rightarrow> SegmentWriter \<Rightarrow> WalRecord list list \<Rightarrow> bool" where
  "writer_inv crc d w rss \<longleftrightarrow> dir_holds crc d rss \<and> d \<noteq> [] \<and>
     sw_current_seg w = fst (last d) \<and>
     length (snd (last d)) = SegmentHeader_SIZE + sw_current_bytes w \<and>
     sw_format_version w \<in> set SUPPORTED_WAL_FORMAT_VERSIONS"

text \<open>A batch as the WAL thread hands it over: the encodings of some records.\<close>

definition batch_bytes :: "(bytes \<Rightarrow> u32) \<Rightarrow> WalRecord list \<Rightarrow> bytes" where
  "batch_bytes crc rs = concat (map (record_bytes crc) rs)"

lemma set_file_last:
  fixes d :: wal_dir
  assumes "sorted_wrt (<) (map fst (d @ [(n, f)]))"
  shows "set_file n g (d @ [(n, f)]) = d @ [(n, g)]"
proof -
  have "map (\<lambda>(m, h). if m = n then (m, g) else (m, h)) d = d"
    using assms by (intro map_idI) (auto simp: sorted_wrt_append)
  then show ?thesis by (simp add: set_file_def)
qed

lemma map_of_last:
  fixes d :: wal_dir
  assumes "sorted_wrt (<) (map fst (d @ [(n, f)]))"
  shows "map_of (d @ [(n, f)]) n = Some f"
proof -
  have "\<forall>m \<in> fst ` set d. m < n" using assms by (simp add: sorted_wrt_append)
  then have "n \<notin> fst ` set d" using less_irrefl by metis
  then have "map_of d n = None" by (simp add: map_of_eq_None_iff)
  then show ?thesis by (simp add: map_add_def)
qed

lemma seg_holds_append:
  assumes "seg_holds crc f rs" "\<forall>r \<in> set rs'. length (wr_payload r) \<le> MAX_PAYLOAD_LEN"
  shows "seg_holds crc (f @ batch_bytes crc rs') (rs @ rs')"
  using assms by (auto simp: seg_holds_def seg_bytes_def batch_bytes_def)

lemma write_batch_inv:
  assumes inv: "writer_inv crc d w (rss @ [rs])"
    and ok: "\<forall>r \<in> set rs'. length (wr_payload r) \<le> MAX_PAYLOAD_LEN"
  shows "\<exists>d' w'. write_batch d w (batch_bytes crc rs') = (d', w') \<and>
    writer_inv crc d' w' (rss @ [rs @ rs'])"
proof -
  obtain d0 n f where d: "d = d0 @ [(n, f)]"
    using inv by (metis rev_exhaust surj_pair writer_inv_def)
  have sorted: "sorted_wrt (<) (map fst (d0 @ [(n, f)]))"
    using inv by (simp add: writer_inv_def dir_holds_def d)
  have seg: "sw_current_seg w = n" "length f = 8 + sw_current_bytes w"
    using inv by (simp_all add: writer_inv_def d SegmentHeader_SIZE_def)
  have hold: "list_all2 (\<lambda>(n, f) rs. seg_holds crc f rs) d0 rss" "seg_holds crc f rs"
    using inv by (auto simp: writer_inv_def dir_holds_def d list_all2_append1 list_all2_Cons1)
  have "write_batch d w (batch_bytes crc rs') =
      (d0 @ [(n, f @ batch_bytes crc rs')],
       w\<lparr>sw_current_bytes := sw_current_bytes w + length (batch_bytes crc rs')\<rparr>)"
    by (simp add: write_batch_def d seg map_of_last [OF sorted, simplified]
        set_file_last [OF sorted, simplified] write_all_at_def SegmentHeader_SIZE_def)
  moreover have "writer_inv crc (d0 @ [(n, f @ batch_bytes crc rs')])
      (w\<lparr>sw_current_bytes := sw_current_bytes w + length (batch_bytes crc rs')\<rparr>) (rss @ [rs @ rs'])"
    using inv sorted seg hold seg_holds_append [OF hold(2) ok]
    by (simp add: writer_inv_def dir_holds_def SegmentHeader_SIZE_def list_all2_appendI)
  ultimately show ?thesis by blast
qed

text \<open>Rotation opens an empty segment; an append adds its records to the last segment or to a fresh
  one, so the concatenation of all segments grows by exactly the batch.\<close>

lemma rotate_inv:
  assumes inv: "writer_inv crc d w rss"
  shows "\<exists>d' w'. rotate_segment d w = (d', w', Inr ()) \<and> writer_inv crc d' w' (rss @ [[]]) \<and>
    sw_max_bytes w' = sw_max_bytes w"
proof -
  obtain d0 n f where d: "d = d0 @ [(n, f)]"
    using inv by (metis rev_exhaust surj_pair writer_inv_def)
  have sorted: "sorted_wrt (<) (map fst (d0 @ [(n, f)]))" and seg: "sw_current_seg w = n"
    using inv by (simp_all add: writer_inv_def dir_holds_def d)
  have lt: "\<forall>m \<in> fst ` set d. m \<le> n"
    using sorted by (auto simp: d sorted_wrt_append less_imp_le)
  then have "Suc n \<notin> fst ` set d" by (metis Suc_n_not_le_n)
  moreover have "sorted_wrt (<) (map fst (d @ [(Suc n, g)]))" for g :: bytes
    using sorted lt by (auto simp: d sorted_wrt_append less_Suc_eq_le)
  moreover have "seg_holds crc (SegmentHeader_encode v) []"
    if "v \<in> set SUPPORTED_WAL_FORMAT_VERSIONS" for v
    using that by (auto simp: seg_holds_def seg_bytes_def)
  ultimately show ?thesis
    using inv seg
    by (simp add: rotate_segment_def writer_inv_def dir_holds_def SegmentHeader_SIZE_def
        list_all2_appendI)
qed

lemma append_inv:
  assumes inv: "writer_inv crc d w rss"
    and ok: "\<forall>r \<in> set rs. length (wr_payload r) \<le> MAX_PAYLOAD_LEN"
  shows "\<exists>d' w' rss'. SegmentWriter_append d w (batch_bytes crc rs) = (d', w', Inr ()) \<and>
    writer_inv crc d' w' rss' \<and> concat rss' = concat rss @ rs"
proof -
  have step: "\<exists>d' w' rss'. write_batch e v (batch_bytes crc rs) = (d', w') \<and>
      writer_inv crc d' w' rss' \<and> concat rss' = concat qss @ rs"
    if "writer_inv crc e v qss" for e v qss
  proof -
    from that have "qss \<noteq> []" by (auto simp: writer_inv_def dir_holds_def)
    then obtain q0 q where q: "qss = q0 @ [q]" by (metis rev_exhaust)
    from write_batch_inv [OF that [unfolded q] ok] obtain d' w' where
      "write_batch e v (batch_bytes crc rs) = (d', w')" "writer_inv crc d' w' (q0 @ [q @ rs])"
      by blast
    then show ?thesis by (intro exI [of _ d'] exI [of _ w'] exI [of _ "q0 @ [q @ rs]"]) (simp add: q)
  qed
  show ?thesis
  proof (cases "batch_bytes crc rs = []")
    case True
    then have "rs = []"
      by (cases rs) (auto simp: batch_bytes_def)
    with True inv show ?thesis by (auto simp: SegmentWriter_append_def)
  next
    case False
    show ?thesis
    proof (cases "sw_current_bytes w + length (batch_bytes crc rs) > sw_max_bytes w \<and>
        sw_current_bytes w > 0")
      case True
      from rotate_inv [OF inv] obtain d1 w1 where
        r: "rotate_segment d w = (d1, w1, Inr ())" "writer_inv crc d1 w1 (rss @ [[]])"
        by blast
      from step [OF r(2)] r(1) True False show ?thesis
        by (auto simp: SegmentWriter_append_def)
    next
      case noexc: False
      from step [OF inv] noexc False show ?thesis
        unfolding SegmentWriter_append_def by (auto simp del: not_gr_zero)
    qed
  qed
qed

section \<open>Properties\<close>

text \<open>C32: every segment number is read back from the file name the writer gives it. The parser is more
  liberal than the canonical ten digit shape: for the name of segment 1 it also accepts
  \<open>wal-1.log\<close> and \<open>wal-+1.log\<close>, so two files of a directory can be listed under one number.\<close>

theorem segment_filename_parse:
  "n < 2 ^ 64 \<Longrightarrow> parse_segment_filename (segment_filename n) = Some n \<and>
     list_segments [''wal-1.log'', ''wal-+1.log'', segment_filename n] = sort [1, 1, n]"
proof -
  assume n: "n < 2 ^ 64"
  have one: "parse_segment_filename ''wal-1.log'' = Some 1"
    "parse_segment_filename ''wal-+1.log'' = Some 1"
    by (simp_all add: parse_segment_filename_def strip_prefix_def strip_suffix_def
        SEGMENT_FILENAME_PREFIX_def SEGMENT_FILENAME_SUFFIX_def parse_u64_def Let_def)
  show ?thesis
    using segment_filename_roundtrip [OF n] one
    by (simp add: list_segments_def List.map_filter_def)
qed

theorem segment_filename_parse_witness:
  "parse_segment_filename (segment_filename 42) = Some 42 \<and>
   list_segments [''wal-1.log'', ''wal-+1.log'', segment_filename 42] = [1, 1, 42]"
  using segment_filename_parse [of 42] by simp

end
