(* ===== verification/Wal_Encryption.thy ===== *)
theory Wal_Encryption
  imports Core_Error
begin

text \<open>
  Encryption of WAL payloads at rest: the key ring of \<open>arcgraph-storage/src/encryption/keyring.rs\<close>,
  the cipher wrapper of \<open>encryption/cipher.rs\<close> and the payload framing of \<open>encryption/wal.rs\<close>.
  The AES-256-GCM primitives come from the \<open>aws-lc-rs\<close> crate and the keys from a
  \<open>SecretsProvider\<close>; both are parameters, collected in the record \<open>aead\<close> and in the argument
  \<open>provider\<close>. A cipher is represented by the key it was made from. The random IV is an argument of
  \<open>encrypt\<close>. Mutex poisoning is not modelled.
\<close>

definition AES_GCM_IV_LEN :: nat where "AES_GCM_IV_LEN = 12"
definition AES_GCM_TAG_LEN :: nat where "AES_GCM_TAG_LEN = 16"

text \<open>The primitives: key initialisation (an error or success), \<open>seal_in_place_append_tag\<close> and
  \<open>open_in_place\<close>, each with key, nonce and additional data.\<close>

record aead =
  aead_init :: "bytes \<Rightarrow> string option"
  aead_seal :: "bytes \<Rightarrow> bytes \<Rightarrow> bytes \<Rightarrow> bytes \<Rightarrow> string + bytes"
  aead_open :: "bytes \<Rightarrow> bytes \<Rightarrow> bytes \<Rightarrow> bytes \<Rightarrow> string + bytes"

datatype CipherError = KeyInit string | Decryption string | Encryption string

definition cipher_encrypt :: "aead \<Rightarrow> bytes \<Rightarrow> bytes \<Rightarrow> bytes \<Rightarrow> bytes \<Rightarrow> CipherError + bytes" where
  "cipher_encrypt A key iv aad plaintext =
     (case aead_seal A key iv aad plaintext of
        Inl e \<Rightarrow> Inl (Encryption e)
      | Inr out \<Rightarrow> Inr out)"

definition cipher_decrypt :: "aead \<Rightarrow> bytes \<Rightarrow> bytes \<Rightarrow> bytes \<Rightarrow> bytes \<Rightarrow> CipherError + bytes" where
  "cipher_decrypt A key iv aad ct =
     (if length ct < AES_GCM_TAG_LEN then Inl (Decryption ''ciphertext too short'')
      else case aead_open A key iv aad ct of
        Inl e \<Rightarrow> Inl (Decryption e)
      | Inr plaintext \<Rightarrow>
          if length plaintext \<noteq> length ct - AES_GCM_TAG_LEN
          then Inl (Decryption ''AEAD provider returned an unexpected plaintext window'')
          else Inr plaintext)"

section \<open>Key ring\<close>

datatype KeyRingError = Provider u16 string | CipherInit u16 CipherError

record KeyRing =
  kr_current_version :: u16
  kr_cache :: "u16 \<rightharpoonup> bytes"

definition KeyRing_new :: "u16 \<Rightarrow> KeyRing" where
  "KeyRing_new v = \<lparr> kr_current_version = v, kr_cache = Map.empty \<rparr>"

definition advance_to :: "KeyRing \<Rightarrow> u16 \<Rightarrow> KeyRing" where
  "advance_to ring next_version = ring\<lparr>kr_current_version := next_version\<rparr>"

definition cipher_for_version ::
  "aead \<Rightarrow> (u16 \<Rightarrow> string + bytes) \<Rightarrow> KeyRing \<Rightarrow> u16 \<Rightarrow> KeyRing \<times> (KeyRingError + bytes)" where
  "cipher_for_version A provider ring version =
     (case kr_cache ring version of
        Some c \<Rightarrow> (ring, Inr c)
      | None \<Rightarrow>
          (case provider version of
             Inl e \<Rightarrow> (ring, Inl (Provider version e))
           | Inr secret \<Rightarrow>
               (case aead_init A secret of
                  Some e \<Rightarrow> (ring, Inl (CipherInit version (KeyInit e)))
                | None \<Rightarrow>
                    (ring\<lparr>kr_cache := (kr_cache ring)(version \<mapsto> secret)\<rparr>, Inr secret))))"

definition current_cipher ::
  "aead \<Rightarrow> (u16 \<Rightarrow> string + bytes) \<Rightarrow> KeyRing \<Rightarrow> KeyRing \<times> (KeyRingError + bytes)" where
  "current_cipher A provider ring = cipher_for_version A provider ring (kr_current_version ring)"

definition rotate_to ::
  "aead \<Rightarrow> (u16 \<Rightarrow> string + bytes) \<Rightarrow> KeyRing \<Rightarrow> u16 \<Rightarrow> KeyRing \<times> (KeyRingError + u16)" where
  "rotate_to A provider ring next_version =
     (case cipher_for_version A provider ring next_version of
        (ring', Inl e) \<Rightarrow> (ring', Inl e)
      | (ring', Inr _) \<Rightarrow> (advance_to ring' next_version, Inr next_version))"

section \<open>Payload framing\<close>

definition WAL_ENCRYPTION_MAGIC :: bytes where
  "WAL_ENCRYPTION_MAGIC = [0x41, 0x45, 0x41, 0x44]"

definition WAL_PAYLOAD_HEADER_LEN :: nat where
  "WAL_PAYLOAD_HEADER_LEN = 4 + 2 + 2 + AES_GCM_IV_LEN + AES_GCM_TAG_LEN"

definition build_aad :: "u16 \<Rightarrow> u64 \<Rightarrow> Lsn \<Rightarrow> bytes" where
  "build_aad key_version segment_no lsn =
     le_bytes 2 key_version @ le_bytes 8 segment_no @ le_bytes 8 lsn"

definition WalEncryption_encrypt ::
  "aead \<Rightarrow> (u16 \<Rightarrow> string + bytes) \<Rightarrow> KeyRing \<Rightarrow> bytes \<Rightarrow> u64 \<Rightarrow> Lsn \<Rightarrow> bytes \<Rightarrow>
     KeyRing \<times> (ArcGraphError + bytes)" where
  "WalEncryption_encrypt A provider ring iv segment_no lsn plaintext =
     (case current_cipher A provider ring of
        (ring', Inl e) \<Rightarrow> (ring', Inl (Io ''wal keyring''))
      | (ring', Inr key) \<Rightarrow>
          let aad = build_aad (kr_current_version ring) segment_no lsn in
          (case cipher_encrypt A key iv aad plaintext of
             Inl e \<Rightarrow> (ring', Inl (Io ''wal cipher''))
           | Inr ct_with_tag \<Rightarrow>
               let ct_len = length ct_with_tag - AES_GCM_TAG_LEN in
               (ring', Inr (WAL_ENCRYPTION_MAGIC @ le_bytes 2 (kr_current_version ring) @ [0, 0] @
                  iv @ buf_get ct_len AES_GCM_TAG_LEN ct_with_tag @ take ct_len ct_with_tag))))"

definition WalEncryption_decrypt ::
  "aead \<Rightarrow> (u16 \<Rightarrow> string + bytes) \<Rightarrow> KeyRing \<Rightarrow> u64 \<Rightarrow> Lsn \<Rightarrow> bytes \<Rightarrow>
     KeyRing \<times> (ArcGraphError + bytes)" where
  "WalEncryption_decrypt A provider ring segment_no lsn payload =
     (if length payload < WAL_PAYLOAD_HEADER_LEN
      then (ring, Inl (WalDecryptionFailed lsn 0 ''encrypted payload too short''))
      else if buf_get 0 4 payload \<noteq> WAL_ENCRYPTION_MAGIC
      then (ring, Inl (WalDecryptionFailed lsn 0 ''missing AEAD magic''))
      else
        let key_version = from_le [payload ! 4, payload ! 5] in
        if payload ! 6 \<noteq> 0 \<or> payload ! 7 \<noteq> 0
        then (ring, Inl (WalDecryptionFailed lsn key_version ''reserved bytes non-zero''))
        else
          let iv = buf_get 8 12 payload;
              tag = buf_get 20 16 payload;
              ct = drop WAL_PAYLOAD_HEADER_LEN payload in
          (case cipher_for_version A provider ring key_version of
             (ring', Inl e) \<Rightarrow> (ring', Inl (WalDecryptionFailed lsn key_version ''keyring''))
           | (ring', Inr key) \<Rightarrow>
               (case cipher_decrypt A key iv (build_aad key_version segment_no lsn) (ct @ tag) of
                  Inl e \<Rightarrow>
                    (ring', Inl (WalDecryptionFailed lsn key_version ''aead decryption failed''))
                | Inr plaintext \<Rightarrow> (ring', Inr plaintext))))"

definition is_encrypted_wal_payload :: "bytes \<Rightarrow> bool" where
  "is_encrypted_wal_payload payload \<longleftrightarrow> length payload \<ge> WAL_PAYLOAD_HEADER_LEN \<and>
     buf_get 0 4 payload = WAL_ENCRYPTION_MAGIC \<and> payload ! 6 = 0 \<and> payload ! 7 = 0"

datatype PayloadEncryption = Clear | Encrypted u16

definition PayloadEncryption_peek :: "bytes \<Rightarrow> PayloadEncryption" where
  "PayloadEncryption_peek payload =
     (if is_encrypted_wal_payload payload then Encrypted (from_le [payload ! 4, payload ! 5])
      else Clear)"

fun as_key_version :: "PayloadEncryption \<Rightarrow> u16 option" where
  "as_key_version Clear = None"
| "as_key_version (Encrypted v) = Some v"

section \<open>Lemmas\<close>

text \<open>The laws of the AEAD that the framing relies on: sealing a plaintext appends a tag of
  16 bytes and opening under the same key, nonce and additional data gives the plaintext
  back.\<close>

definition aead_law :: "aead \<Rightarrow> bool" where
  "aead_law A \<longleftrightarrow> (\<forall>key iv aad pt ct. aead_seal A key iv aad pt = Inr ct \<longrightarrow>
     length ct = length pt + AES_GCM_TAG_LEN \<and> aead_open A key iv aad ct = Inr pt)"

lemma cipher_roundtrip:
  assumes "aead_law A" "cipher_encrypt A key iv aad pt = Inr ct"
  shows "length ct = length pt + 16 \<and> cipher_decrypt A key iv aad ct = Inr pt"
proof -
  have s: "aead_seal A key iv aad pt = Inr ct"
    using assms(2) by (auto simp: cipher_encrypt_def split: sum.splits)
  with assms(1) have "length ct = length pt + 16" "aead_open A key iv aad ct = Inr pt"
    by (auto simp: aead_law_def AES_GCM_TAG_LEN_def)
  then show ?thesis by (simp add: cipher_decrypt_def AES_GCM_TAG_LEN_def)
qed

text \<open>The bytes of a payload with header fields \<open>v\<close>, \<open>iv\<close> and \<open>tag\<close>.\<close>

definition framed :: "u16 \<Rightarrow> bytes \<Rightarrow> bytes \<Rightarrow> bytes \<Rightarrow> bytes" where
  "framed v iv tag ct = WAL_ENCRYPTION_MAGIC @ le_bytes 2 v @ [0, 0] @ iv @ tag @ ct"

lemma le_bytes_2: "le_bytes 2 (v :: u16) = [le_bytes 2 v ! 0, le_bytes 2 v ! 1]"
  by (rule nth_equalityI) (auto simp: less_Suc_eq numeral_2_eq_2)

lemma framed_fields:
  assumes "length iv = 12" "length tag = 16"
  shows "WAL_PAYLOAD_HEADER_LEN \<le> length (framed v iv tag ct)"
    "buf_get 0 4 (framed v iv tag ct) = WAL_ENCRYPTION_MAGIC"
    "(from_le [framed v iv tag ct ! 4, framed v iv tag ct ! 5] :: u16) = v"
    "framed v iv tag ct ! 6 = 0" "framed v iv tag ct ! 7 = 0"
    "buf_get 8 12 (framed v iv tag ct) = iv" "buf_get 20 16 (framed v iv tag ct) = tag"
    "drop WAL_PAYLOAD_HEADER_LEN (framed v iv tag ct) = ct"
proof -
  obtain a b where ab: "le_bytes 2 v = [a, b]" using le_bytes_2 by blast
  have "from_le [a, b] = v" using from_le_le_bytes_u16 [of v] ab by simp
  then show "(from_le [framed v iv tag ct ! 4, framed v iv tag ct ! 5] :: u16) = v"
    by (simp add: framed_def WAL_ENCRYPTION_MAGIC_def ab del: from_le.simps)
  show "WAL_PAYLOAD_HEADER_LEN \<le> length (framed v iv tag ct)"
    "buf_get 0 4 (framed v iv tag ct) = WAL_ENCRYPTION_MAGIC"
    "framed v iv tag ct ! 6 = 0" "framed v iv tag ct ! 7 = 0"
    "buf_get 8 12 (framed v iv tag ct) = iv" "buf_get 20 16 (framed v iv tag ct) = tag"
    "drop WAL_PAYLOAD_HEADER_LEN (framed v iv tag ct) = ct"
    using assms
    by (simp_all add: framed_def WAL_ENCRYPTION_MAGIC_def ab WAL_PAYLOAD_HEADER_LEN_def
        AES_GCM_IV_LEN_def AES_GCM_TAG_LEN_def buf_get_def)
qed

lemma encrypt_Inr:
  assumes "WalEncryption_encrypt A provider ring iv seg lsn pt = (ring', Inr out)"
  obtains key ct where "current_cipher A provider ring = (ring', Inr key)"
    "cipher_encrypt A key iv (build_aad (kr_current_version ring) seg lsn) pt = Inr ct"
    "out = framed (kr_current_version ring) iv (buf_get (length ct - 16) 16 ct)
       (take (length ct - 16) ct)"
  using assms that
  by (auto simp: WalEncryption_encrypt_def Let_def framed_def AES_GCM_TAG_LEN_def
      split: prod.splits sum.splits)

text \<open>A cached key is the provider's and initialises; every operation on the ring keeps this.\<close>

definition ring_ok :: "aead \<Rightarrow> (u16 \<Rightarrow> string + bytes) \<Rightarrow> KeyRing \<Rightarrow> bool" where
  "ring_ok A provider ring \<longleftrightarrow>
     (\<forall>v k. kr_cache ring v = Some k \<longrightarrow> provider v = Inr k \<and> aead_init A k = None)"

lemma ring_ok_new: "ring_ok A provider (KeyRing_new v)"
  by (simp add: ring_ok_def KeyRing_new_def)

lemma cipher_for_version_ok:
  assumes "ring_ok A provider ring" "cipher_for_version A provider ring v = (ring', res)"
  shows "ring_ok A provider ring' \<and> kr_current_version ring' = kr_current_version ring \<and>
    (\<forall>k. res = Inr k \<longrightarrow> provider v = Inr k \<and> aead_init A k = None)"
  using assms
  by (auto simp: cipher_for_version_def ring_ok_def split: option.splits sum.splits if_splits)

lemma cipher_for_version_total:
  assumes "ring_ok A provider ring" "provider v = Inr k" "aead_init A k = None"
  shows "snd (cipher_for_version A provider ring v) = Inr k"
  using assms by (auto simp: cipher_for_version_def ring_ok_def split: option.splits)

lemma rotate_to_ok:
  assumes "ring_ok A provider ring"
  shows "ring_ok A provider (fst (rotate_to A provider ring v))"
proof -
  obtain ring' res where c: "cipher_for_version A provider ring v = (ring', res)" by fastforce
  have "ring_ok A provider ring'" using cipher_for_version_ok [OF assms c] by simp
  with c show ?thesis
    by (auto simp: rotate_to_def advance_to_def ring_ok_def split: sum.splits)
qed

section \<open>Properties\<close>

text \<open>C22: an encrypted payload survives key rotation. Whatever ring the recovering process holds, with
  whatever current version and cache, as long as both rings only cache keys of the same provider,
  decrypting at the segment and LSN the payload was encrypted for returns the plaintext, and
  \<open>peek\<close> classifies the payload as encrypted under the writer's version. The AEAD is assumed to
  open what it seals.\<close>

theorem wal_encryption_roundtrip:
  assumes law: "aead_law A" and ring: "ring_ok A provider ring" and ring2: "ring_ok A provider ring2"
    and iv: "length iv = AES_GCM_IV_LEN"
    and enc: "WalEncryption_encrypt A provider ring iv seg lsn pt = (ring', Inr out)"
  shows "PayloadEncryption_peek out = Encrypted (kr_current_version ring) \<and>
    snd (WalEncryption_decrypt A provider ring2 seg lsn out) = Inr pt"
proof -
  let ?v = "kr_current_version ring"
  obtain key ct where cur: "current_cipher A provider ring = (ring', Inr key)"
    and ct: "cipher_encrypt A key iv (build_aad ?v seg lsn) pt = Inr ct"
    and out: "out = framed ?v iv (buf_get (length ct - 16) 16 ct) (take (length ct - 16) ct)"
    using encrypt_Inr [OF enc] by blast
  have key: "provider ?v = Inr key" "aead_init A key = None"
    using cipher_for_version_ok [OF ring cur [unfolded current_cipher_def]] by auto
  note rt = cipher_roundtrip [OF law ct]
  have l: "length iv = 12" "length (buf_get (length ct - 16) 16 ct) = 16"
    using iv rt by (simp_all add: AES_GCM_IV_LEN_def)
  have glue: "take (length ct - 16) ct @ buf_get (length ct - 16) 16 ct = ct"
    using rt by (simp add: buf_get_def)
  note f = framed_fields [OF l, of ?v "take (length ct - 16) ct", folded out]
  have "snd (WalEncryption_decrypt A provider ring2 seg lsn out) = Inr pt"
    using f cipher_for_version_total [OF ring2 key] rt glue
    by (auto simp: WalEncryption_decrypt_def Let_def split: prod.splits sum.splits
        simp del: from_le.simps)
  then show ?thesis
    using f by (simp add: PayloadEncryption_peek_def is_encrypted_wal_payload_def
        del: from_le.simps)
qed

text \<open>An AEAD for the witness: the tag is 16 zero bytes.\<close>

definition plain_aead :: aead where
  "plain_aead = \<lparr> aead_init = (\<lambda>_. None),
     aead_seal = (\<lambda>key iv aad pt. Inr (pt @ replicate 16 0)),
     aead_open = (\<lambda>key iv aad ct. Inr (take (length ct - 16) ct)) \<rparr>"

theorem wal_encryption_roundtrip_witness:
  "\<exists>ring' out. WalEncryption_encrypt plain_aead (\<lambda>_. Inr []) (KeyRing_new 3) (replicate 12 9) 0 7 [5]
       = (ring', Inr out) \<and>
     PayloadEncryption_peek out = Encrypted 3 \<and>
     snd (WalEncryption_decrypt plain_aead (\<lambda>_. Inr [])
       (fst (rotate_to plain_aead (\<lambda>_. Inr []) (KeyRing_new 3) 4)) 0 7 out) = Inr [5]"
proof -
  have law: "aead_law plain_aead"
    by (auto simp: aead_law_def plain_aead_def AES_GCM_TAG_LEN_def)
  obtain ring' out where
    e: "WalEncryption_encrypt plain_aead (\<lambda>_. Inr []) (KeyRing_new 3) (replicate 12 9) 0 7 [5]
       = (ring', Inr out)"
    by (simp add: WalEncryption_encrypt_def current_cipher_def cipher_for_version_def
        KeyRing_new_def plain_aead_def cipher_encrypt_def Let_def)
  have "length (replicate 12 (9 :: u8)) = AES_GCM_IV_LEN" by (simp add: AES_GCM_IV_LEN_def)
  from wal_encryption_roundtrip [OF law ring_ok_new rotate_to_ok [OF ring_ok_new] this e]
  have "PayloadEncryption_peek out = Encrypted 3 \<and>
     snd (WalEncryption_decrypt plain_aead (\<lambda>_. Inr [])
       (fst (rotate_to plain_aead (\<lambda>_. Inr []) (KeyRing_new 3) 4)) 0 7 out) = Inr [5]"
    by (simp add: KeyRing_new_def)
  with e show ?thesis by blast
qed

end
