(* ===== verification/Wal_Recovery.thy ===== *)
theory Wal_Recovery
  imports Wal_Segment Wal_Encryption
begin

text \<open>
  The recovery reader of \<open>arcgraph-storage/src/wal/recovery.rs\<close> with \<open>truncate_torn_tail\<close>. The loop
  of \<open>next\<close> is split into its turns: a turn advances to the next segment, decodes one record, skips a
  reserved one, or ends. \<open>reader_loop\<close> repeats turns (it terminates because every
  turn that continues either takes a segment off the list or consumes at least 44 bytes) and
  \<open>collect_all\<close> drives the iterator. The directory is the model of \<open>Wal_Segment\<close>; the key ring
  and AEAD parameters are those of \<open>Wal_Encryption\<close>.
\<close>

section \<open>Reader\<close>

record TornTail =
  tt_segment :: nat
  tt_offset :: nat

record SegmentBuffer =
  sb_seg_no :: nat
  sb_bytes :: bytes
  sb_cursor :: nat

record WalRecoveryReader =
  rd_dir :: wal_dir
  rd_remaining_segments :: "nat list"
  rd_current :: "SegmentBuffer option"
  rd_last_lsn :: Lsn
  rd_torn_tail :: "TornTail option"
  rd_done :: bool
  rd_encryption :: "KeyRing option"

definition truncate_torn_tail :: "wal_dir \<Rightarrow> TornTail \<Rightarrow> wal_dir \<times> (ArcGraphError + unit)" where
  "truncate_torn_tail d tail =
     (case map_of d (tt_segment tail) of
        None \<Rightarrow> (d, Inl (Io ''not found''))
      | Some f \<Rightarrow> (set_file (tt_segment tail) (set_len (tt_offset tail) f) d, Inr ()))"

definition buffer_remaining :: "SegmentBuffer \<Rightarrow> nat" where
  "buffer_remaining b = length (sb_bytes b) - sb_cursor b"

definition advance_segment :: "WalRecoveryReader \<Rightarrow> WalRecoveryReader \<times> (ArcGraphError + unit)" where
  "advance_segment r =
     (if rd_remaining_segments r = [] then (r\<lparr>rd_current := None\<rparr>, Inr ())
      else
        let seg_no = last (rd_remaining_segments r);
            r = r\<lparr>rd_remaining_segments := butlast (rd_remaining_segments r)\<rparr> in
        (case map_of (rd_dir r) seg_no of
           None \<Rightarrow> (r, Inl (Io ''not found''))
         | Some bs \<Rightarrow>
             if length bs < SegmentHeader_SIZE \<and> rd_remaining_segments r = [] then
               (r\<lparr>rd_torn_tail := Some \<lparr> tt_segment = seg_no, tt_offset = 0 \<rparr>,
                  rd_done := True, rd_current := None\<rparr>, Inr ())
             else
               (case SegmentHeader_decode (take SegmentHeader_SIZE bs) of
                  Inl e \<Rightarrow> (r, Inl e)
                | Inr _ \<Rightarrow>
                    (r\<lparr>rd_current := Some \<lparr> sb_seg_no = seg_no, sb_bytes = bs,
                                             sb_cursor = SegmentHeader_SIZE \<rparr>\<rparr>, Inr ()))))"

definition WalRecoveryReader_open ::
  "KeyRing option \<Rightarrow> wal_dir \<Rightarrow> WalRecoveryReader \<times> (ArcGraphError + unit)" where
  "WalRecoveryReader_open encryption d =
     (let me = \<lparr> rd_dir = d, rd_remaining_segments = rev (map fst d), rd_current = None,
                 rd_last_lsn = Lsn_ZERO, rd_torn_tail = None, rd_done = False,
                 rd_encryption = encryption \<rparr>
      in advance_segment me)"

datatype DecodeOutcome =
    Record WalRecord nat
  | Reserved u8 nat Lsn
  | Truncated
  | Failure ArcGraphError

definition decode_outcome :: "(bytes \<Rightarrow> u32) \<Rightarrow> bytes \<Rightarrow> DecodeOutcome" where
  "decode_outcome crc remaining =
     (case WalRecord_decode crc remaining of
        Inr (rec, consumed) \<Rightarrow> Record rec consumed
      | Inl (WalRecordTypeReserved b) \<Rightarrow>
          Reserved b (unat (from_le (buf_get 4 4 remaining) :: u32))
            (from_le (buf_get 20 8 remaining))
      | Inl (InvalidRecordLength g e) \<Rightarrow> Truncated
      | Inl (WalCorruption l why) \<Rightarrow>
          if length remaining \<ge> WAL_HEADER_SIZE \<and> buf_get 4 4 remaining = [0, 0, 0, 0]
          then Truncated else Failure (WalCorruption l why)
      | Inl e \<Rightarrow> Failure e)"

text \<open>Decryption on yield: plaintext payloads pass through; an encrypted one needs the ring.\<close>

definition decrypt_on_yield ::
  "aead \<Rightarrow> (u16 \<Rightarrow> string + bytes) \<Rightarrow> KeyRing option \<Rightarrow> nat \<Rightarrow> WalRecord \<Rightarrow>
     KeyRing option \<times> (ArcGraphError + WalRecord)" where
  "decrypt_on_yield A provider encryption seg_no rec =
     (case PayloadEncryption_peek (wr_payload rec) of
        Clear \<Rightarrow> (encryption, Inr rec)
      | Encrypted v \<Rightarrow>
          (case encryption of
             Some ring \<Rightarrow>
               (case WalEncryption_decrypt A provider ring (word_of_nat seg_no) (wr_lsn rec)
                       (wr_payload rec) of
                  (ring', Inr pt) \<Rightarrow> (Some ring', Inr (rec\<lparr>wr_payload := pt\<rparr>))
                | (ring', Inl e) \<Rightarrow> (Some ring', Inl e))
           | None \<Rightarrow>
               (None, Inl (WalDecryptionFailed (wr_lsn rec) v
                 ''WalRecoveryReader has no encryption config''))))"

datatype 'a turn = Continue | Return 'a

definition bump_lsn :: "Lsn \<Rightarrow> Lsn \<Rightarrow> Lsn" where
  "bump_lsn lsn last_lsn = (if lsn > last_lsn then lsn else last_lsn)"

definition consume :: "SegmentBuffer \<Rightarrow> nat \<Rightarrow> Lsn \<Rightarrow> WalRecoveryReader \<Rightarrow> WalRecoveryReader" where
  "consume b n lsn r =
     r\<lparr>rd_current := Some (b\<lparr>sb_cursor := sb_cursor b + n\<rparr>),
       rd_last_lsn := bump_lsn lsn (rd_last_lsn r)\<rparr>"

definition decode_turn ::
  "(bytes \<Rightarrow> u32) \<Rightarrow> aead \<Rightarrow> (u16 \<Rightarrow> string + bytes) \<Rightarrow> SegmentBuffer \<Rightarrow> WalRecoveryReader \<Rightarrow>
     WalRecoveryReader \<times> (ArcGraphError + WalRecord) option turn" where
  "decode_turn crc A provider b r =
     (case decode_outcome crc (drop (sb_cursor b) (sb_bytes b)) of
        Record rec consumed \<Rightarrow>
          let r = consume b consumed (wr_lsn rec) r in
          (case decrypt_on_yield A provider (rd_encryption r) (sb_seg_no b) rec of
             (enc, Inr rec') \<Rightarrow> (r\<lparr>rd_encryption := enc\<rparr>, Return (Some (Inr rec')))
           | (enc, Inl e) \<Rightarrow> (r\<lparr>rd_encryption := enc, rd_done := True\<rparr>, Return (Some (Inl e))))
      | Reserved ty consumed lsn \<Rightarrow> (consume b consumed lsn r, Continue)
      | Truncated \<Rightarrow>
          if rd_remaining_segments r = [] then
            (r\<lparr>rd_torn_tail := Some \<lparr> tt_segment = sb_seg_no b, tt_offset = sb_cursor b \<rparr>,
               rd_done := True\<rparr>, Return None)
          else
            (r\<lparr>rd_done := True\<rparr>,
             Return (Some (Inl (WalCorruption Lsn_ZERO ''truncated record in non-terminal segment''))))
      | Failure e \<Rightarrow> (r\<lparr>rd_done := True\<rparr>, Return (Some (Inl e))))"

definition advance_turn ::
  "WalRecoveryReader \<Rightarrow> WalRecoveryReader \<times> (ArcGraphError + WalRecord) option turn" where
  "advance_turn r =
     (case advance_segment r of
        (r', Inl e) \<Rightarrow> (r'\<lparr>rd_done := True\<rparr>, Return (Some (Inl e)))
      | (r', Inr _) \<Rightarrow>
          if rd_current r' = None then (r'\<lparr>rd_done := True\<rparr>, Return None) else (r', Continue))"

definition next_turn ::
  "(bytes \<Rightarrow> u32) \<Rightarrow> aead \<Rightarrow> (u16 \<Rightarrow> string + bytes) \<Rightarrow> WalRecoveryReader \<Rightarrow>
     WalRecoveryReader \<times> (ArcGraphError + WalRecord) option turn" where
  "next_turn crc A provider r =
     (case rd_current r of
        None \<Rightarrow> advance_turn r
      | Some b \<Rightarrow> if buffer_remaining b = 0 then advance_turn r else decode_turn crc A provider b r)"

section \<open>Termination of the loop\<close>

definition reader_size :: "WalRecoveryReader \<Rightarrow> nat \<times> nat" where
  "reader_size r =
     (length (rd_remaining_segments r),
      case rd_current r of None \<Rightarrow> 0 | Some b \<Rightarrow> buffer_remaining b)"

definition reader_less :: "(WalRecoveryReader \<times> WalRecoveryReader) set" where
  "reader_less = inv_image (less_than <*lex*> less_than) reader_size"

lemma wf_reader_less: "wf reader_less"
  by (simp add: reader_less_def wf_lex_prod)

lemma reader_less_trans: "(a, b) \<in> reader_less \<Longrightarrow> (b, c) \<in> reader_less \<Longrightarrow> (a, c) \<in> reader_less"
  by (auto simp: reader_less_def reader_size_def)

lemma advance_turn_less:
  "advance_turn r = (r', Continue) \<Longrightarrow> (r', r) \<in> reader_less"
  by (cases "rd_remaining_segments r" rule: rev_cases)
    (auto simp: advance_turn_def advance_segment_def reader_less_def reader_size_def Let_def
      split: prod.splits sum.splits option.splits if_splits)

lemma decode_consumes:
  "WalRecord_decode crc bs = Inr (rec, n) \<Longrightarrow> 44 \<le> n \<and> n \<le> length bs"
  using decode_Inr_fields(1,2) by blast

lemma decode_reserved_consumes:
  "WalRecord_decode crc bs = Inl (WalRecordTypeReserved ty) \<Longrightarrow>
     44 \<le> unat (from_le (buf_get 4 4 bs) :: u32) \<and>
     unat (from_le (buf_get 4 4 bs) :: u32) \<le> length bs"
  by (auto simp: WalRecord_decode_def Let_def WAL_HEADER_SIZE_def split: if_splits)

lemma outcome_consumes:
  "decode_outcome crc bs = Record rec n \<or> decode_outcome crc bs = Reserved ty n l \<Longrightarrow>
     44 \<le> n \<and> n \<le> length bs"
  by (auto simp: decode_outcome_def dest!: decode_consumes decode_reserved_consumes
      split: sum.splits prod.splits ArcGraphError.splits if_splits)

lemma consume_less:
  assumes "44 \<le> n" "n \<le> length (drop (sb_cursor b) (sb_bytes b))" "rd_current r = Some b"
  shows "(consume b n l r, r) \<in> reader_less"
  using assms by (auto simp: reader_less_def reader_size_def consume_def buffer_remaining_def)

lemma decode_turn_less:
  assumes "decode_turn crc A provider b r = (r', t)" "rd_current r = Some b"
    "t = Continue \<or> (\<exists>rec. t = Return (Some (Inr rec)))"
  shows "(r', r) \<in> reader_less"
proof (cases "decode_outcome crc (drop (sb_cursor b) (sb_bytes b))")
  case (Record rec n)
  have less: "(consume b n (wr_lsn rec) r, r) \<in> reader_less"
    using consume_less outcome_consumes Record assms(2) by blast
  have "\<exists>enc. r' = (consume b n (wr_lsn rec) r)\<lparr>rd_encryption := enc\<rparr>"
    using assms Record by (auto simp: decode_turn_def Let_def split: prod.splits sum.splits)
  with less show ?thesis by (auto simp: reader_less_def reader_size_def)
next
  case (Reserved ty n l)
  have "r' = consume b n l r" using assms Reserved by (auto simp: decode_turn_def)
  then show ?thesis using consume_less outcome_consumes Reserved assms(2) by blast
next
  case Truncated
  with assms show ?thesis by (auto simp: decode_turn_def split: if_splits)
next
  case (Failure e)
  with assms show ?thesis by (auto simp: decode_turn_def)
qed

lemma next_turn_less:
  assumes "next_turn crc A provider r = (r', t)"
    "t = Continue \<or> (\<exists>rec. t = Return (Some (Inr rec)))"
  shows "(r', r) \<in> reader_less"
proof -
  have adv: "(r', r) \<in> reader_less" if "advance_turn r = (r', t)"
  proof -
    from that assms(2) have "t = Continue"
      by (auto simp: advance_turn_def split: prod.splits sum.splits if_splits)
    with that show ?thesis using advance_turn_less by blast
  qed
  show ?thesis
    using assms adv decode_turn_less
    by (auto simp: next_turn_def split: option.splits if_splits)
qed

function reader_loop ::
  "(bytes \<Rightarrow> u32) \<Rightarrow> aead \<Rightarrow> (u16 \<Rightarrow> string + bytes) \<Rightarrow> WalRecoveryReader \<Rightarrow>
     WalRecoveryReader \<times> (ArcGraphError + WalRecord) option" where
  "reader_loop crc A provider r =
     (case next_turn crc A provider r of
        (r', Return x) \<Rightarrow> (r', x)
      | (r', Continue) \<Rightarrow> reader_loop crc A provider r')"
  by pat_completeness auto
termination
  by (relation "inv_image reader_less (\<lambda>(_, _, _, r). r)")
    (auto simp: wf_reader_less intro: next_turn_less dest: sym)

declare reader_loop.simps [simp del]

definition reader_next ::
  "(bytes \<Rightarrow> u32) \<Rightarrow> aead \<Rightarrow> (u16 \<Rightarrow> string + bytes) \<Rightarrow> WalRecoveryReader \<Rightarrow>
     WalRecoveryReader \<times> (ArcGraphError + WalRecord) option" where
  "reader_next crc A provider r = (if rd_done r then (r, None) else reader_loop crc A provider r)"

lemma reader_loop_less:
  "reader_loop crc A provider r = (r', Some (Inr rec)) \<Longrightarrow> (r', r) \<in> reader_less"
proof (induction crc A provider r rule: reader_loop.induct)
  case (1 crc A provider r)
  obtain r1 t where t: "next_turn crc A provider r = (r1, t)" by fastforce
  show ?case
  proof (cases t)
    case Continue
    with "1.prems" t have "reader_loop crc A provider r1 = (r', Some (Inr rec))"
      by (subst (asm) reader_loop.simps) simp
    with "1.IH" t Continue have "(r', r1) \<in> reader_less" by simp
    moreover have "(r1, r) \<in> reader_less" using next_turn_less t Continue by blast
    ultimately show ?thesis
      by (rule reader_less_trans)
  next
    case (Return x)
    with "1.prems" t have "r1 = r'" "x = Some (Inr rec)"
      by (subst (asm) reader_loop.simps, simp)+
    with t Return next_turn_less show ?thesis by blast
  qed
qed

text \<open>\<open>collect_all\<close>: every record up to the first error, together with the reader it leaves.\<close>

function collect_all ::
  "(bytes \<Rightarrow> u32) \<Rightarrow> aead \<Rightarrow> (u16 \<Rightarrow> string + bytes) \<Rightarrow> WalRecoveryReader \<Rightarrow>
     WalRecoveryReader \<times> (ArcGraphError + WalRecord list)" where
  "collect_all crc A provider r =
     (case reader_next crc A provider r of
        (r', None) \<Rightarrow> (r', Inr [])
      | (r', Some (Inl e)) \<Rightarrow> (r', Inl e)
      | (r', Some (Inr rec)) \<Rightarrow>
          (case collect_all crc A provider r' of
             (r'', Inr rs) \<Rightarrow> (r'', Inr (rec # rs))
           | (r'', Inl e) \<Rightarrow> (r'', Inl e)))"
  by pat_completeness auto
termination
  by (relation "inv_image reader_less (\<lambda>(_, _, _, r). r)")
    (auto simp: wf_reader_less reader_next_def intro: reader_loop_less dest: sym split: if_splits)

declare collect_all.simps [simp del]

text \<open>Recovery of a directory: open the reader and collect.\<close>

definition recover_records ::
  "(bytes \<Rightarrow> u32) \<Rightarrow> aead \<Rightarrow> (u16 \<Rightarrow> string + bytes) \<Rightarrow> KeyRing option \<Rightarrow> wal_dir \<Rightarrow>
     WalRecoveryReader \<times> (ArcGraphError + WalRecord list)" where
  "recover_records crc A provider encryption d =
     (case WalRecoveryReader_open encryption d of
        (r, Inl e) \<Rightarrow> (r, Inl e)
      | (r, Inr _) \<Rightarrow> collect_all crc A provider r)"

section \<open>Reading back what was written\<close>

text \<open>A reader standing in a buffer whose unread bytes are \<open>bs\<close>.\<close>

definition at_bytes :: "WalRecoveryReader \<Rightarrow> SegmentBuffer \<Rightarrow> bytes \<Rightarrow> bool" where
  "at_bytes r b bs \<longleftrightarrow> \<not> rd_done r \<and> rd_current r = Some b \<and>
     sb_cursor b \<le> length (sb_bytes b) \<and> drop (sb_cursor b) (sb_bytes b) = bs"

text \<open>A record as recovery expects it when nothing is encrypted.\<close>

definition clear_record :: "WalRecord \<Rightarrow> bool" where
  "clear_record r \<longleftrightarrow> length (wr_payload r) \<le> MAX_PAYLOAD_LEN \<and>
     PayloadEncryption_peek (wr_payload r) = Clear"

text \<open>The greatest of an LSN and the LSNs of some records.\<close>

definition max_lsn :: "Lsn \<Rightarrow> WalRecord list \<Rightarrow> Lsn" where
  "max_lsn l rs = Max (insert l (wr_lsn ` set rs))"

lemma max_lsn_Nil [simp]: "max_lsn l [] = l"
  by (simp add: max_lsn_def)

lemma bump_lsn_max: "bump_lsn lsn last_lsn = max last_lsn lsn"
  by (auto simp: bump_lsn_def max_def)

lemma max_lsn_Cons: "max_lsn l (r # rs) = max_lsn (bump_lsn (wr_lsn r) l) rs"
  by (cases "rs = []") (simp_all add: max_lsn_def bump_lsn_max max.assoc insert_commute)

lemma max_lsn_append: "max_lsn l (xs @ ys) = max_lsn (max_lsn l xs) ys"
  by (induction xs arbitrary: l) (simp_all add: max_lsn_Cons)

definition prepend_records ::
  "WalRecord list \<Rightarrow> WalRecoveryReader \<times> (ArcGraphError + WalRecord list) \<Rightarrow>
     WalRecoveryReader \<times> (ArcGraphError + WalRecord list)" where
  "prepend_records rs p = (case p of (r, Inr xs) \<Rightarrow> (r, Inr (rs @ xs)) | (r, Inl e) \<Rightarrow> (r, Inl e))"

lemma prepend_Nil [simp]: "prepend_records [] p = p"
  by (auto simp: prepend_records_def split: prod.splits sum.splits)

lemma prepend_prepend [simp]: "prepend_records xs (prepend_records ys p) = prepend_records (xs @ ys) p"
  by (auto simp: prepend_records_def split: prod.splits sum.splits)

lemma at_bytes_remaining: "at_bytes r b bs \<Longrightarrow> buffer_remaining b = length bs"
  by (auto simp: at_bytes_def buffer_remaining_def)

lemma next_record:
  assumes at: "at_bytes r b (record_bytes crc x @ rest)" and x: "clear_record x"
  shows "reader_next crc A P r = (consume b (encoded_len x) (wr_lsn x) r, Some (Inr x))"
    and "at_bytes (consume b (encoded_len x) (wr_lsn x) r)
      (b\<lparr>sb_cursor := sb_cursor b + encoded_len x\<rparr>) rest"
proof -
  have out: "decode_outcome crc (drop (sb_cursor b) (sb_bytes b)) = Record x (encoded_len x)"
    using at x by (simp add: at_bytes_def decode_outcome_def decode_record_bytes clear_record_def)
  have "buffer_remaining b \<noteq> 0" using at_bytes_remaining [OF at] encoded_len_ge [of x] by simp
  then have "next_turn crc A P r =
      ((consume b (encoded_len x) (wr_lsn x) r)\<lparr>rd_encryption := rd_encryption r\<rparr>,
       Return (Some (Inr x)))"
    using at x out
    by (simp add: next_turn_def at_bytes_def decode_turn_def decrypt_on_yield_def clear_record_def
        consume_def)
  then show "reader_next crc A P r = (consume b (encoded_len x) (wr_lsn x) r, Some (Inr x))"
    using at by (simp add: reader_next_def at_bytes_def reader_loop.simps [of crc A P r] consume_def)
  have d: "drop (sb_cursor b) (sb_bytes b) = record_bytes crc x @ rest"
    using at by (simp add: at_bytes_def)
  then have "drop (encoded_len x) (drop (sb_cursor b) (sb_bytes b)) = rest" by simp
  moreover have "length (sb_bytes b) - sb_cursor b = encoded_len x + length rest"
    using arg_cong [OF d, of length] by simp
  then have "encoded_len x + sb_cursor b \<le> length (sb_bytes b)"
    using at by (auto simp: at_bytes_def)
  ultimately show "at_bytes (consume b (encoded_len x) (wr_lsn x) r)
      (b\<lparr>sb_cursor := sb_cursor b + encoded_len x\<rparr>) rest"
    using at by (simp add: at_bytes_def consume_def add.commute)
qed

lemma collect_step:
  "reader_next crc A P r = (r', Some (Inr x)) \<Longrightarrow>
     collect_all crc A P r = prepend_records [x] (collect_all crc A P r')"
  by (subst collect_all.simps) (auto simp: prepend_records_def split: prod.splits sum.splits)

text \<open>Reading a run of records: the cursor ends behind them and the last LSN is their maximum.\<close>

definition skip_records :: "SegmentBuffer \<Rightarrow> WalRecord list \<Rightarrow> WalRecoveryReader \<Rightarrow> WalRecoveryReader" where
  "skip_records b rs r =
     r\<lparr>rd_current := Some (b\<lparr>sb_cursor := sb_cursor b + sum_list (map encoded_len rs)\<rparr>),
       rd_last_lsn := max_lsn (rd_last_lsn r) rs\<rparr>"

lemma collect_records:
  assumes "at_bytes r b (batch_bytes crc rs @ rest)" "\<forall>x \<in> set rs. clear_record x"
  shows "collect_all crc A P r = prepend_records rs (collect_all crc A P (skip_records b rs r))"
    and "at_bytes (skip_records b rs r)
      (b\<lparr>sb_cursor := sb_cursor b + sum_list (map encoded_len rs)\<rparr>) rest"
proof -
  have "collect_all crc A P r = prepend_records rs (collect_all crc A P (skip_records b rs r)) \<and>
    at_bytes (skip_records b rs r)
      (b\<lparr>sb_cursor := sb_cursor b + sum_list (map encoded_len rs)\<rparr>) rest"
    using assms
  proof (induction rs arbitrary: r b)
    case Nil
    then have "skip_records b [] r = r"
      by (simp add: skip_records_def at_bytes_def)
    with Nil show ?case by (simp add: batch_bytes_def)
  next
    case (Cons x rs)
    let ?r1 = "consume b (encoded_len x) (wr_lsn x) r"
    let ?b1 = "b\<lparr>sb_cursor := sb_cursor b + encoded_len x\<rparr>"
    have at: "at_bytes r b (record_bytes crc x @ (batch_bytes crc rs @ rest))"
      using Cons.prems(1) by (simp add: batch_bytes_def)
    have x: "clear_record x" using Cons.prems(2) by simp
    note nx = next_record [OF at x]
    have skip: "skip_records ?b1 rs ?r1 = skip_records b (x # rs) r"
      by (simp add: skip_records_def consume_def max_lsn_Cons add.assoc)
    show ?case
      using Cons.IH [OF nx(2)] Cons.prems(2) collect_step [OF nx(1)]
      by (simp add: skip add.assoc)
  qed
  then show "collect_all crc A P r = prepend_records rs (collect_all crc A P (skip_records b rs r))"
    and "at_bytes (skip_records b rs r)
      (b\<lparr>sb_cursor := sb_cursor b + sum_list (map encoded_len rs)\<rparr>) rest"
    by simp_all
qed

text \<open>The end of a segment: the reader moves on to the next one, or stops in the last.\<close>

lemma collect_at_end:
  assumes "at_bytes r b []"
  shows "collect_all crc A P r =
    (case advance_turn r of
       (r', Return None) \<Rightarrow> (r', Inr [])
     | (r', Return (Some (Inl e))) \<Rightarrow> (r', Inl e)
     | (r', Return (Some (Inr x))) \<Rightarrow> prepend_records [x] (collect_all crc A P r')
     | (r', Continue) \<Rightarrow> (if rd_done r' then (r', Inr []) else collect_all crc A P r'))"
proof -
  have turn: "next_turn crc A P r = advance_turn r"
    using assms at_bytes_remaining [OF assms] by (simp add: next_turn_def at_bytes_def)
  have nd: "\<not> rd_done r" using assms by (simp add: at_bytes_def)
  obtain r' t where t: "advance_turn r = (r', t)" by fastforce
  show ?thesis
  proof (cases t)
    case Continue
    have done': "rd_done r' = rd_done r"
      using t Continue by (auto simp: advance_turn_def advance_segment_def Let_def
          split: prod.splits sum.splits option.splits if_splits)
    have "reader_next crc A P r = reader_next crc A P r'"
      using nd turn t Continue done'
      by (simp add: reader_next_def reader_loop.simps [of crc A P r])
    then have "collect_all crc A P r = collect_all crc A P r'"
      by (subst (1 2) collect_all.simps) simp
    with t Continue done' nd show ?thesis by simp
  next
    case (Return x)
    then have n: "reader_next crc A P r = (r', x)"
      using nd turn t by (simp add: reader_next_def reader_loop.simps [of crc A P r])
    show ?thesis
      using t Return n by (subst collect_all.simps)
        (auto simp: prepend_records_def split: option.splits sum.splits prod.splits)
  qed
qed

lemma advance_to_segment:
  assumes "rd_remaining_segments r = segs @ [n]" "map_of (rd_dir r) n = Some f"
    "SegmentHeader_decode (take 8 f) = Inr v" "8 \<le> length f"
  shows "advance_segment r =
    (r\<lparr>rd_remaining_segments := segs,
       rd_current := Some \<lparr> sb_seg_no = n, sb_bytes = f, sb_cursor = 8 \<rparr>\<rparr>, Inr ())"
  using assms by (simp add: advance_segment_def Let_def SegmentHeader_SIZE_def)

lemma seg_holds_header:
  assumes "seg_holds crc f rs"
  obtains v where "SegmentHeader_decode (take 8 (f @ t)) = Inr v" "8 \<le> length f"
    "drop 8 f = batch_bytes crc rs" "8 + sum_list (map encoded_len rs) = length f"
proof -
  obtain v where v: "v \<in> set SUPPORTED_WAL_FORMAT_VERSIONS" "f = seg_bytes crc v rs"
    using assms by (auto simp: seg_holds_def)
  have len: "length (concat (map (record_bytes crc) rs)) = sum_list (map encoded_len rs)"
    by (simp add: length_concat comp_def)
  have "SegmentHeader_decode (take 8 (f @ t)) = Inr v"
    using v SegmentHeader_decode_encode [of v "[]"] by (simp add: seg_bytes_def)
  moreover have "8 \<le> length f" "drop 8 f = batch_bytes crc rs"
    "8 + sum_list (map encoded_len rs) = length f"
    using v len by (simp_all add: seg_bytes_def batch_bytes_def)
  ultimately show thesis by (rule that)
qed

text \<open>Bytes at the end of the last segment that recovery takes for a torn tail.\<close>

definition torn_bytes :: "(bytes \<Rightarrow> u32) \<Rightarrow> bytes \<Rightarrow> bool" where
  "torn_bytes crc t \<longleftrightarrow> t = [] \<or> decode_outcome crc t = Truncated"

definition tail_of :: "nat \<Rightarrow> nat \<Rightarrow> bytes \<Rightarrow> TornTail option" where
  "tail_of n off t = (if t = [] then None else Some \<lparr> tt_segment = n, tt_offset = off \<rparr>)"

lemma collect_terminal:
  assumes at: "at_bytes r b t" and torn: "torn_bytes crc t" and last: "rd_remaining_segments r = []"
    and none: "rd_torn_tail r = None"
  shows "\<exists>r'. collect_all crc A P r = (r', Inr []) \<and> rd_last_lsn r' = rd_last_lsn r \<and>
    rd_torn_tail r' = tail_of (sb_seg_no b) (sb_cursor b) t"
proof (cases "t = []")
  case True
  have "advance_turn r = (r\<lparr>rd_current := None, rd_done := True\<rparr>, Return None)"
    using last by (simp add: advance_turn_def advance_segment_def)
  with collect_at_end [of r b crc A P] at True none show ?thesis
    by (simp add: tail_of_def)
next
  case False
  have "next_turn crc A P r =
      (r\<lparr>rd_torn_tail := Some \<lparr> tt_segment = sb_seg_no b, tt_offset = sb_cursor b \<rparr>,
         rd_done := True\<rparr>, Return None)"
    using at torn last False at_bytes_remaining [OF at]
    by (simp add: next_turn_def decode_turn_def at_bytes_def torn_bytes_def)
  then have "reader_next crc A P r =
      (r\<lparr>rd_torn_tail := Some \<lparr> tt_segment = sb_seg_no b, tt_offset = sb_cursor b \<rparr>,
         rd_done := True\<rparr>, None)"
    using at by (simp add: reader_next_def at_bytes_def reader_loop.simps [of crc A P r])
  then show ?thesis
    using False by (subst collect_all.simps) (simp add: tail_of_def)
qed

text \<open>A directory with extra bytes \<open>t\<close> at the end of its last segment.\<close>

definition with_tail :: "wal_dir \<Rightarrow> bytes \<Rightarrow> wal_dir" where
  "with_tail ds t = butlast ds @ [(fst (last ds), snd (last ds) @ t)]"

lemma with_tail_Cons: "ds \<noteq> [] \<Longrightarrow> with_tail (x # ds) t = x # with_tail ds t"
  by (simp add: with_tail_def)

lemma map_fst_with_tail [simp]: "ds \<noteq> [] \<Longrightarrow> map fst (with_tail ds t) = map fst ds"
  by (induction ds rule: rev_induct) (auto simp: with_tail_def)

lemma open_segment:
  assumes rem: "rd_remaining_segments r = segs @ [n]" and fl: "map_of (rd_dir r) n = Some (f @ t)"
    and holds: "seg_holds crc f rs" and nd: "\<not> rd_done r"
  shows "\<exists>r1 b. advance_segment r = (r1, Inr ()) \<and> at_bytes r1 b (batch_bytes crc rs @ t) \<and>
    r1 = r\<lparr>rd_remaining_segments := segs, rd_current := Some b\<rparr> \<and> sb_seg_no b = n \<and>
    sb_cursor b + sum_list (map encoded_len rs) = length f"
proof -
  obtain v where v: "SegmentHeader_decode (take 8 (f @ t)) = Inr v" "8 \<le> length f"
    "drop 8 f = batch_bytes crc rs" "8 + sum_list (map encoded_len rs) = length f"
    using seg_holds_header [OF holds] by blast
  show ?thesis
    using advance_to_segment [OF rem fl v(1)] v nd by (auto simp: at_bytes_def)
qed

lemma collect_next_segment:
  assumes at: "at_bytes r b []" and adv: "advance_segment r = (r1, Inr ())"
    and cur: "rd_current r1 \<noteq> None" and nd: "\<not> rd_done r1"
  shows "collect_all crc A P r = collect_all crc A P r1"
  using collect_at_end [OF at, of crc A P] adv cur nd by (simp add: advance_turn_def)

lemma collect_dir:
  assumes "ds \<noteq> []" "list_all2 (\<lambda>(n, f) rs. seg_holds crc f rs) ds rss"
    "\<forall>x \<in> set (concat rss). clear_record x" "torn_bytes crc t"
    "rd_remaining_segments r = rev (map fst ds)" "\<not> rd_done r" "rd_torn_tail r = None"
    "\<And>n g. (n, g) \<in> set (with_tail ds t) \<Longrightarrow> map_of (rd_dir r) n = Some g"
  shows "\<exists>r1 r'. advance_segment r = (r1, Inr ()) \<and> rd_current r1 \<noteq> None \<and> \<not> rd_done r1 \<and>
    collect_all crc A P r1 = (r', Inr (concat rss)) \<and>
    rd_last_lsn r' = max_lsn (rd_last_lsn r) (concat rss) \<and>
    rd_torn_tail r' = tail_of (fst (last ds)) (length (snd (last ds))) t"
  using assms
proof (induction ds arbitrary: r rss)
  case Nil
  then show ?case by simp
next
  case (Cons d ds)
  obtain n f where d: "d = (n, f)" by fastforce
  obtain rs rss' where rss: "rss = rs # rss'" "seg_holds crc f rs"
    "list_all2 (\<lambda>(n, f) rs. seg_holds crc f rs) ds rss'"
    using Cons.prems(2) by (auto simp: d list_all2_Cons1)
  let ?t = "if ds = [] then t else []"
  have fl: "map_of (rd_dir r) n = Some (f @ ?t)"
    using Cons.prems(8) [of n "f @ ?t"] by (auto simp: d with_tail_def)
  have rem: "rd_remaining_segments r = rev (map fst ds) @ [n]" using Cons.prems(5) by (simp add: d)
  obtain r1 b where adv: "advance_segment r = (r1, Inr ())"
    and at: "at_bytes r1 b (batch_bytes crc rs @ ?t)"
    and r1: "r1 = r\<lparr>rd_remaining_segments := rev (map fst ds), rd_current := Some b\<rparr>"
    and b: "sb_seg_no b = n" "sb_cursor b + sum_list (map encoded_len rs) = length f"
    using open_segment [OF rem fl rss(2) Cons.prems(6)] by blast
  have clear: "\<forall>x \<in> set rs. clear_record x" using Cons.prems(3) by (simp add: rss(1))
  let ?r2 = "skip_records b rs r1"
  let ?b2 = "b\<lparr>sb_cursor := sb_cursor b + sum_list (map encoded_len rs)\<rparr>"
  note col = collect_records [OF at clear]
  have r2: "rd_remaining_segments ?r2 = rev (map fst ds)" "\<not> rd_done ?r2"
    "rd_torn_tail ?r2 = None" "rd_dir ?r2 = rd_dir r"
    "rd_last_lsn ?r2 = max_lsn (rd_last_lsn r) rs"
    using Cons.prems(6,7) by (simp_all add: skip_records_def r1)
  have r1_ok: "rd_current r1 \<noteq> None" "\<not> rd_done r1"
    using Cons.prems(6) by (simp_all add: r1)
  have rest: "\<exists>r'. collect_all crc A P ?r2 = (r', Inr (concat rss')) \<and>
    rd_last_lsn r' = max_lsn (rd_last_lsn ?r2) (concat rss') \<and>
    rd_torn_tail r' = tail_of (fst (last (d # ds))) (length (snd (last (d # ds)))) t"
  proof (cases "ds = []")
    case True
    then have "rss' = []" using rss(3) by simp
    with True col(2) r2 b collect_terminal [of ?r2 ?b2 t crc A P] Cons.prems(4) show ?thesis
      by (simp add: d)
  next
    case False
    have "\<exists>r3 r'. advance_segment ?r2 = (r3, Inr ()) \<and> rd_current r3 \<noteq> None \<and> \<not> rd_done r3 \<and>
      collect_all crc A P r3 = (r', Inr (concat rss')) \<and>
      rd_last_lsn r' = max_lsn (rd_last_lsn ?r2) (concat rss') \<and>
      rd_torn_tail r' = tail_of (fst (last ds)) (length (snd (last ds))) t"
      by (rule Cons.IH [OF False rss(3) _ Cons.prems(4) r2(1-3)])
        (use Cons.prems(3,8) in \<open>auto simp: rss(1) r2(4) with_tail_Cons [OF False]\<close>)
    with False col(2) collect_next_segment [of ?r2 ?b2] show ?thesis by auto
  qed
  then obtain r' where r': "collect_all crc A P ?r2 = (r', Inr (concat rss'))"
    "rd_last_lsn r' = max_lsn (rd_last_lsn ?r2) (concat rss')"
    "rd_torn_tail r' = tail_of (fst (last (d # ds))) (length (snd (last (d # ds)))) t"
    by blast
  then have "collect_all crc A P r1 = (r', Inr (concat rss))"
    using col(1) [of A P] by (simp add: prepend_records_def rss(1))
  moreover have "rd_last_lsn r' = max_lsn (rd_last_lsn r) (concat rss)"
    using r'(2) r2(5) by (simp add: rss(1) max_lsn_append)
  ultimately show ?case using adv r1_ok r'(3) by blast
qed

section \<open>Torn tails\<close>

lemma torn_prefix:
  assumes "length (wr_payload x) \<le> MAX_PAYLOAD_LEN" "k < encoded_len x"
  shows "torn_bytes crc (take k (record_bytes crc x))"
  using decode_prefix [OF assms, of crc] by (auto simp: torn_bytes_def decode_outcome_def)

lemma torn_zeros: "torn_bytes crc (replicate z 0)"
proof (cases "z < 44")
  case True
  then show ?thesis
    by (simp add: torn_bytes_def decode_outcome_def WalRecord_decode_def WAL_HEADER_SIZE_def)
next
  case False
  then have z: "buf_get 4 4 (replicate z 0) = [0, 0, 0, 0 :: u8]"
    by (simp add: buf_get_replicate numeral_eq_Suc)
  then have "(from_le (buf_get 4 4 (replicate z 0)) :: u32) = 0" by simp
  with False z show ?thesis
    by (simp add: torn_bytes_def decode_outcome_def WalRecord_decode_def WAL_HEADER_SIZE_def)
qed

text \<open>Whatever part of a batch reached the disk is some of its records and a torn tail.\<close>

lemma batch_prefix:
  assumes "\<forall>x \<in> set rs. length (wr_payload x) \<le> MAX_PAYLOAD_LEN"
  shows "\<exists>j t. take k (batch_bytes crc rs) = batch_bytes crc (take j rs) @ t \<and> torn_bytes crc t"
  using assms
proof (induction rs arbitrary: k)
  case Nil
  then show ?case by (simp add: batch_bytes_def torn_bytes_def)
next
  case (Cons x rs)
  show ?case
  proof (cases "k < encoded_len x")
    case True
    then have "take k (batch_bytes crc (x # rs)) = batch_bytes crc (take 0 (x # rs)) @
        take k (record_bytes crc x)"
      by (simp add: batch_bytes_def)
    then show ?thesis using torn_prefix True Cons.prems by (metis list.set_intros(1))
  next
    case False
    from Cons.IH [of "k - encoded_len x"] Cons.prems obtain j t where
      jt: "take (k - encoded_len x) (batch_bytes crc rs) = batch_bytes crc (take j rs) @ t"
      "torn_bytes crc t"
      by auto
    have "take k (batch_bytes crc (x # rs)) = batch_bytes crc (take (Suc j) (x # rs)) @ t"
      using False jt(1) by (simp add: batch_bytes_def)
    with jt(2) show ?thesis by blast
  qed
qed

section \<open>Recovery of a directory\<close>

lemma map_of_sorted:
  assumes "sorted_wrt (<) (map fst (d :: wal_dir))" "(n, g) \<in> set d"
  shows "map_of d n = Some g"
proof (rule map_of_is_SomeI)
  show "distinct (map fst d)"
    using assms(1) by (simp add: strict_sorted_iff)
qed (rule assms(2))

lemma recover_with_tail:
  assumes d: "dir_holds crc ds rss" "ds \<noteq> []" and clear: "\<forall>x \<in> set (concat rss). clear_record x"
    and torn: "torn_bytes crc t"
  shows "\<exists>r'. recover_records crc A P enc (with_tail ds t) = (r', Inr (concat rss)) \<and>
    rd_last_lsn r' = max_lsn Lsn_ZERO (concat rss) \<and>
    rd_torn_tail r' = tail_of (fst (last ds)) (length (snd (last ds))) t"
proof -
  let ?r = "\<lparr> rd_dir = with_tail ds t, rd_remaining_segments = rev (map fst (with_tail ds t)),
    rd_current = None, rd_last_lsn = Lsn_ZERO, rd_torn_tail = None, rd_done = False,
    rd_encryption = enc \<rparr>"
  have sorted: "sorted_wrt (<) (map fst (with_tail ds t))"
    using d by (simp add: dir_holds_def)
  have "\<exists>r1 r'. advance_segment ?r = (r1, Inr ()) \<and> rd_current r1 \<noteq> None \<and> \<not> rd_done r1 \<and>
    collect_all crc A P r1 = (r', Inr (concat rss)) \<and>
    rd_last_lsn r' = max_lsn (rd_last_lsn ?r) (concat rss) \<and>
    rd_torn_tail r' = tail_of (fst (last ds)) (length (snd (last ds))) t"
    by (rule collect_dir) (use d clear torn map_of_sorted [OF sorted] in \<open>auto simp: dir_holds_def\<close>)
  then show ?thesis
    by (auto simp: recover_records_def WalRecoveryReader_open_def)
qed

lemma with_tail_Nil: "ds \<noteq> [] \<Longrightarrow> with_tail ds [] = ds"
  by (simp add: with_tail_def)

lemma truncate_with_tail:
  assumes "dir_holds crc ds rss" "ds \<noteq> []"
  shows "truncate_torn_tail (with_tail ds t)
      \<lparr> tt_segment = fst (last ds), tt_offset = length (snd (last ds)) \<rparr> = (ds, Inr ())"
proof -
  obtain d0 n f where ds: "ds = d0 @ [(n, f)]" using assms(2) by (metis rev_exhaust surj_pair)
  have s: "sorted_wrt (<) (map fst (d0 @ [(n, f @ t)]))"
    using assms(1) by (simp add: dir_holds_def ds)
  show ?thesis
    using map_of_last [OF s] set_file_last [OF s]
    by (simp add: truncate_torn_tail_def with_tail_def ds set_len_def)
qed

text \<open>Reopening the writer on an intact directory keeps its records.\<close>

lemma reopen_inv:
  assumes d: "dir_holds crc ds rss" "ds \<noteq> []" and m: "0 < max_bytes"
  shows "\<exists>d' w rss'. SegmentWriter_open manifest ds max_bytes = Done (d', Inr w) \<and>
    writer_inv crc d' w rss' \<and> concat rss' = concat rss"
proof -
  obtain d0 n f where ds: "ds = d0 @ [(n, f)]" using d(2) by (metis rev_exhaust surj_pair)
  obtain rs0 rs where rs: "rss = rs0 @ [rs]" "seg_holds crc f rs"
    using d(1) by (auto simp: dir_holds_def ds list_all2_append1 list_all2_Cons1)
  obtain v where v: "v \<in> set SUPPORTED_WAL_FORMAT_VERSIONS" "f = seg_bytes crc v rs"
    using rs(2) by (auto simp: seg_holds_def)
  have dec: "SegmentHeader_decode (take 8 f) = Inr v" "8 \<le> length f"
    using v SegmentHeader_decode_encode [of v "[]"] by (simp_all add: seg_bytes_def)
  show ?thesis
  proof (cases "v = CURRENT_WAL_FORMAT_VERSION \<or> v = 9 \<or> v = 10")
    case True
    then show ?thesis
      using d m dec v(1)
      by (auto simp: SegmentWriter_open_def ds SegmentHeader_SIZE_def mk_writer_def writer_inv_def)
  next
    case False
    have cur: "CURRENT_WAL_FORMAT_VERSION \<in> set SUPPORTED_WAL_FORMAT_VERSIONS"
      by (simp add: CURRENT_WAL_FORMAT_VERSION_def SUPPORTED_WAL_FORMAT_VERSIONS_def)
    have "sorted_wrt (<) (map fst (ds @ [(Suc n, g)]))" for g :: bytes
      using d(1) by (auto simp: dir_holds_def ds sorted_wrt_append less_Suc_eq)
    moreover have "seg_holds crc (SegmentHeader_encode CURRENT_WAL_FORMAT_VERSION) []"
      using cur by (auto simp: seg_holds_def seg_bytes_def)
    ultimately have "dir_holds crc (ds @ [(Suc n, SegmentHeader_encode CURRENT_WAL_FORMAT_VERSION)])
        (rss @ [[]])"
      using d(1) by (simp add: dir_holds_def list_all2_appendI)
    then show ?thesis
      using False m dec cur
      by (intro exI [of _ "ds @ [(Suc n, SegmentHeader_encode CURRENT_WAL_FORMAT_VERSION)]"]
          exI [of _ "mk_writer (Suc n) 0 max_bytes CURRENT_WAL_FORMAT_VERSION"]
          exI [of _ "rss @ [[]]"])
        (simp add: SegmentWriter_open_def ds SegmentHeader_SIZE_def mk_writer_def writer_inv_def)
  qed
qed

lemma seg_holds_with_tail:
  assumes "dir_holds crc d (rss @ [rs])" "\<forall>r \<in> set rs'. length (wr_payload r) \<le> MAX_PAYLOAD_LEN"
  shows "dir_holds crc (with_tail d (batch_bytes crc rs')) (rss @ [rs @ rs'])"
proof -
  from assms(1) have "d \<noteq> []" by (auto simp: dir_holds_def)
  then obtain d0 n f where d: "d = d0 @ [(n, f)]" by (metis rev_exhaust surj_pair)
  have "list_all2 (\<lambda>(n, f) rs. seg_holds crc f rs) d0 rss" "seg_holds crc f rs"
    using assms(1) by (auto simp: dir_holds_def d list_all2_append1 list_all2_Cons1)
  then show ?thesis
    using assms(1) seg_holds_append [OF _ assms(2)]
    by (simp add: dir_holds_def d with_tail_def list_all2_appendI)
qed

lemma with_tail_with_tail: "d \<noteq> [] \<Longrightarrow> with_tail (with_tail d a) b = with_tail d (a @ b)"
  by (simp add: with_tail_def)

lemma write_batch_with_tail:
  assumes "writer_inv crc d w rss"
  shows "fst (write_batch d w bs) = with_tail d bs"
proof -
  obtain d0 n f where d: "d = d0 @ [(n, f)]"
    using assms by (metis rev_exhaust surj_pair writer_inv_def)
  have s: "sorted_wrt (<) (map fst (d0 @ [(n, f)]))" "sw_current_seg w = n"
    "length f = 8 + sw_current_bytes w"
    using assms by (simp_all add: writer_inv_def dir_holds_def d SegmentHeader_SIZE_def)
  show ?thesis
    using map_of_last [OF s(1)] set_file_last [OF s(1)]
    by (simp add: write_batch_def d s with_tail_def write_all_at_def SegmentHeader_SIZE_def)
qed

section \<open>Properties\<close>

text \<open>C2: recovery is exact. A directory whose segments hold the records \<open>rss\<close>, the last one followed
  by a torn tail \<open>t\<close> (possibly empty), is read back as exactly those records in order, across every
  segment boundary; the reader's last LSN is the maximum of theirs (zero when there are none), and a torn tail is reported at the
  offset where it starts if and only if there is one.\<close>

theorem wal_recovery_exact:
  assumes "dir_holds crc ds rss" "ds \<noteq> []" "list_all clear_record (concat rss)" "torn_bytes crc t"
  shows "\<exists>r'. recover_records crc A P enc (with_tail ds t) = (r', Inr (concat rss)) \<and>
    rd_last_lsn r' = Max (insert Lsn_ZERO (wr_lsn ` set (concat rss))) \<and>
    rd_torn_tail r' = tail_of (fst (last ds)) (length (snd (last ds))) t"
  using recover_with_tail [OF assms(1,2) _ assms(4)] assms(3) by (simp add: list_all_iff max_lsn_def)

text \<open>C14: a crash in the middle of an append loses nothing older and invents nothing. If only the first
  \<open>k\<close> bytes of a batch reached the current segment, for any \<open>k\<close>, recovery returns all the records
  written before and then a prefix of the records of the batch.\<close>

theorem wal_crash_mid_append:
  assumes "writer_inv crc d w rss" "list_all clear_record (concat rss @ rs)"
  shows "\<exists>j r'. recover_records crc A P enc (fst (write_batch d w (take k (batch_bytes crc rs)))) =
    (r', Inr (concat rss @ take j rs))"
proof -
  have len: "\<forall>x \<in> set rs. length (wr_payload x) \<le> MAX_PAYLOAD_LEN"
    using assms(2) by (simp add: list_all_iff clear_record_def)
  from batch_prefix [OF len] obtain j t where
    jt: "take k (batch_bytes crc rs) = batch_bytes crc (take j rs) @ t" "torn_bytes crc t" by blast
  have ne: "d \<noteq> []" and dh: "dir_holds crc d rss" using assms(1) by (simp_all add: writer_inv_def)
  then have "rss \<noteq> []" by (auto simp: dir_holds_def)
  then obtain q0 q where q: "rss = q0 @ [q]" by (metis rev_exhaust)
  have "dir_holds crc (with_tail d (batch_bytes crc (take j rs))) (q0 @ [q @ take j rs])"
    by (rule seg_holds_with_tail) (use dh q len in \<open>auto dest: in_set_takeD\<close>)
  moreover have "\<forall>x \<in> set (concat (q0 @ [q @ take j rs])). clear_record x"
    using assms(2) by (auto simp: q list_all_iff dest: in_set_takeD)
  ultimately have "\<exists>r'. recover_records crc A P enc
      (with_tail (with_tail d (batch_bytes crc (take j rs))) t) =
      (r', Inr (concat (q0 @ [q @ take j rs])))"
    using recover_with_tail [OF _ _ _ jt(2)] by (fastforce simp: with_tail_def)
  then show ?thesis
    using write_batch_with_tail [OF assms(1)] jt(1) ne
    by (auto simp: with_tail_with_tail q)
qed

text \<open>C4: restart after a crash. Recovering a directory with a torn tail, truncating the tail at the
  reported position, reopening the writer and appending a batch gives a directory from which recovery
  returns the old records followed by the new ones, with no torn tail left. No step fails.\<close>

theorem wal_restart_after_crash:
  assumes "dir_holds crc ds rss" "ds \<noteq> []" "list_all clear_record (concat rss @ rs)"
    "torn_bytes crc t" "t \<noteq> []" "0 < max_bytes"
  shows "\<exists>r1 tail d1 d2 w d3 w3 r3.
    recover_records crc A P enc (with_tail ds t) = (r1, Inr (concat rss)) \<and>
    rd_torn_tail r1 = Some tail \<and>
    truncate_torn_tail (with_tail ds t) tail = (d1, Inr ()) \<and>
    SegmentWriter_open manifest d1 max_bytes = Done (d2, Inr w) \<and>
    SegmentWriter_append d2 w (batch_bytes crc rs) = (d3, w3, Inr ()) \<and>
    recover_records crc A P enc d3 = (r3, Inr (concat rss @ rs)) \<and> rd_torn_tail r3 = None"
proof -
  let ?tail = "\<lparr> tt_segment = fst (last ds), tt_offset = length (snd (last ds)) \<rparr>"
  have clear: "\<forall>x \<in> set (concat rss @ rs). clear_record x" using assms(3) by (simp add: list_all_iff)
  then have ok: "\<forall>x \<in> set rs. length (wr_payload x) \<le> MAX_PAYLOAD_LEN"
    by (simp add: clear_record_def)
  obtain r1 where r1: "recover_records crc A P enc (with_tail ds t) = (r1, Inr (concat rss))"
    "rd_torn_tail r1 = Some ?tail"
    using recover_with_tail [OF assms(1,2) _ assms(4), of A P enc] clear assms(5)
    by (auto simp: tail_of_def)
  obtain d2 w rss2 where w: "SegmentWriter_open manifest ds max_bytes = Done (d2, Inr w)"
    "writer_inv crc d2 w rss2" "concat rss2 = concat rss"
    using reopen_inv [OF assms(1,2,6)] by blast
  obtain d3 w3 rss3 where a: "SegmentWriter_append d2 w (batch_bytes crc rs) = (d3, w3, Inr ())"
    "writer_inv crc d3 w3 rss3" "concat rss3 = concat rss @ rs"
    using append_inv [OF w(2) ok] w(3) by auto
  have d3: "dir_holds crc d3 rss3" "d3 \<noteq> []" using a(2) by (simp_all add: writer_inv_def)
  have "torn_bytes crc []" by (simp add: torn_bytes_def)
  from recover_with_tail [OF d3 _ this, of A P enc] clear a(3) obtain r3 where
    r3: "recover_records crc A P enc d3 = (r3, Inr (concat rss @ rs))" "rd_torn_tail r3 = None"
    by (auto simp: with_tail_Nil [OF d3(2)] tail_of_def)
  show ?thesis
    using r1 truncate_with_tail [OF assms(1,2)] w(1) a(1) r3 by blast
qed

section \<open>Witnesses\<close>

text \<open>A directory with one segment holding one record, followed by a zero-filled tail.\<close>

definition demo_record :: "Lsn \<Rightarrow> WalRecord" where
  "demo_record l = \<lparr> wr_record_type = Commit, wr_txn_id = 3, wr_lsn = l, wr_timestamp_ms = 0,
     wr_tenant_id = 1, wr_payload = [1, 2] \<rparr>"

definition demo_dir :: wal_dir where
  "demo_dir = [(0, seg_bytes (\<lambda>_. 0) 8 [demo_record 5])]"

lemma demo_clear: "clear_record (demo_record l)"
  by (simp add: clear_record_def demo_record_def PayloadEncryption_peek_def
      is_encrypted_wal_payload_def WAL_PAYLOAD_HEADER_LEN_def AES_GCM_IV_LEN_def
      AES_GCM_TAG_LEN_def MAX_PAYLOAD_LEN_def MAX_RECORD_LEN_def WAL_HEADER_SIZE_def)

lemma demo_dir_holds: "dir_holds (\<lambda>_. 0) demo_dir [[demo_record 5]]" "demo_dir \<noteq> []"
  using demo_clear [of 5]
  by (auto simp: dir_holds_def demo_dir_def seg_holds_def SUPPORTED_WAL_FORMAT_VERSIONS_def
      clear_record_def)

lemma demo_writer: "writer_inv (\<lambda>_. 0) demo_dir (mk_writer 0 46 100 8) [[demo_record 5]]"
  using demo_dir_holds
  by (auto simp: writer_inv_def demo_dir_def mk_writer_def SUPPORTED_WAL_FORMAT_VERSIONS_def
      SegmentHeader_SIZE_def seg_bytes_def encoded_len_def WAL_HEADER_SIZE_def demo_record_def)

theorem wal_recovery_exact_witness:
  "\<exists>r'. recover_records (\<lambda>_. 0) plain_aead (\<lambda>_. Inr []) None
      (with_tail demo_dir (replicate 100 0)) =
      (r', Inr [demo_record 5]) \<and> rd_last_lsn r' = 5 \<and>
    rd_torn_tail r' = Some \<lparr> tt_segment = 0, tt_offset = 54 \<rparr>"
proof -
  have "list_all clear_record (concat [[demo_record 5]])" by (simp add: demo_clear)
  from wal_recovery_exact [OF demo_dir_holds this torn_zeros [of _ 100],
      of plain_aead "\<lambda>_. Inr []" None]
  show ?thesis
    by (simp add: tail_of_def demo_dir_def seg_bytes_def encoded_len_def WAL_HEADER_SIZE_def)
      (simp add: demo_record_def Lsn_ZERO_def)
qed

theorem wal_crash_mid_append_witness:
  "\<exists>j r'. recover_records (\<lambda>_. 0) plain_aead (\<lambda>_. Inr []) None
      (fst (write_batch demo_dir (mk_writer 0 46 100 8)
        (take 60 (batch_bytes (\<lambda>_. 0) [demo_record 6, demo_record 7])))) =
    (r', Inr (demo_record 5 # take j [demo_record 6, demo_record 7]))"
  using wal_crash_mid_append [OF demo_writer, of "[demo_record 6, demo_record 7]"]
  by (simp add: demo_clear)

theorem wal_restart_after_crash_witness:
  "\<exists>d1 d2 w d3 w3 r3.
    truncate_torn_tail (with_tail demo_dir (replicate 100 0)) \<lparr> tt_segment = 0, tt_offset = 54 \<rparr> =
      (d1, Inr ()) \<and>
    SegmentWriter_open (Inr None) d1 100 = Done (d2, Inr w) \<and>
    SegmentWriter_append d2 w (batch_bytes (\<lambda>_. 0) [demo_record 6]) = (d3, w3, Inr ()) \<and>
    recover_records (\<lambda>_. 0) plain_aead (\<lambda>_. Inr []) None d3 =
      (r3, Inr [demo_record 5, demo_record 6]) \<and> rd_torn_tail r3 = None"
proof -
  have clear: "list_all clear_record (concat [[demo_record 5]] @ [demo_record 6])"
    by (simp add: demo_clear)
  have zeros: "replicate 100 (0 :: u8) \<noteq> []" and m: "(0 :: nat) < 100" by simp_all
  note run = wal_restart_after_crash [OF demo_dir_holds clear torn_zeros zeros m,
      of plain_aead "\<lambda>_. Inr []" None "Inr None"]
  have tail: "rd_torn_tail r1 = Some \<lparr> tt_segment = 0, tt_offset = 54 \<rparr>"
    if "recover_records (\<lambda>_. 0) plain_aead (\<lambda>_. Inr []) None (with_tail demo_dir (replicate 100 0)) =
      (r1, res)" for r1 res
    using recover_with_tail [OF demo_dir_holds _ torn_zeros [of _ 100], of plain_aead "\<lambda>_. Inr []" None]
      that demo_clear
    by (simp add: tail_of_def demo_dir_def seg_bytes_def encoded_len_def WAL_HEADER_SIZE_def)
      (simp add: demo_record_def)
  obtain r1 tl d1 d2 w d3 w3 r3 where
    "recover_records (\<lambda>_. 0) plain_aead (\<lambda>_. Inr []) None (with_tail demo_dir (replicate 100 0)) =
      (r1, Inr (concat [[demo_record 5]]))"
    "rd_torn_tail r1 = Some tl"
    "truncate_torn_tail (with_tail demo_dir (replicate 100 0)) tl = (d1, Inr ())"
    and rest: "SegmentWriter_open (Inr None) d1 100 = Done (d2, Inr w)"
    "SegmentWriter_append d2 w (batch_bytes (\<lambda>_. 0) [demo_record 6]) = (d3, w3, Inr ())"
    "recover_records (\<lambda>_. 0) plain_aead (\<lambda>_. Inr []) None d3 =
      (r3, Inr (concat [[demo_record 5]] @ [demo_record 6]))"
    "rd_torn_tail r3 = None"
    using run by blast
  then have "truncate_torn_tail (with_tail demo_dir (replicate 100 0))
      \<lparr> tt_segment = 0, tt_offset = 54 \<rparr> = (d1, Inr ())"
    using tail by fastforce
  with rest show ?thesis by auto
qed

end
