(* ===== verification/Owner_Row.thy ===== *)
theory Owner_Row
  imports Record_Codec
begin

text \<open>
  Direct addressing and the rows that rely on it: the arithmetic record address of
  \<open>arcgraph-storage/src/address.rs\<close>, the owner row classes, addresses and envelope of
  \<open>owner_row.rs\<close>, and the extent allocation payload and directory page numbers of \<open>extent.rs\<close>. The
  lemmas show that addresses are injective, and that the two codecs accept exactly their encodings.
\<close>

section \<open>Record addresses\<close>

definition SLOT_SIZE :: nat where "SLOT_SIZE = 4"
definition SLOT_AREA_START :: nat where "SLOT_AREA_START = PageHeader_SIZE"
definition PAGE_BODY_BYTES :: nat where "PAGE_BODY_BYTES = PAGE_SIZE - PageHeader_SIZE"
definition NODE_CAPACITY :: u16 where
  "NODE_CAPACITY = word_of_nat (PAGE_BODY_BYTES div (SLOT_SIZE + NodeRecord_SIZE))"
definition REL_CAPACITY :: u16 where
  "REL_CAPACITY = word_of_nat (PAGE_BODY_BYTES div (SLOT_SIZE + RelRecord_SIZE))"
definition MAX_SLOTS :: u16 where
  "MAX_SLOTS = word_of_nat ((PAGE_SIZE - SLOT_AREA_START) div SLOT_SIZE)"
definition PROP_BAG_MAX_BYTES :: nat where "PROP_BAG_MAX_BYTES = PAGE_BODY_BYTES - SLOT_SIZE"

lemma page_consts [simp]:
  "PAGE_BODY_BYTES = 8152" "NODE_CAPACITY = 119" "REL_CAPACITY = 81" "MAX_SLOTS = 2038"
  "PROP_BAG_MAX_BYTES = 8148"
  by (simp_all add: PAGE_BODY_BYTES_def NODE_CAPACITY_def REL_CAPACITY_def MAX_SLOTS_def
      PROP_BAG_MAX_BYTES_def PAGE_SIZE_def PageHeader_SIZE_def SLOT_SIZE_def SLOT_AREA_START_def
      NodeRecord_SIZE_def RelRecord_SIZE_def)

definition REL_TAG_BIT :: u64 where "REL_TAG_BIT = push_bit 63 1"
definition MAX_ID :: u64 where "MAX_ID = REL_TAG_BIT - 1"

datatype AddressError = ReservedSentinel | OutOfRange
datatype RecordKind = NodeKind | RelKind

definition RecordKind_address :: "RecordKind \<Rightarrow> u64 \<Rightarrow> AddressError + u64 \<times> u16" where
  "RecordKind_address kind i =
     (if i = 0 then Inl ReservedSentinel
      else if i > MAX_ID then Inl OutOfRange
      else
        let capacity = (case kind of NodeKind \<Rightarrow> ucast NODE_CAPACITY | RelKind \<Rightarrow> ucast REL_CAPACITY) in
        if capacity = 0 then Inl OutOfRange
        else
          let page_no = i div capacity; slot = i mod capacity in
          if slot > 0xFFFF then Inl OutOfRange else Inr (page_no, ucast slot))"

section \<open>Store ids\<close>

definition STORE_PROPS :: u16 where "STORE_PROPS = 0"
definition STORE_RECORD :: u16 where "STORE_RECORD = 1"
definition STORE_TEL :: u16 where "STORE_TEL = 2"
definition STORE_BLOB_OVERFLOW :: u16 where "STORE_BLOB_OVERFLOW = 5"
definition STORE_RELS :: u16 where "STORE_RELS = 6"
definition STORE_NODE_BINDINGS :: u16 where "STORE_NODE_BINDINGS = 7"
definition STORE_REL_BINDINGS :: u16 where "STORE_REL_BINDINGS = 8"
definition STORE_INTERN :: u16 where "STORE_INTERN = 9"
definition STORE_GRANTS :: u16 where "STORE_GRANTS = 10"

lemmas store_ids = STORE_PROPS_def STORE_RECORD_def STORE_TEL_def STORE_BLOB_OVERFLOW_def STORE_RELS_def
  STORE_NODE_BINDINGS_def STORE_REL_BINDINGS_def STORE_INTERN_def STORE_GRANTS_def

section \<open>Extent allocations\<close>

definition DIR_PAGE_TAG :: u64 where "DIR_PAGE_TAG = push_bit 62 1"
definition DIR_PAGE_INDEX_MASK :: u64 where "DIR_PAGE_INDEX_MASK = DIR_PAGE_TAG - 1"
definition EXTENT_PAGES :: u64 where "EXTENT_PAGES = 256"
definition DIRECTORY_ENTRY_BYTES :: nat where "DIRECTORY_ENTRY_BYTES = 24"
definition DIRECTORY_ENTRIES_PER_PAGE :: u64 where
  "DIRECTORY_ENTRIES_PER_PAGE = word_of_nat ((PAGE_SIZE - PageHeader_SIZE) div DIRECTORY_ENTRY_BYTES)"
definition MAX_DATA_PAGE_NO :: u64 where "MAX_DATA_PAGE_NO = MAX_ID div ucast REL_CAPACITY"
definition MAX_EXTENTS_PER_STORE :: u64 where "MAX_EXTENTS_PER_STORE = 6000000"

text \<open>Rust's \<open>div_ceil\<close> on unsigned integers.\<close>

definition div_ceil :: "u64 \<Rightarrow> u64 \<Rightarrow> u64" where
  "div_ceil a b = (if a mod b > 0 then a div b + 1 else a div b)"

definition DIRECTORY_HEAD_PAGES :: u64 where
  "DIRECTORY_HEAD_PAGES = div_ceil MAX_EXTENTS_PER_STORE DIRECTORY_ENTRIES_PER_PAGE"
definition DIRECTORY_HEAD_BYTES :: u64 where
  "DIRECTORY_HEAD_BYTES = DIRECTORY_HEAD_PAGES * word_of_nat PAGE_SIZE"

record ExtentAllocation =
  ea_logical_extent :: u64
  ea_physical_offset :: u64
  ea_pairing :: u32

definition EXTENT_PAYLOAD_BYTES :: nat where "EXTENT_PAYLOAD_BYTES = 20"

definition ExtentAllocation_encode :: "ExtentAllocation \<Rightarrow> bytes" where
  "ExtentAllocation_encode a =
     (let bs = replicate EXTENT_PAYLOAD_BYTES 0;
          bs = buf_put 0 (le_bytes 8 (ea_logical_extent a)) bs;
          bs = buf_put 8 (le_bytes 8 (ea_physical_offset a)) bs;
          bs = buf_put 16 (le_bytes 4 (ea_pairing a)) bs
      in bs)"

definition ExtentAllocation_decode :: "bytes \<Rightarrow> Lsn \<Rightarrow> ArcGraphError + ExtentAllocation" where
  "ExtentAllocation_decode bs lsn =
     (if length bs \<noteq> EXTENT_PAYLOAD_BYTES
      then Inl (WalCorruption lsn ''ExtentAlloc payload must be exactly 20 bytes'')
      else
        let a = \<lparr> ea_logical_extent = from_le (buf_get 0 8 bs),
                  ea_physical_offset = from_le (buf_get 8 8 bs),
                  ea_pairing = from_le (buf_get 16 4 bs) \<rparr> in
        if ea_physical_offset a mod word_of_nat PAGE_SIZE \<noteq> 0
        then Inl (WalCorruption lsn ''ExtentAlloc physical_offset must be page aligned'')
        else if ea_physical_offset a < DIRECTORY_HEAD_BYTES
        then Inl (WalCorruption lsn ''ExtentAlloc physical_offset overlaps the reserved directory head'')
        else if ea_logical_extent a > MAX_DATA_PAGE_NO div EXTENT_PAGES
        then Inl (WalCorruption lsn ''ExtentAlloc logical extent is out of range'')
        else Inr a)"

datatype DirectoryIdentityError = IndexOutOfRange | NotDirectoryPage | OffsetOverflow

definition directory_page_no :: "u64 \<Rightarrow> DirectoryIdentityError + u64" where
  "directory_page_no k =
     (if k > DIR_PAGE_INDEX_MASK then Inl IndexOutOfRange else Inr (DIR_PAGE_TAG OR k))"

text \<open>Rust's \<open>checked_mul\<close>.\<close>

definition checked_mul :: "u64 \<Rightarrow> u64 \<Rightarrow> u64 option" where
  "checked_mul a b = (if unat a * unat b < 2 ^ 64 then Some (a * b) else None)"

definition directory_page_offset :: "u64 \<Rightarrow> DirectoryIdentityError + u64" where
  "directory_page_offset page_no =
     (if page_no AND DIR_PAGE_TAG = 0 \<or> page_no AND push_bit 63 1 \<noteq> 0 then Inl NotDirectoryPage
      else
        let k = page_no AND DIR_PAGE_INDEX_MASK in
        (case checked_mul k (word_of_nat PAGE_SIZE) of
           Some offset \<Rightarrow> Inr offset
         | None \<Rightarrow> Inl OffsetOverflow))"

definition is_directory_page :: "u64 \<Rightarrow> bool" where
  "is_directory_page page_no \<longleftrightarrow> page_no AND DIR_PAGE_TAG \<noteq> 0 \<and> page_no AND push_bit 63 1 = 0"

definition ExtentAllocation_directory_page_no :: "ExtentAllocation \<Rightarrow> ArcGraphError + u64" where
  "ExtentAllocation_directory_page_no a =
     (let k = ea_logical_extent a div DIRECTORY_ENTRIES_PER_PAGE in
      case directory_page_no k of
        Inl e \<Rightarrow> Inl (WalCorruption Lsn_ZERO ''directory page index reaches the reserved tag bit'')
      | Inr p \<Rightarrow> Inr p)"

section \<open>Owner rows\<close>

definition OWNER_ROW_BYTES :: nat where "OWNER_ROW_BYTES = 256"
definition OWNER_ROWS_PER_PAGE :: u64 where
  "OWNER_ROWS_PER_PAGE = word_of_nat (PAGE_BODY_BYTES div (SLOT_SIZE + OWNER_ROW_BYTES))"
definition OWNER_ROW_MAGIC :: bytes where
  "OWNER_ROW_MAGIC = [0x41, 0x47, 0x4F, 0x57, 0x4E, 0x52, 0x30, 0x31]"
definition OWNER_ROW_STATE_LIVE :: u8 where "OWNER_ROW_STATE_LIVE = 1"
definition OWNER_ROW_STATE_RETIRED :: u8 where "OWNER_ROW_STATE_RETIRED = 2"
definition OWNER_ROW_HEADER_BYTES :: nat where "OWNER_ROW_HEADER_BYTES = 20"
definition OWNER_ROW_MAX_PAYLOAD :: nat where
  "OWNER_ROW_MAX_PAYLOAD = OWNER_ROW_BYTES - OWNER_ROW_HEADER_BYTES"
definition OWNER_IDS_PER_CLASS :: u64 where "OWNER_IDS_PER_CLASS = 64000000"

datatype OwnerRowClass = NodeBinding | RelBinding | InternedString | ClassId | Grant

datatype OwnerRowError =
    IdOutOfRange OwnerRowClass u64 u64
  | AddressOverflow OwnerRowClass u64
  | PayloadTooLarge nat nat
  | InvalidEnvelope string
  | WrongClass OwnerRowClass OwnerRowClass
  | WrongId u64 u64

fun OwnerRowClass_as_byte :: "OwnerRowClass \<Rightarrow> u8" where
  "OwnerRowClass_as_byte NodeBinding = 1"
| "OwnerRowClass_as_byte RelBinding = 2"
| "OwnerRowClass_as_byte InternedString = 3"
| "OwnerRowClass_as_byte ClassId = 4"
| "OwnerRowClass_as_byte Grant = 5"

definition OwnerRowClass_from_byte :: "u8 \<Rightarrow> OwnerRowError + OwnerRowClass" where
  "OwnerRowClass_from_byte b =
     (if b = 1 then Inr NodeBinding else if b = 2 then Inr RelBinding
      else if b = 3 then Inr InternedString else if b = 4 then Inr ClassId
      else if b = 5 then Inr Grant else Inl (InvalidEnvelope ''unknown owner-row class''))"

fun OwnerRowClass_store_id :: "OwnerRowClass \<Rightarrow> u16" where
  "OwnerRowClass_store_id NodeBinding = STORE_NODE_BINDINGS"
| "OwnerRowClass_store_id RelBinding = STORE_REL_BINDINGS"
| "OwnerRowClass_store_id InternedString = STORE_INTERN"
| "OwnerRowClass_store_id ClassId = STORE_INTERN"
| "OwnerRowClass_store_id Grant = STORE_GRANTS"

fun region_ordinal :: "OwnerRowClass \<Rightarrow> u64" where
  "region_ordinal ClassId = 1"
| "region_ordinal NodeBinding = 0"
| "region_ordinal RelBinding = 0"
| "region_ordinal InternedString = 0"
| "region_ordinal Grant = 0"

definition OwnerRowClass_address :: "OwnerRowClass \<Rightarrow> u64 \<Rightarrow> OwnerRowError + u64 \<times> u16" where
  "OwnerRowClass_address c i =
     (if i \<ge> OWNER_IDS_PER_CLASS then Inl (IdOutOfRange c i OWNER_IDS_PER_CLASS)
      else
        let pages_per_class = div_ceil OWNER_IDS_PER_CLASS OWNER_ROWS_PER_PAGE in
        (case Option.bind (checked_mul (region_ordinal c) pages_per_class)
                (\<lambda>first. checked_add first (i div OWNER_ROWS_PER_PAGE)) of
           None \<Rightarrow> Inl (AddressOverflow c i)
         | Some page_no \<Rightarrow> Inr (page_no, ucast (i mod OWNER_ROWS_PER_PAGE))))"

record OwnerRow =
  ow_class :: OwnerRowClass
  ow_id :: u64
  ow_payload :: bytes
  ow_retired :: bool

definition OwnerRow_new :: "OwnerRowClass \<Rightarrow> u64 \<Rightarrow> bytes \<Rightarrow> OwnerRowError + OwnerRow" where
  "OwnerRow_new c i payload =
     bind_res (OwnerRowClass_address c i) (\<lambda>_.
       if length payload > OWNER_ROW_MAX_PAYLOAD
       then Inl (PayloadTooLarge (length payload) OWNER_ROW_MAX_PAYLOAD)
       else Inr \<lparr> ow_class = c, ow_id = i, ow_payload = payload, ow_retired = False \<rparr>)"

definition OwnerRow_retired :: "OwnerRowClass \<Rightarrow> u64 \<Rightarrow> OwnerRowError + OwnerRow" where
  "OwnerRow_retired c i =
     (if c \<noteq> NodeBinding \<and> c \<noteq> RelBinding
      then Inl (InvalidEnvelope ''owner class is not permanently retireable'')
      else bind_res (OwnerRowClass_address c i) (\<lambda>_.
        Inr \<lparr> ow_class = c, ow_id = i, ow_payload = [], ow_retired = True \<rparr>))"

definition OwnerRow_encode :: "OwnerRow \<Rightarrow> bytes run" where
  "OwnerRow_encode r =
     (if length (ow_payload r) \<ge> 2 ^ 16 \<or> 20 + length (ow_payload r) > OWNER_ROW_BYTES then Panicked
      else
        let bs = replicate OWNER_ROW_BYTES 0;
            bs = buf_put 0 OWNER_ROW_MAGIC bs;
            bs = bs[8 := OwnerRowClass_as_byte (ow_class r)];
            bs = bs[9 := (if ow_retired r then OWNER_ROW_STATE_RETIRED else OWNER_ROW_STATE_LIVE)];
            bs = buf_put 10 (le_bytes 2 (word_of_nat (length (ow_payload r)) :: u16)) bs;
            bs = buf_put 12 (le_bytes 8 (ow_id r)) bs;
            bs = buf_put 20 (ow_payload r) bs
        in Done bs)"

definition OwnerRow_decode :: "bytes \<Rightarrow> OwnerRowClass \<Rightarrow> u64 \<Rightarrow> OwnerRowError + OwnerRow" where
  "OwnerRow_decode bs expected_class expected_id =
     (if length bs \<noteq> OWNER_ROW_BYTES then Inl (InvalidEnvelope ''owner row byte count'')
      else if buf_get 0 8 bs \<noteq> OWNER_ROW_MAGIC
      then Inl (InvalidEnvelope ''owner row magic/version mismatch'')
      else bind_res (OwnerRowClass_from_byte (bs ! 8)) (\<lambda>c.
        if c \<noteq> expected_class then Inl (WrongClass expected_class c)
        else bind_res
          (if bs ! 9 = OWNER_ROW_STATE_LIVE then Inr False
           else if bs ! 9 = OWNER_ROW_STATE_RETIRED then Inr True
           else Inl (InvalidEnvelope ''owner row carries unknown state'')) (\<lambda>retired.
          if retired \<and> c \<noteq> NodeBinding \<and> c \<noteq> RelBinding
          then Inl (InvalidEnvelope ''owner class carries an illegal permanent retirement'')
          else
            let payload_len = unat (from_le (buf_get 10 2 bs) :: u16) in
            if payload_len > OWNER_ROW_MAX_PAYLOAD
            then Inl (InvalidEnvelope ''owner row payload length'')
            else if retired \<and> payload_len \<noteq> 0
            then Inl (InvalidEnvelope ''retired owner row carries a payload'')
            else
              let i = from_le (buf_get 12 8 bs) in
              if i \<noteq> expected_id then Inl (WrongId expected_id i)
              else if list_ex (\<lambda>b. b \<noteq> 0) (drop (20 + payload_len) bs)
              then Inl (InvalidEnvelope ''owner row padding is non-zero'')
              else Inr \<lparr> ow_class = c, ow_id = i, ow_payload = buf_get 20 payload_len bs,
                         ow_retired = retired \<rparr>)))"

section \<open>Addresses are injective\<close>

definition capacity_of :: "RecordKind \<Rightarrow> nat" where
  "capacity_of kind = (case kind of NodeKind \<Rightarrow> 119 | RelKind \<Rightarrow> 81)"

lemma div_mod_nat_iff:
  "0 < c \<Longrightarrow> n div c = q \<and> n mod c = r \<longleftrightarrow> r < c \<and> n = q * c + (r :: nat)"
  by auto

lemma div_mod_word:
  assumes "0 < unat c" "unat c \<le> 2 ^ 16"
  shows "i div c = p \<and> ucast (i mod c) = (s :: u16) \<longleftrightarrow>
    unat s < unat c \<and> unat (i :: u64) = unat p * unat c + unat s"
proof -
  have m: "unat i mod unat c < unat c" using assms(1) by simp
  have s: "unat (ucast (i mod c) :: u16) = unat i mod unat c"
    using m assms(2) by (simp add: unsigned_ucast_eq unat_mod take_bit_nat_eq_self)
  have "i div c = p \<and> ucast (i mod c) = s \<longleftrightarrow>
      unat i div unat c = unat p \<and> unat i mod unat c = unat s"
    by (simp add: word_unat_eq_iff unat_div s)
  also have "\<dots> \<longleftrightarrow> unat s < unat c \<and> unat i = unat p * unat c + unat s"
    by (rule div_mod_nat_iff [OF assms(1)])
  finally show ?thesis .
qed

lemma address_iff:
  "RecordKind_address kind i = Inr (p, s) \<longleftrightarrow>
     i \<noteq> 0 \<and> i \<le> MAX_ID \<and> unat s < capacity_of kind \<and> unat i = unat p * capacity_of kind + unat s"
proof -
  define c :: u64 where "c = (case kind of NodeKind \<Rightarrow> 119 | RelKind \<Rightarrow> 81)"
  have c: "unat c = capacity_of kind" "c \<noteq> 0"
    by (cases kind; simp add: c_def capacity_of_def)+
  have small: "0 < unat c" "unat c \<le> 2 ^ 16" by (cases kind; simp add: c_def)+
  have "unat (i mod c) < unat c" using small(1) by (simp add: unat_mod)
  then have ms: "\<not> i mod c > 0xFFFF" using small(2) by (simp add: word_less_nat_alt)
  have "RecordKind_address kind i =
      (if i = 0 then Inl ReservedSentinel else if i > MAX_ID then Inl OutOfRange
       else Inr (i div c, ucast (i mod c)))"
    using c(2) ms by (cases kind) (simp_all add: RecordKind_address_def c_def Let_def)
  then show ?thesis
    using div_mod_word [OF small, of i p s] by (auto simp: c(1))
qed

lemma owner_consts [simp]:
  "OWNER_ROW_BYTES = 256" "OWNER_ROWS_PER_PAGE = 31" "OWNER_ROW_MAX_PAYLOAD = 236"
  by (simp_all add: OWNER_ROW_BYTES_def OWNER_ROWS_PER_PAGE_def OWNER_ROW_MAX_PAYLOAD_def
      OWNER_ROW_HEADER_BYTES_def SLOT_SIZE_def)

lemma owner_address_iff:
  "OwnerRowClass_address c i = Inr (p, s) \<longleftrightarrow>
     i < OWNER_IDS_PER_CLASS \<and> unat s < 31 \<and>
     unat p = unat (region_ordinal c) * 2064517 + unat i div 31 \<and> unat s = unat i mod 31"
proof (cases "i < OWNER_IDS_PER_CLASS")
  case True
  have pages: "div_ceil OWNER_IDS_PER_CLASS 31 = 2064517"
    by (simp add: div_ceil_def OWNER_IDS_PER_CLASS_def)
  have r: "unat (region_ordinal c) \<le> 1" by (cases c) simp_all
  have i: "unat i div 31 < 2064517"
    using True by (simp add: OWNER_IDS_PER_CLASS_def word_less_nat_alt)
  have mul: "checked_mul (region_ordinal c) 2064517 = Some (region_ordinal c * 2064517)"
    and um: "unat (region_ordinal c * 2064517) = unat (region_ordinal c) * 2064517"
    by (cases c; simp add: checked_mul_def)+
  have d: "unat (i div 31) = unat i div 31" by (simp add: unat_div)
  have bound: "unat (region_ordinal c) * 2064517 + unat i div 31 < 2 ^ 64" using r i by simp
  then have add: "checked_add (region_ordinal c * 2064517) (i div 31) =
      Some (region_ordinal c * 2064517 + i div 31)"
    by (simp add: checked_add_def um d)
  have "unat i mod 31 < 31" by simp
  then have s: "unat (ucast (i mod 31) :: u16) = unat i mod 31"
    by (simp add: unsigned_ucast_eq unat_mod take_bit_nat_eq_self)
  have pg: "unat (region_ordinal c * 2064517 + i div 31) =
      unat (region_ordinal c) * 2064517 + unat i div 31"
    using checked_add_Some [OF add] by (simp add: um d)
  have "OwnerRowClass_address c i = Inr (region_ordinal c * 2064517 + i div 31, ucast (i mod 31))"
    using True by (simp add: OwnerRowClass_address_def pages mul add leD)
  then show ?thesis
    using True by (auto simp: word_unat_eq_iff pg s)
qed (simp add: OwnerRowClass_address_def not_less)

text \<open>C30: direct addresses never collide. A record id resolves exactly to the page and slot that the
  division by the page capacity gives, so two ids of a kind never share a slot; and two owner rows of
  one store share a page and slot only if they are the same class and id, although interned
  strings and ACL classes live in one store.\<close>

theorem direct_address_injective:
  assumes "OwnerRowClass_address c j = Inr a" "OwnerRowClass_address d k = Inr a"
    "OwnerRowClass_store_id c = OwnerRowClass_store_id d"
  shows "c = d \<and> j = k \<and>
    (RecordKind_address kind i = Inr (p, s)) =
      (i \<noteq> 0 \<and> i \<le> MAX_ID \<and> unat s < capacity_of kind \<and> unat i = unat p * capacity_of kind + unat s)"
proof -
  obtain q t where qt: "a = (q, t)" by fastforce
  have j: "unat q = unat (region_ordinal c) * 2064517 + unat j div 31" "unat t = unat j mod 31"
    and k: "unat q = unat (region_ordinal d) * 2064517 + unat k div 31" "unat t = unat k mod 31"
    and lt: "unat j < 64000000" "unat k < 64000000"
    using assms(1,2) by (simp_all add: qt owner_address_iff word_less_nat_alt OWNER_IDS_PER_CLASS_def)
  have "region_ordinal c = region_ordinal d"
    using j(1) k(1) lt by (cases c; cases d) simp_all
  moreover from this j(1) k(1) have "unat j div 31 = unat k div 31" by simp
  then have "unat j = unat k" using j(2) k(2) by (metis div_mult_mod_eq)
  then have "j = k" by (simp add: word_unat_eq_iff)
  ultimately have "c = d \<and> j = k"
    using assms(3) by (cases c; cases d) (simp_all add: store_ids)
  with address_iff [of kind i p s] show ?thesis by blast
qed

theorem direct_address_injective_witness:
  "OwnerRowClass_address ClassId 40 = Inr (2064518, 9) \<and> RecordKind_address RelKind 200 = Inr (2, 38)"
proof -
  have "OwnerRowClass_address ClassId 40 = Inr (2064518, 9)"
    by (simp add: owner_address_iff OWNER_IDS_PER_CLASS_def)
  with direct_address_injective [OF this this refl, of RelKind 200 2 38] show ?thesis
    by (simp add: capacity_of_def MAX_ID_def REL_TAG_BIT_def)
qed

section \<open>The row and extent codecs are exact\<close>

definition row_wf :: "OwnerRow \<Rightarrow> bool" where
  "row_wf r \<longleftrightarrow> length (ow_payload r) \<le> OWNER_ROW_MAX_PAYLOAD \<and>
     (ow_retired r \<longrightarrow> ow_payload r = [] \<and> (ow_class r = NodeBinding \<or> ow_class r = RelBinding))"

lemma class_byte_roundtrip [simp]: "OwnerRowClass_from_byte (OwnerRowClass_as_byte c) = Inr c"
  by (cases c) (simp_all add: OwnerRowClass_from_byte_def)

lemma class_from_byte_Inr: "OwnerRowClass_from_byte b = Inr c \<longleftrightarrow> b = OwnerRowClass_as_byte c"
  by (auto simp: OwnerRowClass_from_byte_def split: if_splits) (cases c; simp)+

lemma length_magic [simp]: "length OWNER_ROW_MAGIC = 8"
  by (simp add: OWNER_ROW_MAGIC_def)

text \<open>The fields of an encoded row.\<close>

lemma OwnerRow_encode_Done:
  assumes "length (ow_payload r) \<le> 236"
  obtains bs where "OwnerRow_encode r = Done bs" "length bs = 256" "buf_get 0 8 bs = OWNER_ROW_MAGIC"
    "bs ! 8 = OwnerRowClass_as_byte (ow_class r)"
    "bs ! 9 = (if ow_retired r then OWNER_ROW_STATE_RETIRED else OWNER_ROW_STATE_LIVE)"
    "buf_get 10 2 bs = le_bytes 2 (word_of_nat (length (ow_payload r)) :: u16)"
    "buf_get 12 8 bs = le_bytes 8 (ow_id r)"
    "buf_get 20 (length (ow_payload r)) bs = ow_payload r"
    "buf_get (20 + length (ow_payload r)) (236 - length (ow_payload r)) bs =
       replicate (236 - length (ow_payload r)) 0"
proof -
  let ?n = "length (ow_payload r)"
  define hd :: bytes where "hd = buf_put 12 (le_bytes 8 (ow_id r))
      (buf_put 10 (le_bytes 2 (word_of_nat ?n :: u16))
        ((buf_put 0 OWNER_ROW_MAGIC (replicate 256 0))
          [8 := OwnerRowClass_as_byte (ow_class r),
           9 := if ow_retired r then OWNER_ROW_STATE_RETIRED else OWNER_ROW_STATE_LIVE]))"
  have hd: "length hd = 256" "buf_get 0 8 hd = OWNER_ROW_MAGIC"
    "hd ! 8 = OwnerRowClass_as_byte (ow_class r)"
    "hd ! 9 = (if ow_retired r then OWNER_ROW_STATE_RETIRED else OWNER_ROW_STATE_LIVE)"
    "buf_get 10 2 hd = le_bytes 2 (word_of_nat ?n :: u16)"
    "buf_get 12 8 hd = le_bytes 8 (ow_id r)"
    by (simp_all add: hd_def buf_simps)
  have pad: "buf_get off m hd = replicate m 0" if "20 \<le> off" "off + m \<le> 256" for off m
    using that by (simp add: hd_def buf_simps)
  have e: "OwnerRow_encode r = Done (buf_put 20 (ow_payload r) hd)"
    using assms by (simp add: OwnerRow_encode_def hd_def Let_def)
  show thesis
    by (rule that [OF e]) (use assms hd pad in \<open>simp_all add: buf_simps\<close>)
qed

lemma unat_len_u16: "n \<le> 236 \<Longrightarrow> unat (word_of_nat n :: u16) = n"
  by (simp add: unat_of_nat)

lemma OwnerRow_decode_encode:
  assumes "row_wf r" "OwnerRow_encode r = Done bs"
  shows "OwnerRow_decode bs (ow_class r) (ow_id r) = Inr r"
proof -
  let ?n = "length (ow_payload r)"
  have n: "?n \<le> 236" using assms(1) by (simp add: row_wf_def)
  from OwnerRow_encode_Done [OF n] assms(2)
  have f: "length bs = 256" "buf_get 0 8 bs = OWNER_ROW_MAGIC"
    "bs ! 8 = OwnerRowClass_as_byte (ow_class r)"
    "bs ! 9 = (if ow_retired r then OWNER_ROW_STATE_RETIRED else OWNER_ROW_STATE_LIVE)"
    "buf_get 10 2 bs = le_bytes 2 (word_of_nat ?n :: u16)" "buf_get 12 8 bs = le_bytes 8 (ow_id r)"
    "buf_get 20 ?n bs = ow_payload r" "buf_get (20 + ?n) (236 - ?n) bs = replicate (236 - ?n) 0"
    by (metis run.inject)+
  have "drop (20 + ?n) bs = replicate (236 - ?n) 0" using f(1,8) n by (simp add: buf_get_def)
  then have "\<not> list_ex (\<lambda>b. b \<noteq> 0) (drop (20 + ?n) bs)" by (simp add: list_ex_iff)
  then show ?thesis
    using assms(1) n f unat_len_u16 [OF n]
    by (cases "ow_retired r") (auto simp: OwnerRow_decode_def row_wf_def Let_def OWNER_ROW_STATE_LIVE_def
        OWNER_ROW_STATE_RETIRED_def)
qed

lemma OwnerRow_decode_lossless:
  assumes "OwnerRow_decode bs c i = Inr r"
  shows "row_wf r" "ow_class r = c" "ow_id r = i" "OwnerRow_encode r = Done bs"
proof -
  define n where "n = unat (from_le (buf_get 10 2 bs) :: u16)"
  have d: "length bs = 256" "buf_get 0 8 bs = OWNER_ROW_MAGIC" "bs ! 8 = OwnerRowClass_as_byte c"
    "bs ! 9 = (if ow_retired r then OWNER_ROW_STATE_RETIRED else OWNER_ROW_STATE_LIVE)"
    "n \<le> 236" "ow_retired r \<longrightarrow> n = 0 \<and> (c = NodeBinding \<or> c = RelBinding)"
    "from_le (buf_get 12 8 bs) = i" "\<not> list_ex (\<lambda>b. b \<noteq> 0) (drop (20 + n) bs)"
    "ow_class r = c" "ow_id r = i" "ow_payload r = buf_get 20 n bs"
    using assms unfolding n_def
    by (auto simp: OwnerRow_decode_def Let_def bind_res_Inr_iff class_from_byte_Inr split: if_splits)
  have len: "length (ow_payload r) = n" using d(1,5,11) by simp
  show "row_wf r" "ow_class r = c" "ow_id r = i"
    using d(5,6,9,10) len by (auto simp: row_wf_def)
  from OwnerRow_encode_Done [of r] len d(5) obtain es where es: "OwnerRow_encode r = Done es"
    "length es = 256" "buf_get 0 8 es = OWNER_ROW_MAGIC" "es ! 8 = OwnerRowClass_as_byte c"
    "es ! 9 = bs ! 9" "buf_get 10 2 es = le_bytes 2 (word_of_nat n :: u16)"
    "buf_get 12 8 es = le_bytes 8 i" "buf_get 20 n es = buf_get 20 n bs"
    "buf_get (20 + n) (236 - n) es = replicate (236 - n) 0"
    using d(4,9,10,11) by (metis)
  have l: "buf_get 10 2 bs = le_bytes 2 (word_of_nat n :: u16)" "buf_get 12 8 bs = le_bytes 8 i"
    using d(1,7) by (auto simp: n_def le_bytes_from_le_u16 le_bytes_from_le_u64)
  have pad: "buf_get (20 + n) (236 - n) bs = replicate (236 - n) 0"
    using d(1,5,8) by (auto simp: buf_get_def list_ex_iff intro!: replicate_eqI)
  have one: "buf_get 8 1 es = buf_get 8 1 bs" "buf_get 9 1 es = buf_get 9 1 bs"
    using es(2,4,5) d(1,3) by (simp_all add: buf_get_1 del: One_nat_def)
  have "es = bs"
    by (rule buf_eq_by_fields [of "[8, 1, 1, 2, 8, n, 236 - n]"])
      (use es d(1,2,5) l pad one in \<open>simp_all del: One_nat_def\<close>)
  with es(1) show "OwnerRow_encode r = Done bs" by simp
qed

text \<open>C29: the owner row codec is exact. A cell decodes for an expected class and id to row \<open>r\<close> if and
  only if \<open>r\<close> is a legal row of that class and id and the cell is its encoding: magic, class, state,
  payload length, id and zero padding are all checked, and a retired row has no payload and is a
  binding. Encoding a legal row never panics.\<close>

theorem owner_row_codec_exact:
  "(OwnerRow_decode bs c i = Inr r) =
     (row_wf r \<and> ow_class r = c \<and> ow_id r = i \<and> OwnerRow_encode r = Done bs)"
  using OwnerRow_decode_lossless OwnerRow_decode_encode by blast

text \<open>The extent allocation payload.\<close>

definition extent_wf :: "ExtentAllocation \<Rightarrow> bool" where
  "extent_wf a \<longleftrightarrow> ea_physical_offset a mod word_of_nat PAGE_SIZE = 0 \<and>
     DIRECTORY_HEAD_BYTES \<le> ea_physical_offset a \<and>
     ea_logical_extent a \<le> MAX_DATA_PAGE_NO div EXTENT_PAGES"

lemma length_extent_encode [simp]: "length (ExtentAllocation_encode a) = 20"
  by (simp add: ExtentAllocation_encode_def EXTENT_PAYLOAD_BYTES_def)

lemma extent_decode_Inr:
  "ExtentAllocation_decode bs lsn = Inr a \<longleftrightarrow>
     length bs = 20 \<and> extent_wf a \<and> a = \<lparr> ea_logical_extent = from_le (buf_get 0 8 bs),
       ea_physical_offset = from_le (buf_get 8 8 bs), ea_pairing = from_le (buf_get 16 4 bs) \<rparr>"
  by (auto simp: ExtentAllocation_decode_def extent_wf_def EXTENT_PAYLOAD_BYTES_def Let_def not_less
      split: if_splits del: mod_0_imp_dvd)

lemma extent_decode_iff:
  "ExtentAllocation_decode bs lsn = Inr a \<longleftrightarrow> extent_wf a \<and> ExtentAllocation_encode a = bs"
proof
  assume d: "ExtentAllocation_decode bs lsn = Inr a"
  then have l: "length bs = 20" and a: "a = \<lparr> ea_logical_extent = from_le (buf_get 0 8 bs),
      ea_physical_offset = from_le (buf_get 8 8 bs), ea_pairing = from_le (buf_get 16 4 bs) \<rparr>"
    by (simp_all add: extent_decode_Inr)
  have "ExtentAllocation_encode a = bs"
    by (rule buf_eq_by_fields [of "[8, 8, 4]"])
      (simp_all add: l a ExtentAllocation_encode_def EXTENT_PAYLOAD_BYTES_def Let_def buf_simps
        le_bytes_from_le_u32 le_bytes_from_le_u64)
  moreover have "extent_wf a" using d unfolding extent_decode_Inr by blast
  ultimately show "extent_wf a \<and> ExtentAllocation_encode a = bs" by blast
next
  assume "extent_wf a \<and> ExtentAllocation_encode a = bs"
  then show "ExtentAllocation_decode bs lsn = Inr a"
    by (auto simp: extent_decode_Inr ExtentAllocation_encode_def EXTENT_PAYLOAD_BYTES_def Let_def buf_simps)
qed

end
