(* ===== verification/Wal_Delta.thy ===== *)
theory Wal_Delta
  imports Owner_Row
begin

text \<open>
  The physiological delta operations of the WAL, \<open>arcgraph-storage/src/wal/delta.rs\<close>: kinds,
  intents, the validation of an operation for a declared bundle format, the wire codec, and the
  projection of a record write onto the version store. Owner rows are validated by
  \<open>validate_owner_delta\<close> of \<open>owner_row.rs\<close>. The lemmas show that the codec accepts exactly the
  encodings of operations that are legal in the format, and that assigning LSNs to a record intent
  stamps the commit LSN into the record and nothing else.
\<close>

definition BUNDLE_FORMAT_V9 :: u16 where "BUNDLE_FORMAT_V9 = 9"
definition BUNDLE_FORMAT_V10 :: u16 where "BUNDLE_FORMAT_V10 = 10"
definition MAX_PROP_BLOCK_PAYLOAD :: nat where "MAX_PROP_BLOCK_PAYLOAD = PROP_BAG_MAX_BYTES"

section \<open>Kinds\<close>

datatype DeltaOpKind =
    PutRecord | TombstoneRecord | PutPropBlock | TelAppend | TelExpire | IndexPut | IndexDelete
  | AllocAdvance | InternBind | AclGrant | PageAlloc | ExtentAlloc | VectorDelta | TelGrow

definition DeltaOpKind_from_byte :: "u8 \<Rightarrow> Lsn \<Rightarrow> ArcGraphError + DeltaOpKind" where
  "DeltaOpKind_from_byte b lsn =
     (if b = 0 then Inr PutRecord else if b = 1 then Inr TombstoneRecord
      else if b = 2 then Inr PutPropBlock else if b = 3 then Inr TelAppend
      else if b = 4 then Inr TelExpire else if b = 5 then Inr IndexPut
      else if b = 6 then Inr IndexDelete else if b = 7 then Inr AllocAdvance
      else if b = 8 then Inr InternBind else if b = 9 then Inr AclGrant
      else if b = 10 then Inr PageAlloc else if b = 11 then Inr ExtentAlloc
      else if b = 12 then Inr VectorDelta else if b = 13 then Inr TelGrow
      else Inl (WalCorruption lsn ''unknown DeltaOp kind''))"

fun DeltaOpKind_as_byte :: "DeltaOpKind \<Rightarrow> u8" where
  "DeltaOpKind_as_byte PutRecord = 0"
| "DeltaOpKind_as_byte TombstoneRecord = 1"
| "DeltaOpKind_as_byte PutPropBlock = 2"
| "DeltaOpKind_as_byte TelAppend = 3"
| "DeltaOpKind_as_byte TelExpire = 4"
| "DeltaOpKind_as_byte IndexPut = 5"
| "DeltaOpKind_as_byte IndexDelete = 6"
| "DeltaOpKind_as_byte AllocAdvance = 7"
| "DeltaOpKind_as_byte InternBind = 8"
| "DeltaOpKind_as_byte AclGrant = 9"
| "DeltaOpKind_as_byte PageAlloc = 10"
| "DeltaOpKind_as_byte ExtentAlloc = 11"
| "DeltaOpKind_as_byte VectorDelta = 12"
| "DeltaOpKind_as_byte TelGrow = 13"

definition is_emitted_at_m3 :: "DeltaOpKind \<Rightarrow> bool" where
  "is_emitted_at_m3 k \<longleftrightarrow>
     k \<in> {PutRecord, TombstoneRecord, PutPropBlock, AllocAdvance, PageAlloc, ExtentAlloc}"

definition is_emitted_for_format :: "DeltaOpKind \<Rightarrow> u16 \<Rightarrow> bool" where
  "is_emitted_for_format k v \<longleftrightarrow>
     (if v = BUNDLE_FORMAT_V9 then is_emitted_at_m3 k
      else if v = BUNDLE_FORMAT_V10 then is_emitted_at_m3 k \<or> k \<in> {InternBind, AclGrant}
      else False)"

definition is_physical :: "DeltaOpKind \<Rightarrow> bool" where
  "is_physical k \<longleftrightarrow>
     k \<in> {PutRecord, TombstoneRecord, PutPropBlock, InternBind, AclGrant, PageAlloc, ExtentAlloc}"

fun OwnerRowClass_delta_kind :: "OwnerRowClass \<Rightarrow> DeltaOpKind" where
  "OwnerRowClass_delta_kind NodeBinding = InternBind"
| "OwnerRowClass_delta_kind RelBinding = InternBind"
| "OwnerRowClass_delta_kind InternedString = InternBind"
| "OwnerRowClass_delta_kind ClassId = AclGrant"
| "OwnerRowClass_delta_kind Grant = AclGrant"

section \<open>Operations and their validation\<close>

record DeltaIntent =
  di_kind :: DeltaOpKind
  di_store_id :: u16
  di_tenant_id :: TenantId
  di_page_no :: u64
  di_slot :: u16
  di_payload :: bytes

record DeltaOp =
  do_kind :: DeltaOpKind
  do_store_id :: u16
  do_tenant_id :: TenantId
  do_page_no :: u64
  do_slot :: u16
  do_op_lsn :: Lsn
  do_payload :: bytes

definition FIXED_PREFIX_LEN :: nat where "FIXED_PREFIX_LEN = 34"

definition DeltaOp_encoded_len :: "DeltaOp \<Rightarrow> nat" where
  "DeltaOp_encoded_len op = FIXED_PREFIX_LEN + length (do_payload op)"

definition validate_owner_delta ::
  "DeltaOpKind \<Rightarrow> u16 \<Rightarrow> u64 \<Rightarrow> u16 \<Rightarrow> bytes \<Rightarrow> Lsn \<Rightarrow> ArcGraphError + unit" where
  "validate_owner_delta kind store_id page_no slot payload lsn =
     (if length payload \<noteq> OWNER_ROW_BYTES
      then Inl (WalCorruption lsn ''owner delta payload bytes'')
      else case OwnerRowClass_from_byte (payload ! 8) of
        Inl e \<Rightarrow> Inl (WalCorruption lsn ''owner delta class is invalid'')
      | Inr c \<Rightarrow>
          let i = from_le (buf_get 12 8 payload) in
          (case OwnerRow_decode payload c i of
             Inl e \<Rightarrow> Inl (WalCorruption lsn ''owner delta row is invalid'')
           | Inr row \<Rightarrow>
               (case OwnerRowClass_address (ow_class row) (ow_id row) of
                  Inl e \<Rightarrow> Inl (WalCorruption lsn ''owner delta address is invalid'')
                | Inr (apage, aslot) \<Rightarrow>
                    if OwnerRowClass_store_id (ow_class row) \<noteq> store_id
                      \<or> OwnerRowClass_delta_kind (ow_class row) \<noteq> kind \<or> apage \<noteq> page_no \<or> aslot \<noteq> slot
                    then Inl (WalCorruption lsn
                      ''owner delta store/kind/page/slot disagrees with its self-identifying row'')
                    else Inr ())))"

definition page_type_matches_store :: "u16 \<Rightarrow> PageType \<Rightarrow> bool" where
  "page_type_matches_store store_id page_type \<longleftrightarrow>
     (if store_id = STORE_PROPS then page_type = PropSlotted
      else if store_id = STORE_RECORD then page_type = Node \<or> page_type = Rel
      else if store_id = STORE_RELS then page_type = Rel
      else if store_id = STORE_TEL then page_type = Tel
      else if store_id \<in> {STORE_NODE_BINDINGS, STORE_REL_BINDINGS, STORE_INTERN, STORE_GRANTS}
      then page_type = PropSlotted
      else False)"

definition shape_by_kind :: "DeltaOp \<Rightarrow> ArcGraphError + unit" where
  "shape_by_kind op =
     (let lsn = do_op_lsn op; store_id = do_store_id op; payload = do_payload op in
      case do_kind op of
        PutRecord \<Rightarrow>
          if \<not> (store_id = STORE_RECORD \<and> (length payload = 64 \<or> length payload = 96)
                \<or> store_id = STORE_RELS \<and> length payload = 96)
          then Inl (WalCorruption lsn ''PutRecord requires its direct home'') else Inr ()
      | TombstoneRecord \<Rightarrow>
          if store_id \<notin> {STORE_RECORD, STORE_RELS} \<or> payload \<noteq> []
          then Inl (WalCorruption lsn ''TombstoneRecord requires its direct home'') else Inr ()
      | PutPropBlock \<Rightarrow>
          if store_id \<noteq> STORE_PROPS \<or> payload = [] \<or> length payload > MAX_PROP_BLOCK_PAYLOAD
          then Inl (WalCorruption lsn ''PutPropBlock requires props.store'') else Inr ()
      | AllocAdvance \<Rightarrow>
          if length payload \<noteq> 9
          then Inl (WalCorruption lsn ''AllocAdvance payload must be kind(1) + high_water(8)'')
          else Inr ()
      | InternBind \<Rightarrow> validate_owner_delta InternBind store_id (do_page_no op) (do_slot op) payload lsn
      | AclGrant \<Rightarrow> validate_owner_delta AclGrant store_id (do_page_no op) (do_slot op) payload lsn
      | PageAlloc \<Rightarrow>
          if store_id \<notin> {STORE_PROPS, STORE_RECORD, STORE_RELS, STORE_TEL, STORE_NODE_BINDINGS,
                STORE_REL_BINDINGS, STORE_INTERN, STORE_GRANTS}
             \<or> do_slot op \<noteq> 0 \<or> length payload \<noteq> 9
          then Inl (WalCorruption lsn ''PageAlloc requires an active delta store'')
          else (case PageType_from_byte (payload ! 0) of
             Inl e \<Rightarrow> Inl (WalCorruption lsn ''PageAlloc carries invalid page type'')
           | Inr page_type \<Rightarrow>
               if \<not> page_type_matches_store store_id page_type
               then Inl (WalCorruption lsn ''PageAlloc page type does not belong to store'')
               else Inr ())
      | ExtentAlloc \<Rightarrow>
          if store_id \<notin> {STORE_PROPS, STORE_RECORD, STORE_RELS, STORE_TEL, STORE_BLOB_OVERFLOW,
                STORE_NODE_BINDINGS, STORE_REL_BINDINGS, STORE_INTERN, STORE_GRANTS}
             \<or> do_slot op \<noteq> 0
          then Inl (WalCorruption lsn ''ExtentAlloc requires an extent-backed store and slot=0'')
          else bind_res (ExtentAllocation_decode payload lsn) (\<lambda>a.
            bind_res (ExtentAllocation_directory_page_no a) (\<lambda>p.
              if p \<noteq> do_page_no op
              then Inl (WalCorruption lsn ''ExtentAlloc target is not its computed directory page'')
              else Inr ()))
      | _ \<Rightarrow> Inl (WalCorruption lsn ''DeltaOp kind has no implemented delta algebra''))"

definition validate_shape :: "DeltaOp \<Rightarrow> ArcGraphError + unit" where
  "validate_shape op =
     (let lsn = do_op_lsn op in
      if lsn = Lsn_ZERO then Inl (WalCorruption lsn ''DeltaOp op_lsn must be non-zero'')
      else if is_physical (do_kind op) then
        (if do_slot op \<ge> MAX_SLOTS \<and> do_kind op \<notin> {PageAlloc, ExtentAlloc}
         then Inl (WalCorruption lsn ''DeltaOp slot exceeds max'') else shape_by_kind op)
      else if do_page_no op \<noteq> 0 \<or> do_slot op \<noteq> 0
      then Inl (WalCorruption lsn ''logical DeltaOp must carry page_no=slot=0'')
      else shape_by_kind op)"

definition record_home :: "u16 \<Rightarrow> u16 \<Rightarrow> nat \<Rightarrow> bool" where
  "record_home v store_id n \<longleftrightarrow>
     (if v = BUNDLE_FORMAT_V9 then store_id = STORE_RECORD \<and> (n = 64 \<or> n = 96)
      else if v = BUNDLE_FORMAT_V10
      then store_id = STORE_RECORD \<and> n = 64 \<or> store_id = STORE_RELS \<and> n = 96
      else False)"

definition tombstone_home :: "u16 \<Rightarrow> u16 \<Rightarrow> bool" where
  "tombstone_home v store_id \<longleftrightarrow>
     (if v = BUNDLE_FORMAT_V9 then store_id = STORE_RECORD
      else if v = BUNDLE_FORMAT_V10 then store_id \<in> {STORE_RECORD, STORE_RELS}
      else False)"

definition validate_for_format :: "u16 \<Rightarrow> DeltaOp \<Rightarrow> ArcGraphError + unit" where
  "validate_for_format v op =
     (let lsn = do_op_lsn op in
      if \<not> is_emitted_for_format (do_kind op) v
      then Inl (WalCorruption lsn ''DeltaOp kind is reserved in declared WAL bundle format'')
      else if do_kind op = PutRecord \<and> \<not> record_home v (do_store_id op) (length (do_payload op))
      then Inl (WalCorruption lsn ''PutRecord requires its direct home'')
      else if do_kind op = TombstoneRecord \<and>
        (\<not> tombstone_home v (do_store_id op) \<or> do_payload op \<noteq> [])
      then Inl (WalCorruption lsn ''TombstoneRecord requires its direct home'')
      else validate_shape op)"

definition DeltaOp_new_for_format ::
  "u16 \<Rightarrow> DeltaOpKind \<Rightarrow> u16 \<Rightarrow> TenantId \<Rightarrow> u64 \<Rightarrow> u16 \<Rightarrow> Lsn \<Rightarrow> bytes \<Rightarrow> ArcGraphError + DeltaOp" where
  "DeltaOp_new_for_format v kind store_id tenant page_no slot op_lsn payload =
     (let op = \<lparr> do_kind = kind, do_store_id = store_id, do_tenant_id = tenant, do_page_no = page_no,
                 do_slot = slot, do_op_lsn = op_lsn, do_payload = payload \<rparr> in
      bind_res (validate_for_format v op) (\<lambda>_. Inr op))"

section \<open>Intents\<close>

definition DeltaIntent_page_alloc ::
  "u16 \<Rightarrow> TenantId \<Rightarrow> u64 \<Rightarrow> PageType \<Rightarrow> u64 \<Rightarrow> DeltaIntent" where
  "DeltaIntent_page_alloc store_id tenant page_no page_type generation =
     \<lparr> di_kind = PageAlloc, di_store_id = store_id, di_tenant_id = tenant, di_page_no = page_no,
       di_slot = 0, di_payload = PageType_as_byte page_type # le_bytes 8 generation \<rparr>"

definition DeltaIntent_extent_alloc :: "u16 \<Rightarrow> TenantId \<Rightarrow> ExtentAllocation \<Rightarrow> DeltaIntent run" where
  "DeltaIntent_extent_alloc store_id tenant a =
     (case ExtentAllocation_directory_page_no a of
        Inl e \<Rightarrow> Panicked
      | Inr p \<Rightarrow> Done \<lparr> di_kind = ExtentAlloc, di_store_id = store_id, di_tenant_id = tenant,
                       di_page_no = p, di_slot = 0, di_payload = ExtentAllocation_encode a \<rparr>)"

definition assign_for_format :: "DeltaIntent \<Rightarrow> Lsn \<Rightarrow> Lsn \<Rightarrow> u16 \<Rightarrow> ArcGraphError + DeltaOp" where
  "assign_for_format d op_lsn commit_lsn v =
     bind_res
       (if di_kind d = PutRecord then
          (if length (di_payload d) = 64 then Inr (buf_put 56 (le_bytes 8 commit_lsn) (di_payload d))
           else if length (di_payload d) = 96
           then Inr (buf_put 48 (le_bytes 8 commit_lsn) (di_payload d))
           else Inl (WalCorruption op_lsn
             ''PutRecord intent payload is not a node or relationship record''))
        else Inr (di_payload d)) (\<lambda>payload.
       DeltaOp_new_for_format v (di_kind d) (di_store_id d) (di_tenant_id d) (di_page_no d) (di_slot d)
         op_lsn payload)"

definition put_record_mvcc_write :: "DeltaOp \<Rightarrow> ArcGraphError + (u64 \<times> bytes) option" where
  "put_record_mvcc_write op =
     (if do_kind op \<noteq> PutRecord then Inr None
      else if length (do_payload op) = NodeRecord_SIZE
      then Inr (Some (from_le (buf_get 0 8 (do_payload op)), do_payload op))
      else if length (do_payload op) = RelRecord_SIZE
      then Inr (Some (from_le (buf_get 0 8 (do_payload op)) OR push_bit 63 1, do_payload op))
      else Inl (WalCorruption (do_op_lsn op) ''PutRecord payload is not a node or relationship record''))"

section \<open>Wire codec\<close>

definition encode_into_for_format :: "DeltaOp \<Rightarrow> bytes \<Rightarrow> u16 \<Rightarrow> ArcGraphError + bytes" where
  "encode_into_for_format op out v =
     bind_res (validate_for_format v op) (\<lambda>_.
       if length (do_payload op) \<ge> 2 ^ 32
       then Inl (WalCorruption (do_op_lsn op) ''DeltaOp payload length does not fit in u32'')
       else Inr (out @ [DeltaOpKind_as_byte (do_kind op)] @ le_bytes 2 (do_store_id op) @ [0]
         @ le_bytes 8 (do_tenant_id op) @ le_bytes 8 (do_page_no op) @ le_bytes 2 (do_slot op)
         @ le_bytes 8 (do_op_lsn op) @ le_bytes 4 (word_of_nat (length (do_payload op)) :: u32)
         @ do_payload op))"

definition decode_prefix_for_format :: "bytes \<Rightarrow> u16 \<Rightarrow> ArcGraphError + DeltaOp \<times> nat" where
  "decode_prefix_for_format bs v =
     (if length bs < FIXED_PREFIX_LEN
      then Inl (WalCorruption Lsn_ZERO ''truncated DeltaOp fixed prefix'')
      else if bs ! 3 \<noteq> 0 then Inl (WalCorruption Lsn_ZERO ''DeltaOp reserved byte must be 0'')
      else
        let op_lsn = from_le (buf_get 22 8 bs);
            payload_len = unat (from_le (buf_get 30 4 bs) :: u32);
            stop = FIXED_PREFIX_LEN + payload_len in
        if stop > length bs then Inl (WalCorruption op_lsn ''DeltaOp payload overruns bundle'')
        else bind_res (DeltaOpKind_from_byte (bs ! 0) op_lsn) (\<lambda>kind.
          let op = \<lparr> do_kind = kind, do_store_id = from_le (buf_get 1 2 bs),
                     do_tenant_id = from_le (buf_get 4 8 bs), do_page_no = from_le (buf_get 12 8 bs),
                     do_slot = from_le (buf_get 20 2 bs), do_op_lsn = op_lsn,
                     do_payload = buf_get FIXED_PREFIX_LEN payload_len bs \<rparr> in
          bind_res (validate_for_format v op) (\<lambda>_. Inr (op, stop))))"

section \<open>The codec is exact\<close>

definition delta_bytes :: "DeltaOp \<Rightarrow> bytes" where
  "delta_bytes op =
     [DeltaOpKind_as_byte (do_kind op)] @ le_bytes 2 (do_store_id op) @ [0]
       @ le_bytes 8 (do_tenant_id op) @ le_bytes 8 (do_page_no op) @ le_bytes 2 (do_slot op)
       @ le_bytes 8 (do_op_lsn op) @ le_bytes 4 (word_of_nat (length (do_payload op)) :: u32)
       @ do_payload op"

lemma kind_byte_roundtrip [simp]: "DeltaOpKind_from_byte (DeltaOpKind_as_byte k) lsn = Inr k"
  by (cases k) (simp_all add: DeltaOpKind_from_byte_def)

lemma kind_from_byte_Inr: "DeltaOpKind_from_byte b lsn = Inr k \<longleftrightarrow> b = DeltaOpKind_as_byte k"
  by (auto simp: DeltaOpKind_from_byte_def split: if_splits) (cases k; simp)+

lemma length_delta_bytes [simp]: "length (delta_bytes op) = DeltaOp_encoded_len op"
  by (simp add: delta_bytes_def DeltaOp_encoded_len_def FIXED_PREFIX_LEN_def)

lemma encode_into_iff:
  "encode_into_for_format op out v = Inr out' \<longleftrightarrow>
     validate_for_format v op = Inr () \<and> length (do_payload op) < 2 ^ 32 \<and> out' = out @ delta_bytes op"
  by (auto simp: encode_into_for_format_def delta_bytes_def bind_res_Inr_iff)

lemma delta_bytes_fields:
  "delta_bytes op ! 0 = DeltaOpKind_as_byte (do_kind op)" "delta_bytes op ! 3 = 0"
  "buf_get 1 2 (delta_bytes op) = le_bytes 2 (do_store_id op)"
  "buf_get 4 8 (delta_bytes op) = le_bytes 8 (do_tenant_id op)"
  "buf_get 12 8 (delta_bytes op) = le_bytes 8 (do_page_no op)"
  "buf_get 20 2 (delta_bytes op) = le_bytes 2 (do_slot op)"
  "buf_get 22 8 (delta_bytes op) = le_bytes 8 (do_op_lsn op)"
  "buf_get 30 4 (delta_bytes op) = le_bytes 4 (word_of_nat (length (do_payload op)) :: u32)"
  "buf_get 34 (length (do_payload op)) (delta_bytes op) = do_payload op"
  by (simp_all add: delta_bytes_def nth_append nth_Cons' buf_get_def)

lemma decode_delta_bytes:
  assumes "validate_for_format v op = Inr ()" "length (do_payload op) < 2 ^ 32"
  shows "decode_prefix_for_format (delta_bytes op @ rest) v = Inr (op, DeltaOp_encoded_len op)"
proof -
  have len: "unat (word_of_nat (length (do_payload op)) :: u32) = length (do_payload op)"
    using assms(2) by (simp add: unat_of_nat)
  have eta: "\<lparr>do_kind = do_kind op, do_store_id = do_store_id op, do_tenant_id = do_tenant_id op,
      do_page_no = do_page_no op, do_slot = do_slot op, do_op_lsn = do_op_lsn op,
      do_payload = do_payload op\<rparr> = op"
    by simp
  have n: "length (delta_bytes op) = 34 + length (do_payload op)"
    by (simp add: DeltaOp_encoded_len_def FIXED_PREFIX_LEN_def)
  show ?thesis
    using assms(1) n
    by (simp add: decode_prefix_for_format_def FIXED_PREFIX_LEN_def DeltaOp_encoded_len_def Let_def nth_append
        buf_get_append1 delta_bytes_fields len eta del: length_delta_bytes One_nat_def)
qed

lemma decode_delta_lossless:
  assumes "decode_prefix_for_format bs v = Inr (op, n)"
  shows "validate_for_format v op = Inr ()" "length (do_payload op) < 2 ^ 32"
    "n = DeltaOp_encoded_len op" "take n bs = delta_bytes op"
proof -
  define k where "k = unat (from_le (buf_get 30 4 bs) :: u32)"
  have d: "34 + k \<le> length bs" "bs ! 3 = 0" "n = 34 + k" "bs ! 0 = DeltaOpKind_as_byte (do_kind op)"
    "do_store_id op = from_le (buf_get 1 2 bs)" "do_tenant_id op = from_le (buf_get 4 8 bs)"
    "do_page_no op = from_le (buf_get 12 8 bs)" "do_slot op = from_le (buf_get 20 2 bs)"
    "do_op_lsn op = from_le (buf_get 22 8 bs)" "do_payload op = buf_get 34 k bs"
    "validate_for_format v op = Inr ()"
    using assms unfolding k_def
    by (auto simp: decode_prefix_for_format_def FIXED_PREFIX_LEN_def Let_def bind_res_Inr_iff
        kind_from_byte_Inr not_less split: if_splits)
  have len: "length (do_payload op) = k" using d(1,10) by simp
  have "k < 2 ^ 32" using unsigned_less [of "from_le (buf_get 30 4 bs) :: u32"] by (simp add: k_def)
  with len show "length (do_payload op) < 2 ^ 32" by simp
  show "validate_for_format v op = Inr ()" by (rule d(11))
  show n: "n = DeltaOp_encoded_len op"
    using d(3) len by (simp add: DeltaOp_encoded_len_def FIXED_PREFIX_LEN_def)
  have w: "word_of_nat k = (from_le (buf_get 30 4 bs) :: u32)" by (simp add: k_def)
  have b: "length bs \<ge> 34" "bs \<noteq> []" using d(1) by auto
  have one: "buf_get 0 1 (delta_bytes op) = buf_get 0 1 bs" "buf_get 3 1 (delta_bytes op) = buf_get 3 1 bs"
    using d(2,4) b n d(3) by (simp_all add: buf_get_1 delta_bytes_fields del: One_nat_def)
  have "delta_bytes op = take n bs"
  proof (rule buf_eq_by_fields [of "[1, 2, 1, 8, 8, 2, 8, 4, k]"])
    show "same_fields 0 [1, 2, 1, 8, 8, 2, 8, 4, k] (delta_bytes op) (take n bs)"
      using one delta_bytes_fields [of op] d(1,3,5-10) b
      by (simp add: len w buf_get_take le_bytes_from_le_u16 le_bytes_from_le_u32 le_bytes_from_le_u64
          del: One_nat_def)
    show "length (delta_bytes op) = sum_list [1, 2, 1, 8, 8, 2, 8, 4, k]" using n d(3) by simp
    show "length (take n bs) = sum_list [1, 2, 1, 8, 8, 2, 8, 4, k]" using d(1,3) by simp
  qed
  then show "take n bs = delta_bytes op" by simp
qed

text \<open>C27: the delta codec is exact. A buffer decodes under a bundle format to an operation and a length if
  and only if it starts with the encoding of that operation under the format and the length is the
  length of the encoding. So an operation that a format reserves, or whose store, page, slot or payload
  is illegal, is neither written nor read.\<close>

theorem delta_codec_exact:
  "(decode_prefix_for_format bs v = Inr (op, n)) =
     (\<exists>enc rest. encode_into_for_format op [] v = Inr enc \<and> bs = enc @ rest \<and> n = length enc)"
proof
  assume d: "decode_prefix_for_format bs v = Inr (op, n)"
  note l = decode_delta_lossless [OF d]
  have "encode_into_for_format op [] v = Inr (delta_bytes op)"
    using l(1,2) by (simp add: encode_into_iff)
  moreover have "bs = delta_bytes op @ drop n bs" using l(4) by (metis append_take_drop_id)
  ultimately show "\<exists>enc rest. encode_into_for_format op [] v = Inr enc \<and> bs = enc @ rest \<and> n = length enc"
    using l(3) by auto
next
  assume "\<exists>enc rest. encode_into_for_format op [] v = Inr enc \<and> bs = enc @ rest \<and> n = length enc"
  then show "decode_prefix_for_format bs v = Inr (op, n)"
    using decode_delta_bytes by (auto simp: encode_into_iff)
qed

section \<open>Record writes\<close>

lemma NodeRecord_restamp:
  "buf_put 56 (le_bytes 8 c) (NodeRecord_to_bytes r) = NodeRecord_to_bytes (r\<lparr>nr_created_lsn := c\<rparr>)"
  by (rule buf_eq_by_fields [of "[56, 8]"])
    (simp_all add: NodeRecord_to_bytes_def NodeRecord_SIZE_def Let_def buf_simps)

lemma RelRecord_restamp:
  "buf_put 48 (le_bytes 8 c) (RelRecord_to_bytes r) = RelRecord_to_bytes (r\<lparr>rr_created_lsn := c\<rparr>)"
proof -
  have get: "buf_get 0 48 (buf_put 48 (le_bytes 8 c) (RelRecord_to_bytes r)) =
      buf_get 0 48 (RelRecord_to_bytes (r\<lparr>rr_created_lsn := c\<rparr>))"
    "buf_get 48 8 (buf_put 48 (le_bytes 8 c) (RelRecord_to_bytes r)) =
      buf_get 48 8 (RelRecord_to_bytes (r\<lparr>rr_created_lsn := c\<rparr>))"
    "buf_get 56 8 (buf_put 48 (le_bytes 8 c) (RelRecord_to_bytes r)) =
      buf_get 56 8 (RelRecord_to_bytes (r\<lparr>rr_created_lsn := c\<rparr>))"
    "buf_get 64 4 (buf_put 48 (le_bytes 8 c) (RelRecord_to_bytes r)) =
      buf_get 64 4 (RelRecord_to_bytes (r\<lparr>rr_created_lsn := c\<rparr>))"
    "buf_get 68 28 (buf_put 48 (le_bytes 8 c) (RelRecord_to_bytes r)) =
      buf_get 68 28 (RelRecord_to_bytes (r\<lparr>rr_created_lsn := c\<rparr>))"
    by (simp_all add: RelRecord_to_bytes_def RelRecord_SIZE_def Let_def buf_simps)
  show ?thesis
    by (rule buf_eq_by_fields [of "[48, 8, 8, 4, 28]"]) (use get in simp_all)
qed

lemma new_for_format_Inr:
  "DeltaOp_new_for_format v kind store_id tenant page_no slot op_lsn payload = Inr op \<Longrightarrow>
     do_kind op = kind \<and> do_payload op = payload \<and> do_op_lsn op = op_lsn \<and> validate_for_format v op = Inr ()"
  by (auto simp: DeltaOp_new_for_format_def Let_def bind_res_Inr_iff)

lemma assign_Inr:
  assumes "assign_for_format d op_lsn c v = Inr op" "di_kind d = PutRecord"
  shows "do_kind op = PutRecord" "do_payload op =
    (if length (di_payload d) = 64 then buf_put 56 (le_bytes 8 c) (di_payload d)
     else buf_put 48 (le_bytes 8 c) (di_payload d))"
  using assms by (auto simp: assign_for_format_def bind_res_Inr_iff dest!: new_for_format_Inr split: if_splits)

text \<open>C28: committing a record stamps the commit LSN and nothing else. When an intent that carries an
  encoded node is assigned its LSNs, the version that replay rebuilds from the operation is keyed by the
  node's id and is the encoding of the same node with its creation LSN replaced by the commit LSN; for a
  relationship it is the same with the tag bit in the key.\<close>

theorem assign_stamps_created_lsn:
  assumes "assign_for_format d op_lsn c v = Inr op" "di_kind d = PutRecord"
  shows "(di_payload d = NodeRecord_to_bytes n \<longrightarrow>
      put_record_mvcc_write op = Inr (Some (nr_id n, NodeRecord_to_bytes (n\<lparr>nr_created_lsn := c\<rparr>)))) \<and>
    (di_payload d = RelRecord_to_bytes r \<longrightarrow>
      put_record_mvcc_write op =
        Inr (Some (rr_id r OR REL_TAG_BIT, RelRecord_to_bytes (r\<lparr>rr_created_lsn := c\<rparr>))))"
proof -
  have n: "buf_get 0 8 (NodeRecord_to_bytes m) = le_bytes 8 (nr_id m)" for m
    by (simp add: NodeRecord_to_bytes_def NodeRecord_SIZE_def Let_def buf_simps)
  have r: "buf_get 0 8 (RelRecord_to_bytes m) = le_bytes 8 (rr_id m)" for m
    by (simp add: RelRecord_to_bytes_def RelRecord_SIZE_def Let_def buf_simps)
  show ?thesis
    using assign_Inr [OF assms]
    by (auto simp: put_record_mvcc_write_def NodeRecord_SIZE_def RelRecord_SIZE_def REL_TAG_BIT_def
        NodeRecord_restamp RelRecord_restamp n r)
qed

definition demo_intent :: DeltaIntent where
  "demo_intent = \<lparr> di_kind = PutRecord, di_store_id = STORE_RECORD, di_tenant_id = 1, di_page_no = 3,
     di_slot = 5, di_payload = NodeRecord_to_bytes (NodeRecord_new 42 7 0) \<rparr>"

lemma demo_assigned: "\<exists>op. assign_for_format demo_intent 10 12 BUNDLE_FORMAT_V9 = Inr op"
  by (simp add: demo_intent_def assign_for_format_def DeltaOp_new_for_format_def validate_for_format_def
      is_emitted_for_format_def is_emitted_at_m3_def record_home_def BUNDLE_FORMAT_V9_def validate_shape_def
      shape_by_kind_def is_physical_def Lsn_ZERO_def Let_def)

theorem assign_stamps_created_lsn_witness:
  "\<exists>op. assign_for_format demo_intent 10 12 BUNDLE_FORMAT_V9 = Inr op \<and>
     put_record_mvcc_write op = Inr (Some (42, NodeRecord_to_bytes (NodeRecord_new 42 7 12)))"
proof -
  obtain op where op: "assign_for_format demo_intent 10 12 BUNDLE_FORMAT_V9 = Inr op"
    using demo_assigned by blast
  have "di_kind demo_intent = PutRecord" "di_payload demo_intent = NodeRecord_to_bytes (NodeRecord_new 42 7 0)"
    by (simp_all add: demo_intent_def)
  with assign_stamps_created_lsn [OF op, of "NodeRecord_new 42 7 0"] op show ?thesis
    by (auto simp: NodeRecord_new_def)
qed

text \<open>C31: what format 10 takes over from format 9. An operation that is legal in format 9 is legal in
  format 10 unless it writes a relationship record: its home is then \<open>record.store\<close>, and format 10 accepts
  relationships in \<open>rels.store\<close> only. So format 10 does not just extend the legal set of format 9.\<close>

theorem v10_accepts_v9:
  assumes "validate_for_format BUNDLE_FORMAT_V9 op = Inr ()"
  shows "(validate_for_format BUNDLE_FORMAT_V10 op = Inr ()) =
    (\<not> (do_kind op = PutRecord \<and> length (do_payload op) = 96))"
  using assms
  by (auto simp: validate_for_format_def is_emitted_for_format_def record_home_def tombstone_home_def
      BUNDLE_FORMAT_V9_def BUNDLE_FORMAT_V10_def store_ids Let_def split: if_splits)

theorem v10_accepts_v9_witness:
  "\<exists>op. assign_for_format demo_intent 10 12 BUNDLE_FORMAT_V9 = Inr op \<and>
     validate_for_format BUNDLE_FORMAT_V10 op = Inr ()"
proof -
  obtain op where op: "assign_for_format demo_intent 10 12 BUNDLE_FORMAT_V9 = Inr op"
    using demo_assigned by blast
  then have "validate_for_format BUNDLE_FORMAT_V9 op = Inr ()"
    by (auto simp: assign_for_format_def bind_res_Inr_iff dest!: new_for_format_Inr)
  moreover have "length (do_payload op) = 64"
    using assign_Inr(2) [OF op] by (simp add: demo_intent_def)
  ultimately show ?thesis using v10_accepts_v9 [of op] op by auto
qed

end
