(* ===== verification/Slotted_Page.thy ===== *)
theory Slotted_Page
  imports Owner_Row
begin

text \<open>
  Slotted pages (\<open>arcgraph-storage/src/records.rs\<close>): the 8 KiB page that holds node records,
  relationship records or property bags behind a slot directory. A page is its bytes. An operation
  is a function of the page that returns the page as it left it together with its result, or a panic:
  \<open>write_at\<close>, \<open>fill_zero\<close> and \<open>read_at\<close> panic on a range outside the page, \<open>SlottedPage_header\<close> on
  a header that does not decode, as the slice operations and the \<open>expect\<close> of the source do. Sums of
  \<open>u16\<close> lengths wrap, as in a release build. The CRC-32C of the external crate is the parameter
  \<open>crc\<close>.

  The lemmas at the end evaluate every effect on a page given as a header and a body
  (\<open>page_simps\<close>); the theories \<open>Page_Cells\<close> and \<open>Page_Direct\<close> build on them.
\<close>

section \<open>Errors and the effects of page operations\<close>

definition PERMANENT_TOMBSTONE_LEN :: u16 where "PERMANENT_TOMBSTONE_LEN = 0xFFFF"

datatype PageError =
    Full u16 u16
  | SlotOutOfRange u16 u16
  | SlotTombstoned u16
  | WrongPageType u8 u8
  | Format string
  | RecordDecode string
  | ChecksumMismatch u32 u32
  | StalePublish u16 u64 u64

text \<open>The fixed text of \<open>to_string\<close> for the errors that the record and header decoders return.\<close>

fun decode_text :: "ArcGraphError \<Rightarrow> string" where
  "decode_text (BadPageMagic _ _) = ''bad page magic''"
| "decode_text (UnsupportedRecordVersion _) = ''unsupported record format version''"
| "decode_text (UnknownPageType _) = ''unknown page type byte''"
| "decode_text (InvalidRecordLength _ _) = ''invalid record length''"
| "decode_text _ = ''error''"

type_synonym 'a page_op = "bytes \<Rightarrow> (bytes \<times> (PageError + 'a)) run"

definition page_ok :: "'a \<Rightarrow> 'a page_op" where
  "page_ok x p = Done (p, Inr x)"

definition page_err :: "PageError \<Rightarrow> 'a page_op" where
  "page_err e p = Done (p, Inl e)"

definition page_bind :: "'a page_op \<Rightarrow> ('a \<Rightarrow> 'b page_op) \<Rightarrow> 'b page_op" where
  "page_bind op f p =
     (case op p of
        Panicked \<Rightarrow> Panicked
      | Done (p', Inl e) \<Rightarrow> Done (p', Inl e)
      | Done (p', Inr x) \<Rightarrow> f x p')"

definition write_at :: "nat \<Rightarrow> bytes \<Rightarrow> unit page_op" where
  "write_at off bs p =
     (if off + length bs \<le> length p then Done (buf_put off bs p, Inr ()) else Panicked)"

definition fill_zero :: "nat \<Rightarrow> nat \<Rightarrow> unit page_op" where
  "fill_zero a b p =
     (if a \<le> b \<and> b \<le> length p then Done (buf_put a (replicate (b - a) 0) p, Inr ()) else Panicked)"

definition read_at :: "nat \<Rightarrow> nat \<Rightarrow> bytes page_op" where
  "read_at off n p = (if off + n \<le> length p then Done (p, Inr (buf_get off n p)) else Panicked)"

text \<open>\<open>checked_sub\<close> on \<open>usize\<close>, and \<open>u16::try_from\<close>.\<close>

definition checked_sub :: "nat \<Rightarrow> nat \<Rightarrow> nat option" where
  "checked_sub a b = (if b \<le> a then Some (a - b) else None)"

definition u16_try_from :: "nat \<Rightarrow> u16 option" where
  "u16_try_from n = (if n < 2 ^ 16 then Some (word_of_nat n) else None)"

section \<open>Attaching to a page\<close>

definition validate_slot_count :: "u16 \<Rightarrow> PageError + unit" where
  "validate_slot_count n =
     (if n > MAX_SLOTS then Inl (Format ''slot_count exceeds page capacity'') else Inr ())"

definition SlottedPage_header :: "PageHeader page_op" where
  "SlottedPage_header p =
     (if length p < PageHeader_SIZE then Panicked
      else case PageHeader_from_bytes (take PageHeader_SIZE p) of
             Inl _ \<Rightarrow> Panicked
           | Inr h \<Rightarrow> Done (p, Inr h))"

definition recompute_checksum :: "(bytes \<Rightarrow> u32) \<Rightarrow> unit page_op" where
  "recompute_checksum crc p = write_at 32 (le_bytes 4 (crc (drop PageHeader_SIZE p))) p"

definition SlottedPage_init :: "(bytes \<Rightarrow> u32) \<Rightarrow> PageHeader \<Rightarrow> unit page_op" where
  "SlottedPage_init crc header p =
     (if length p \<noteq> PAGE_SIZE then page_err (Format ''page buffer must be PAGE_SIZE bytes'') p
      else
        (case PageType_from_byte (ph_page_type header) of
           Inl _ \<Rightarrow> page_err (WrongPageType (ph_page_type header) (PageType_as_byte Node)) p
         | Inr t \<Rightarrow>
             if t \<noteq> Node \<and> t \<noteq> Rel \<and> t \<noteq> PropSlotted
             then page_err (WrongPageType (PageType_as_byte t) (PageType_as_byte Node)) p
             else
               let fresh = header\<lparr>ph_slot_count := 0, ph_free_space := word_of_nat PAGE_BODY_BYTES\<rparr> in
               page_bind (write_at 0 (PageHeader_to_bytes fresh)) (\<lambda>_.
               page_bind (fill_zero PageHeader_SIZE PAGE_SIZE) (\<lambda>_.
               recompute_checksum crc)) p))"

definition SlottedPageRef_open :: "(bytes \<Rightarrow> u32) \<Rightarrow> bytes \<Rightarrow> PageError + unit" where
  "SlottedPageRef_open crc p =
     (if length p \<noteq> PAGE_SIZE then Inl (Format ''page buffer must be PAGE_SIZE bytes'')
      else
        (case PageHeader_from_bytes (take PageHeader_SIZE p) of
           Inl e \<Rightarrow> Inl (Format (decode_text e))
         | Inr h \<Rightarrow>
             let computed = crc (drop PageHeader_SIZE p) in
             if computed \<noteq> ph_checksum h then Inl (ChecksumMismatch (ph_checksum h) computed)
             else validate_slot_count (ph_slot_count h)))"

definition SlottedPage_open :: "(bytes \<Rightarrow> u32) \<Rightarrow> bytes \<Rightarrow> PageError + unit" where
  "SlottedPage_open crc p =
     (if length p \<noteq> PAGE_SIZE then Inl (Format ''page buffer must be PAGE_SIZE bytes'')
      else
        (case PageHeader_from_bytes (take PageHeader_SIZE p) of
           Inl e \<Rightarrow> Inl (Format (decode_text e))
         | Inr h \<Rightarrow>
             let computed = crc (drop PageHeader_SIZE p) in
             if computed \<noteq> ph_checksum h then Inl (ChecksumMismatch (ph_checksum h) computed)
             else validate_slot_count (ph_slot_count h)))"

definition open_prop_trusted :: "bytes \<Rightarrow> PageError + unit" where
  "open_prop_trusted p =
     (if length p \<noteq> PAGE_SIZE then Inl (Format ''page buffer must be PAGE_SIZE bytes'')
      else
        (case PageHeader_from_bytes (take PageHeader_SIZE p) of
           Inl e \<Rightarrow> Inl (Format (decode_text e))
         | Inr h \<Rightarrow>
             if ph_page_type h \<noteq> PageType_as_byte PropSlotted
             then Inl (WrongPageType (ph_page_type h) (PageType_as_byte PropSlotted))
             else validate_slot_count (ph_slot_count h)))"

definition slot_count :: "u16 page_op" where
  "slot_count = page_bind SlottedPage_header (\<lambda>h. page_ok (ph_slot_count h))"

definition page_lsn :: "Lsn page_op" where
  "page_lsn = page_bind SlottedPage_header (\<lambda>h. page_ok (ph_lsn h))"

definition require_page_type :: "PageType \<Rightarrow> unit page_op" where
  "require_page_type expected =
     page_bind (read_at 5 1) (\<lambda>got.
       if hd got \<noteq> PageType_as_byte expected
       then page_err (WrongPageType (hd got) (PageType_as_byte expected)) else page_ok ())"

definition require_ref_page_type :: "PageType \<Rightarrow> unit page_op" where
  "require_ref_page_type expected =
     page_bind SlottedPage_header (\<lambda>h.
       if ph_page_type h \<noteq> PageType_as_byte expected
       then page_err (WrongPageType (ph_page_type h) (PageType_as_byte expected)) else page_ok ())"

section \<open>Reading slots\<close>

definition slot_offset :: "u16 \<Rightarrow> nat" where
  "slot_offset slot = SLOT_AREA_START + unat slot * SLOT_SIZE"

definition slot_entry :: "u16 \<Rightarrow> (u16 \<times> u16) option page_op" where
  "slot_entry slot =
     page_bind slot_count (\<lambda>count.
       if slot \<ge> count then page_err (SlotOutOfRange slot count)
       else if slot_offset slot + SLOT_SIZE > PAGE_SIZE
       then page_err (Format ''directory entry overruns page'')
       else
         page_bind (read_at (slot_offset slot) 2) (\<lambda>o_bytes.
         page_bind (read_at (slot_offset slot + 2) 2) (\<lambda>l_bytes.
           let record_off = from_le o_bytes; record_len = from_le l_bytes in
           if record_off = 0 \<and> (record_len = 0 \<or> record_len = PERMANENT_TOMBSTONE_LEN)
           then page_ok None
           else if unat record_off < SLOT_AREA_START + unat count * SLOT_SIZE
                \<or> unat record_off + unat record_len > PAGE_SIZE
           then page_err (Format ''slot points outside record area'')
           else page_ok (Some (record_off, record_len)))))"

definition is_permanent_tombstone :: "u16 \<Rightarrow> bool page_op" where
  "is_permanent_tombstone slot =
     page_bind slot_count (\<lambda>count.
       if slot \<ge> count then page_err (SlotOutOfRange slot count)
       else if slot_offset slot + SLOT_SIZE > PAGE_SIZE
       then page_err (Format ''directory entry overruns page'')
       else
         page_bind (read_at (slot_offset slot) 2) (\<lambda>o_bytes.
         page_bind (read_at (slot_offset slot + 2) 2) (\<lambda>l_bytes.
           page_ok ((from_le o_bytes :: u16) = 0 \<and> from_le l_bytes = PERMANENT_TOMBSTONE_LEN))))"

definition permanent_tombstone_lsn :: "u16 \<Rightarrow> u16 \<Rightarrow> u64 option page_op" where
  "permanent_tombstone_lsn slot fixed_record_len =
     page_bind (is_permanent_tombstone slot) (\<lambda>dead.
       if \<not> dead then page_ok None
       else if unat fixed_record_len < 8
       then page_err (Format ''fixed tombstone body is too short for its LSN'')
       else
         (case checked_sub PAGE_SIZE ((unat slot + 1) * unat fixed_record_len) of
            None \<Rightarrow> page_err (Format ''fixed tombstone offset underflow'')
          | Some start \<Rightarrow>
              page_bind (read_at start 8) (\<lambda>bs. page_ok (Some (from_le bs)))))"

definition read_fixed :: "nat \<Rightarrow> (bytes \<Rightarrow> ArcGraphError + 'a) \<Rightarrow> u16 \<Rightarrow> 'a option page_op" where
  "read_fixed n decode slot =
     page_bind (slot_entry slot) (\<lambda>entry.
       case entry of
         None \<Rightarrow> page_ok None
       | Some (off, len) \<Rightarrow>
           if unat len \<noteq> n then page_err (Format ''slot has unexpected length'')
           else
             page_bind (read_at (unat off) n) (\<lambda>buf.
               case decode buf of
                 Inl e \<Rightarrow> page_err (RecordDecode (decode_text e))
               | Inr r \<Rightarrow> page_ok (Some r)))"

definition read_node :: "u16 \<Rightarrow> NodeRecord option page_op" where
  "read_node = read_fixed NodeRecord_SIZE NodeRecord_from_bytes"

definition read_rel :: "u16 \<Rightarrow> RelRecord option page_op" where
  "read_rel = read_fixed RelRecord_SIZE RelRecord_from_bytes"

definition read_bag :: "u16 \<Rightarrow> bytes option page_op" where
  "read_bag slot =
     page_bind (require_page_type PropSlotted) (\<lambda>_.
     page_bind (slot_entry slot) (\<lambda>entry.
       case entry of
         None \<Rightarrow> page_ok None
       | Some (off, len) \<Rightarrow> page_bind (read_at (unat off) (unat len)) (\<lambda>buf. page_ok (Some buf))))"

text \<open>The body below a reusable tombstone, for the offline rewrite.\<close>

definition recover_tombstoned_fixed :: "nat \<Rightarrow> (bytes \<Rightarrow> ArcGraphError + 'a) \<Rightarrow> u16 \<Rightarrow> 'a option page_op" where
  "recover_tombstoned_fixed n decode slot =
     page_bind (slot_entry slot) (\<lambda>entry.
       if entry \<noteq> None then page_ok None
       else
         page_bind (is_permanent_tombstone slot) (\<lambda>dead.
           if dead then page_ok None
           else
             (case checked_sub PAGE_SIZE ((unat slot + 1) * n) of
                None \<Rightarrow> page_err (Format ''tombstone recovery offset underflow'')
              | Some start \<Rightarrow>
                  page_bind (read_at start n) (\<lambda>raw.
                    if list_all (\<lambda>b. b = 0) raw then page_ok None
                    else case decode raw of
                           Inl e \<Rightarrow> page_err (RecordDecode (decode_text e))
                         | Inr r \<Rightarrow> page_ok (Some r)))))"

definition recover_tombstoned_node :: "u16 \<Rightarrow> NodeRecord option page_op" where
  "recover_tombstoned_node slot =
     page_bind (require_ref_page_type Node) (\<lambda>_.
       recover_tombstoned_fixed NodeRecord_SIZE NodeRecord_from_bytes slot)"

definition recover_tombstoned_rel :: "u16 \<Rightarrow> RelRecord option page_op" where
  "recover_tombstoned_rel slot =
     page_bind (require_ref_page_type Rel) (\<lambda>_.
       recover_tombstoned_fixed RelRecord_SIZE RelRecord_from_bytes slot)"

text \<open>\<open>iter_nodes\<close> and \<open>iter_rels\<close> skip a slot that does not read as a record.\<close>

fun iter_from :: "(u16 \<Rightarrow> 'a option page_op) \<Rightarrow> nat list \<Rightarrow> bytes \<Rightarrow> (u16 \<times> 'a) list run" where
  "iter_from rd [] p = Done []"
| "iter_from rd (i # is) p =
     (case rd (word_of_nat i) p of
        Panicked \<Rightarrow> Panicked
      | Done (_, Inr (Some r)) \<Rightarrow>
          bind_run (iter_from rd is p) (\<lambda>rest. Done ((word_of_nat i, r) # rest))
      | Done _ \<Rightarrow> iter_from rd is p)"

definition iter_nodes :: "bytes \<Rightarrow> (u16 \<times> NodeRecord) list run" where
  "iter_nodes p =
     (case slot_count p of
        Done (_, Inr count) \<Rightarrow> iter_from read_node [0..<unat count] p
      | _ \<Rightarrow> Panicked)"

definition iter_rels :: "bytes \<Rightarrow> (u16 \<times> RelRecord) list run" where
  "iter_rels p =
     (case slot_count p of
        Done (_, Inr count) \<Rightarrow> iter_from read_rel [0..<unat count] p
      | _ \<Rightarrow> Panicked)"

section \<open>Changing slots\<close>

definition write_header :: "PageHeader \<Rightarrow> unit page_op" where
  "write_header h = write_at 0 (PageHeader_to_bytes h)"

definition write_entry :: "u16 \<Rightarrow> u16 \<Rightarrow> u16 \<Rightarrow> unit page_op" where
  "write_entry slot off len =
     page_bind (write_at (slot_offset slot) (le_bytes 2 off)) (\<lambda>_.
       write_at (slot_offset slot + 2) (le_bytes 2 len))"

text \<open>Where the next record goes, from the watermark of the header.\<close>

definition used_record_bytes :: "PageHeader \<Rightarrow> nat option" where
  "used_record_bytes h =
     Option.bind (checked_sub PAGE_BODY_BYTES (unat (ph_free_space h)))
       (\<lambda>rem. checked_sub rem (unat (ph_slot_count h) * SLOT_SIZE))"

definition record_start_of :: "string \<Rightarrow> string \<Rightarrow> PageHeader \<Rightarrow> nat \<Rightarrow> PageError + nat" where
  "record_start_of used_msg start_msg h rec_len =
     (case used_record_bytes h of
        None \<Rightarrow> Inl (Format used_msg)
      | Some used \<Rightarrow>
          (case Option.bind (checked_sub PAGE_SIZE used) (\<lambda>start. checked_sub start rec_len) of
             None \<Rightarrow> Inl (Format start_msg)
           | Some start \<Rightarrow> Inr start))"

definition insert_raw :: "(bytes \<Rightarrow> u32) \<Rightarrow> bytes \<Rightarrow> u16 page_op" where
  "insert_raw crc record_bytes =
     (case u16_try_from (length record_bytes) of
        None \<Rightarrow> page_err (Format ''record too large'')
      | Some rec_len \<Rightarrow>
          let needed = rec_len + 4 in
          page_bind SlottedPage_header (\<lambda>hdr.
            if ph_free_space hdr < needed then page_err (Full needed (ph_free_space hdr))
            else
              (case record_start_of ''record-area watermark underflow''
                       ''record-area watermark underflow: record_start underflow'' hdr (unat rec_len) of
                 Inl e \<Rightarrow> page_err e
               | Inr record_start \<Rightarrow>
                   page_bind (write_at record_start record_bytes) (\<lambda>_.
                     (case u16_try_from record_start of
                        None \<Rightarrow> page_err (Format ''record offset overflows u16'')
                      | Some rec_off \<Rightarrow>
                          page_bind (write_entry (ph_slot_count hdr) rec_off rec_len) (\<lambda>_.
                          page_bind (write_header (hdr\<lparr>ph_slot_count := ph_slot_count hdr + 1,
                                                     ph_free_space := ph_free_space hdr - needed\<rparr>)) (\<lambda>_.
                          page_bind (recompute_checksum crc) (\<lambda>_.
                            page_ok (ph_slot_count hdr)))))))))"

definition overwrite :: "(bytes \<Rightarrow> u32) \<Rightarrow> u16 \<Rightarrow> bytes \<Rightarrow> u16 \<Rightarrow> unit page_op" where
  "overwrite crc slot record_bytes expected_len =
     page_bind (slot_entry slot) (\<lambda>entry.
       case entry of
         None \<Rightarrow> page_err (SlotTombstoned slot)
       | Some (off, len) \<Rightarrow>
           if len \<noteq> expected_len then page_err (Format ''slot has unexpected length'')
           else if unat len \<noteq> length record_bytes then (\<lambda>_. Panicked)
           else page_bind (write_at (unat off) record_bytes) (\<lambda>_. recompute_checksum crc))"

definition put_fixed_at :: "(bytes \<Rightarrow> u32) \<Rightarrow> u16 \<Rightarrow> bytes \<Rightarrow> u16 \<Rightarrow> unit page_op" where
  "put_fixed_at crc slot record_bytes expected_len =
     page_bind slot_count (\<lambda>count.
       if slot = count then page_bind (insert_raw crc record_bytes) (\<lambda>_. page_ok ())
       else if slot > count then
         let gap_slots = slot - count in
         if unat gap_slots * SLOT_SIZE \<ge> 2 ^ 16
         then page_err (Format ''sparse slot directory overflow'')
         else
           let directory_bytes = gap_slots * 4;
               sum = unat directory_bytes + unat (expected_len + 4);
               needed = (if sum < 2 ^ 16 then word_of_nat sum else 0xFFFF) :: u16 in
           page_bind SlottedPage_header (\<lambda>hdr.
             if ph_free_space hdr < needed then page_err (Full needed (ph_free_space hdr))
             else
               page_bind (fill_zero (slot_offset count) (slot_offset slot)) (\<lambda>_.
               page_bind (write_header (hdr\<lparr>ph_slot_count := slot,
                                          ph_free_space := ph_free_space hdr - directory_bytes\<rparr>)) (\<lambda>_.
               page_bind (insert_raw crc record_bytes) (\<lambda>_. page_ok ()))))
       else
         page_bind (slot_entry slot) (\<lambda>entry.
           if entry \<noteq> None then overwrite crc slot record_bytes expected_len
           else
             page_bind SlottedPage_header (\<lambda>hdr.
               if ph_free_space hdr < expected_len
               then page_err (Full expected_len (ph_free_space hdr))
               else
                 (case record_start_of ''tombstone-revive watermark underflow''
                          ''tombstone-revive record offset underflow'' hdr (unat expected_len) of
                    Inl e \<Rightarrow> page_err e
                  | Inr record_start \<Rightarrow>
                      if unat expected_len \<noteq> length record_bytes then (\<lambda>_. Panicked)
                      else
                        page_bind (write_at record_start record_bytes) (\<lambda>_.
                        (case u16_try_from record_start of
                           None \<Rightarrow> page_err (Format ''record offset overflows u16'')
                         | Some record_offset \<Rightarrow>
                             page_bind (write_entry slot record_offset expected_len) (\<lambda>_.
                             page_bind (write_header (hdr\<lparr>ph_free_space :=
                                                        ph_free_space hdr - expected_len\<rparr>)) (\<lambda>_.
                             recompute_checksum crc))))))))"

definition tombstone :: "(bytes \<Rightarrow> u32) \<Rightarrow> u16 \<Rightarrow> unit page_op" where
  "tombstone crc slot =
     page_bind slot_count (\<lambda>count.
       if slot \<ge> count then page_err (SlotOutOfRange slot count)
       else page_bind (write_entry slot 0 0) (\<lambda>_. recompute_checksum crc))"

text \<open>The two halves of a direct-address write: reserving the slots up to the new high-water mark,
  and installing the record.\<close>

definition reserve_fixed :: "nat \<Rightarrow> nat \<Rightarrow> nat \<Rightarrow> unit page_op" where
  "reserve_fixed old_count new_count len =
     page_bind (fill_zero (SLOT_AREA_START + old_count * SLOT_SIZE)
                  (SLOT_AREA_START + new_count * SLOT_SIZE)) (\<lambda>_.
       (case (checked_sub PAGE_SIZE (old_count * len), checked_sub PAGE_SIZE (new_count * len)) of
          (None, _) \<Rightarrow> page_err (Format ''old fixed record offset underflow'')
        | (Some _, None) \<Rightarrow> page_err (Format ''new fixed record offset underflow'')
        | (Some old_record_start, Some new_record_start) \<Rightarrow>
            fill_zero new_record_start old_record_start))"

definition install_fixed ::
  "(bytes \<Rightarrow> u32) \<Rightarrow> u16 \<Rightarrow> bytes \<Rightarrow> u16 \<Rightarrow> nat \<Rightarrow> PageHeader \<Rightarrow> u16 \<Rightarrow> nat \<Rightarrow> unit page_op" where
  "install_fixed crc slot record_bytes expected_len record_start hdr new_count new_free =
     page_bind (write_at record_start record_bytes) (\<lambda>_.
       (case u16_try_from record_start of
          None \<Rightarrow> page_err (Format ''fixed record offset overflows u16'')
        | Some record_offset \<Rightarrow>
            page_bind (write_entry slot record_offset expected_len) (\<lambda>_.
              (case u16_try_from new_free of
                 None \<Rightarrow> page_err (Format ''free space overflows u16'')
               | Some free \<Rightarrow>
                   page_bind (write_header (hdr\<lparr>ph_slot_count := new_count,
                                              ph_free_space := free\<rparr>)) (\<lambda>_.
                   recompute_checksum crc)))))"

definition write_fixed_at_slot :: "(bytes \<Rightarrow> u32) \<Rightarrow> u16 \<Rightarrow> bytes \<Rightarrow> u16 \<Rightarrow> u16 \<Rightarrow> unit page_op" where
  "write_fixed_at_slot crc slot record_bytes expected_len capacity =
     (if slot \<ge> capacity then page_err (SlotOutOfRange slot capacity)
      else if length record_bytes \<noteq> unat expected_len
      then page_err (Format ''fixed record length does not match expected'')
      else
        page_bind SlottedPage_header (\<lambda>hdr.
          if ph_slot_count hdr > capacity
          then page_err (Format ''fixed page high-water exceeds capacity'')
          else
            let len = unat expected_len; old_count = unat (ph_slot_count hdr) in
            (case checked_sub PAGE_BODY_BYTES (old_count * (len + SLOT_SIZE)) of
               None \<Rightarrow> page_err (Format ''fixed page watermark underflow'')
             | Some expected_old_free \<Rightarrow>
                 if unat (ph_free_space hdr) \<noteq> expected_old_free
                 then page_err (Format ''non-canonical fixed page watermark'')
                 else if slot = 0xFFFF then page_err (Format ''fixed slot high-water overflow'')
                 else
                   let new_count = max (slot + 1) (ph_slot_count hdr) in
                   (case (checked_sub PAGE_BODY_BYTES (unat new_count * (len + SLOT_SIZE)),
                          checked_sub PAGE_SIZE ((unat slot + 1) * len)) of
                      (None, _) \<Rightarrow> page_err (Format ''fixed page exceeds page body'')
                    | (Some _, None) \<Rightarrow> page_err (Format ''fixed record offset underflow'')
                    | (Some new_free, Some record_start) \<Rightarrow>
                        if record_start < SLOT_AREA_START + unat new_count * SLOT_SIZE
                        then page_err (Format ''fixed slot overlaps directory'')
                        else
                          page_bind
                            (if slot < ph_slot_count hdr then slot_entry slot else page_ok None)
                            (\<lambda>entry.
                              if (case entry of None \<Rightarrow> False
                                  | Some (off, l) \<Rightarrow> unat off \<noteq> record_start \<or> l \<noteq> expected_len)
                              then page_err (Format ''slot is not canonical'')
                              else
                                page_bind
                                  (if new_count > ph_slot_count hdr
                                   then reserve_fixed old_count (unat new_count) len
                                   else page_ok ())
                                  (\<lambda>_. install_fixed crc slot record_bytes expected_len record_start
                                         hdr new_count new_free))))))"

definition write_fixed_permanent_tombstone ::
  "(bytes \<Rightarrow> u32) \<Rightarrow> u16 \<Rightarrow> Lsn \<Rightarrow> u16 \<Rightarrow> u16 \<Rightarrow> unit page_op" where
  "write_fixed_permanent_tombstone crc slot tombstone_lsn expected_len capacity =
     page_bind slot_count (\<lambda>count.
     page_bind (if slot < count then is_permanent_tombstone slot else page_ok False) (\<lambda>dead.
     page_bind (if dead then permanent_tombstone_lsn slot expected_len else page_ok None) (\<lambda>existing.
       if (case existing of None \<Rightarrow> False | Some l \<Rightarrow> tombstone_lsn \<le> l) then page_ok ()
       else if unat expected_len < 8 then (\<lambda>_. Panicked)
       else
         let marker_record = buf_put 0 (le_bytes 8 tombstone_lsn) (replicate (unat expected_len) 0) in
         if dead then
           (case checked_sub PAGE_SIZE ((unat slot + 1) * unat expected_len) of
              None \<Rightarrow> (\<lambda>_. Panicked)
            | Some record_start \<Rightarrow>
                page_bind (write_at record_start marker_record) (\<lambda>_. recompute_checksum crc))
         else
           page_bind (write_fixed_at_slot crc slot marker_record expected_len capacity) (\<lambda>_.
           page_bind (write_entry slot 0 PERMANENT_TOMBSTONE_LEN) (\<lambda>_. recompute_checksum crc)))))"

section \<open>The public operations\<close>

definition insert_node :: "(bytes \<Rightarrow> u32) \<Rightarrow> NodeRecord \<Rightarrow> u16 page_op" where
  "insert_node crc r = page_bind (require_page_type Node) (\<lambda>_. insert_raw crc (NodeRecord_to_bytes r))"

definition insert_rel :: "(bytes \<Rightarrow> u32) \<Rightarrow> RelRecord \<Rightarrow> u16 page_op" where
  "insert_rel crc r = page_bind (require_page_type Rel) (\<lambda>_. insert_raw crc (RelRecord_to_bytes r))"

definition insert_bag :: "(bytes \<Rightarrow> u32) \<Rightarrow> bytes \<Rightarrow> u16 page_op" where
  "insert_bag crc bag =
     page_bind (require_page_type PropSlotted) (\<lambda>_.
       if bag = [] then page_err (Format ''property bag payload is empty'')
       else if length bag > PROP_BAG_MAX_BYTES
       then page_err (Format ''property bag payload exceeds PROP_BAG_MAX_BYTES'')
       else insert_raw crc bag)"

definition update_node :: "(bytes \<Rightarrow> u32) \<Rightarrow> u16 \<Rightarrow> NodeRecord \<Rightarrow> unit page_op" where
  "update_node crc slot r =
     page_bind (require_page_type Node) (\<lambda>_.
       overwrite crc slot (NodeRecord_to_bytes r) (word_of_nat NodeRecord_SIZE))"

definition update_rel :: "(bytes \<Rightarrow> u32) \<Rightarrow> u16 \<Rightarrow> RelRecord \<Rightarrow> unit page_op" where
  "update_rel crc slot r =
     page_bind (require_page_type Rel) (\<lambda>_.
       overwrite crc slot (RelRecord_to_bytes r) (word_of_nat RelRecord_SIZE))"

text \<open>The test that refuses a slot with a permanent tombstone.\<close>

definition refuse_permanent :: "u16 \<Rightarrow> unit page_op" where
  "refuse_permanent slot =
     page_bind slot_count (\<lambda>count.
     page_bind (if slot < count then is_permanent_tombstone slot else page_ok False) (\<lambda>dead.
       if dead then page_err (SlotTombstoned slot) else page_ok ()))"

definition put_node_at :: "(bytes \<Rightarrow> u32) \<Rightarrow> u16 \<Rightarrow> NodeRecord \<Rightarrow> unit page_op" where
  "put_node_at crc slot r =
     page_bind (require_page_type Node) (\<lambda>_.
     page_bind (refuse_permanent slot) (\<lambda>_.
       put_fixed_at crc slot (NodeRecord_to_bytes r) (word_of_nat NodeRecord_SIZE)))"

definition put_rel_at :: "(bytes \<Rightarrow> u32) \<Rightarrow> u16 \<Rightarrow> RelRecord \<Rightarrow> unit page_op" where
  "put_rel_at crc slot r =
     page_bind (require_page_type Rel) (\<lambda>_.
     page_bind (refuse_permanent slot) (\<lambda>_.
       put_fixed_at crc slot (RelRecord_to_bytes r) (word_of_nat RelRecord_SIZE)))"

definition put_bag_at :: "(bytes \<Rightarrow> u32) \<Rightarrow> u16 \<Rightarrow> bytes \<Rightarrow> unit page_op" where
  "put_bag_at crc slot bag =
     page_bind (require_page_type PropSlotted) (\<lambda>_.
       if bag = [] \<or> length bag > PROP_BAG_MAX_BYTES
       then page_err (Format ''property bag payload length is outside its range'')
       else (case u16_try_from (length bag) of
               None \<Rightarrow> page_err (Format ''record too large'')
             | Some expected_len \<Rightarrow> put_fixed_at crc slot bag expected_len))"

definition put_fixed_bag_at_slot :: "(bytes \<Rightarrow> u32) \<Rightarrow> u16 \<Rightarrow> bytes \<Rightarrow> u16 \<Rightarrow> unit page_op" where
  "put_fixed_bag_at_slot crc slot bag capacity =
     page_bind (require_page_type PropSlotted) (\<lambda>_.
       (case u16_try_from (length bag) of
          None \<Rightarrow> page_err (Format ''record too large'')
        | Some expected_len \<Rightarrow>
            if expected_len = 0 \<or> unat expected_len > PROP_BAG_MAX_BYTES
            then page_err (Format ''fixed bag payload length is outside its range'')
            else page_bind (refuse_permanent slot) (\<lambda>_.
              write_fixed_at_slot crc slot bag expected_len capacity)))"

definition guard_monotone_publish :: "u16 \<Rightarrow> u64 \<Rightarrow> (u16 \<Rightarrow> u64 option page_op) \<Rightarrow> unit page_op" where
  "guard_monotone_publish slot incoming read_lsn =
     page_bind slot_count (\<lambda>count.
       if slot \<ge> count then page_ok ()
       else
         page_bind (is_permanent_tombstone slot) (\<lambda>dead.
           if dead then page_err (SlotTombstoned slot)
           else
             page_bind (read_lsn slot) (\<lambda>current.
               case current of
                 Some l \<Rightarrow> if incoming < l then page_err (StalePublish slot l incoming) else page_ok ()
               | None \<Rightarrow> page_ok ())))"

definition write_node_at_slot :: "(bytes \<Rightarrow> u32) \<Rightarrow> u16 \<Rightarrow> NodeRecord \<Rightarrow> unit page_op" where
  "write_node_at_slot crc slot r =
     page_bind (require_page_type Node) (\<lambda>_.
     page_bind (guard_monotone_publish slot (nr_created_lsn r)
        (\<lambda>s. page_bind (read_node s) (\<lambda>o_rec. page_ok (map_option nr_created_lsn o_rec)))) (\<lambda>_.
       write_fixed_at_slot crc slot (NodeRecord_to_bytes r) (word_of_nat NodeRecord_SIZE) NODE_CAPACITY))"

definition write_rel_at_slot :: "(bytes \<Rightarrow> u32) \<Rightarrow> u16 \<Rightarrow> RelRecord \<Rightarrow> unit page_op" where
  "write_rel_at_slot crc slot r =
     page_bind (require_page_type Rel) (\<lambda>_.
     page_bind (guard_monotone_publish slot (rr_created_lsn r)
        (\<lambda>s. page_bind (read_rel s) (\<lambda>o_rec. page_ok (map_option rr_created_lsn o_rec)))) (\<lambda>_.
       write_fixed_at_slot crc slot (RelRecord_to_bytes r) (word_of_nat RelRecord_SIZE) REL_CAPACITY))"

definition permanent_tombstone_node_at_slot :: "(bytes \<Rightarrow> u32) \<Rightarrow> u16 \<Rightarrow> Lsn \<Rightarrow> unit page_op" where
  "permanent_tombstone_node_at_slot crc slot l =
     page_bind (require_page_type Node) (\<lambda>_.
       write_fixed_permanent_tombstone crc slot l (word_of_nat NodeRecord_SIZE) NODE_CAPACITY)"

definition permanent_tombstone_rel_at_slot :: "(bytes \<Rightarrow> u32) \<Rightarrow> u16 \<Rightarrow> Lsn \<Rightarrow> unit page_op" where
  "permanent_tombstone_rel_at_slot crc slot l =
     page_bind (require_page_type Rel) (\<lambda>_.
       write_fixed_permanent_tombstone crc slot l (word_of_nat RelRecord_SIZE) REL_CAPACITY)"

definition permanent_tombstone_fixed_bag_at_slot ::
  "(bytes \<Rightarrow> u32) \<Rightarrow> u16 \<Rightarrow> Lsn \<Rightarrow> u16 \<Rightarrow> u16 \<Rightarrow> unit page_op" where
  "permanent_tombstone_fixed_bag_at_slot crc slot l fixed_len capacity =
     page_bind (require_page_type PropSlotted) (\<lambda>_.
       write_fixed_permanent_tombstone crc slot l fixed_len capacity)"

text \<open>One redo mutation: only when it is newer than the page, and then stamped on it.\<close>

definition page_apply_redo_if_newer :: "Lsn \<Rightarrow> unit page_op \<Rightarrow> bool page_op" where
  "page_apply_redo_if_newer op_lsn apply_op =
     page_bind page_lsn (\<lambda>l.
       if op_lsn \<le> l then page_ok False
       else
         page_bind apply_op (\<lambda>_.
         page_bind SlottedPage_header (\<lambda>header.
         page_bind (write_header (header\<lparr>ph_lsn := op_lsn\<rparr>)) (\<lambda>_. page_ok True))))"

section \<open>Pages as a header and a body\<close>

definition raw_page :: "PageHeader \<Rightarrow> bytes \<Rightarrow> bytes" where
  "raw_page h b = PageHeader_to_bytes h @ b"

named_theorems page_simps

lemmas layout_defs = PAGE_SIZE_def PageHeader_SIZE_def SLOT_AREA_START_def SLOT_SIZE_def
  NodeRecord_SIZE_def RelRecord_SIZE_def

lemma page_bind_simps [page_simps]:
  "page_bind (page_ok x) f p = f x p"
  "page_bind (page_err e) f p = Done (p, Inl e)"
  "page_bind (page_bind op f) g p = page_bind op (\<lambda>x. page_bind (f x) g) p"
  by (auto simp: page_bind_def page_ok_def page_err_def split: run.splits sum.splits)

lemma page_bind_Done:
  "op p = Done (p', Inr x) \<Longrightarrow> page_bind op f p = f x p'"
  "op p = Done (p', Inl e) \<Longrightarrow> page_bind op f p = Done (p', Inl e)"
  by (simp_all add: page_bind_def)

lemma length_raw_page [simp]: "length (raw_page h b) = 40 + length b"
  by (simp add: raw_page_def)

lemma drop_raw_page [simp]: "drop 40 (raw_page h b) = b"
  by (simp add: raw_page_def)

lemma raw_put_body:
  "40 \<le> off \<Longrightarrow> buf_put off bs (raw_page h b) = raw_page h (buf_put (off - 40) bs b)"
  by (simp add: raw_page_def buf_put_def)

lemma raw_get_body: "40 \<le> off \<Longrightarrow> buf_get off n (raw_page h b) = buf_get (off - 40) n b"
  by (simp add: raw_page_def buf_get_def)

lemma raw_put_header: "length bs = 40 \<Longrightarrow> buf_put 0 bs (raw_page h b) = bs @ b"
  by (simp add: raw_page_def buf_put_def)

lemma raw_put_checksum:
  "buf_put 32 (le_bytes 4 c) (raw_page h b) = raw_page (h\<lparr>ph_checksum := c\<rparr>) b"
proof -
  have "buf_put 32 (le_bytes 4 c) (PageHeader_to_bytes h) = PageHeader_to_bytes (h\<lparr>ph_checksum := c\<rparr>)"
    by (rule buf_eq_by_fields [of "[4, 1, 1, 2, 8, 8, 8, 4, 2, 2]"])
      (simp_all add: PageHeader_to_bytes_def PageHeader_SIZE_def buf_simps buf_get_1 del: One_nat_def)
  moreover have "buf_put 32 (le_bytes 4 c) (PageHeader_to_bytes h @ b) =
      buf_put 32 (le_bytes 4 c) (PageHeader_to_bytes h) @ b"
    by (simp add: buf_put_def)
  ultimately show ?thesis by (simp add: raw_page_def)
qed

lemma raw_page_type: "raw_page h b ! 5 = ph_page_type h"
  by (simp add: raw_page_def nth_append PageHeader_to_bytes_def PageHeader_SIZE_def buf_simps)

lemma raw_header [page_simps]:
  "header_wf h \<Longrightarrow> page_bind SlottedPage_header f (raw_page h b) = f h (raw_page h b)"
  using hdr_codec.dec_enc [of h]
  by (simp add: page_bind_def SlottedPage_header_def layout_defs raw_page_def)

lemma raw_slot_count [page_simps]:
  "header_wf h \<Longrightarrow> page_bind slot_count f (raw_page h b) = f (ph_slot_count h) (raw_page h b)"
  by (simp add: slot_count_def page_simps)

lemma raw_page_lsn [page_simps]:
  "header_wf h \<Longrightarrow> page_bind page_lsn f (raw_page h b) = f (ph_lsn h) (raw_page h b)"
  by (simp add: page_lsn_def page_simps)

lemma raw_require_page_type [page_simps]:
  "page_bind (require_page_type t) f (raw_page h b) =
     (if ph_page_type h = PageType_as_byte t then f () (raw_page h b)
      else Done (raw_page h b, Inl (WrongPageType (ph_page_type h) (PageType_as_byte t))))"
  using buf_get_1 [of 5 "raw_page h b"]
  by (simp add: page_bind_def require_page_type_def read_at_def page_ok_def page_err_def raw_page_type)

lemma raw_write_at [page_simps]:
  "40 \<le> off \<Longrightarrow> off + length bs \<le> 40 + length b \<Longrightarrow>
     page_bind (write_at off bs) f (raw_page h b) = f () (raw_page h (buf_put (off - 40) bs b))"
  by (simp add: page_bind_def write_at_def raw_put_body)

lemma raw_fill_zero [page_simps]:
  "40 \<le> a \<Longrightarrow> a \<le> c \<Longrightarrow> c \<le> 40 + length b \<Longrightarrow>
     page_bind (fill_zero a c) f (raw_page h b) =
       f () (raw_page h (buf_put (a - 40) (replicate (c - a) 0) b))"
  by (simp add: page_bind_def fill_zero_def raw_put_body)

lemma raw_read_at [page_simps]:
  "40 \<le> off \<Longrightarrow> off + n \<le> 40 + length b \<Longrightarrow>
     page_bind (read_at off n) f (raw_page h b) = f (buf_get (off - 40) n b) (raw_page h b)"
  by (simp add: page_bind_def read_at_def raw_get_body)

lemma raw_write_header [page_simps]:
  "page_bind (write_header h') f (raw_page h b) = f () (raw_page h' b)"
  by (simp add: page_bind_def write_header_def write_at_def raw_put_header) (simp add: raw_page_def)

lemma raw_checksum [page_simps]:
  "recompute_checksum crc (raw_page h b) = Done (raw_page (h\<lparr>ph_checksum := crc b\<rparr>) b, Inr ())"
  "page_bind (recompute_checksum crc) f (raw_page h b) = f () (raw_page (h\<lparr>ph_checksum := crc b\<rparr>) b)"
  by (simp_all add: page_bind_def recompute_checksum_def write_at_def layout_defs raw_put_checksum)

end
