(* ===== verification/Page_Cells.thy ===== *)
theory Page_Cells
  imports Slotted_Page
begin

text \<open>
  Slotted pages with records of any length. The predicate \<open>page_holds\<close> relates the bytes of a page to
  a list of cells and to the number of free bytes: the directory entry of a cell without a record is
  one of the two tombstone encodings, and the records of the others lie in the record area and do not
  overlap. Every operation of \<open>Slotted_Page\<close> refines an operation on the cells (\<open>refines\<close>).
\<close>

section \<open>The cells of a page\<close>

datatype cell = Hole | Dead | is_Live: Live bytes

definition entry_of :: "bytes \<Rightarrow> nat \<Rightarrow> u16 \<times> u16" where
  "entry_of b i = (from_le (buf_get (4 * i) 2 b), from_le (buf_get (4 * i + 2) 2 b))"

definition set_entry :: "nat \<Rightarrow> u16 \<Rightarrow> u16 \<Rightarrow> bytes \<Rightarrow> bytes" where
  "set_entry i off len b = buf_put (4 * i + 2) (le_bytes 2 len) (buf_put (4 * i) (le_bytes 2 off) b)"

fun cell_ok :: "nat \<Rightarrow> bytes \<Rightarrow> u16 \<times> u16 \<Rightarrow> cell \<Rightarrow> bool" where
  "cell_ok lo b e Hole \<longleftrightarrow> e = (0, 0)"
| "cell_ok lo b e Dead \<longleftrightarrow> e = (0, PERMANENT_TOMBSTONE_LEN)"
| "cell_ok lo b e (Live r) \<longleftrightarrow>
     r \<noteq> [] \<and> snd e = word_of_nat (length r) \<and> lo \<le> unat (fst e) \<and>
     unat (fst e) + length r \<le> 8192 \<and> buf_get (unat (fst e) - 40) (length r) b = r"

definition apart :: "u16 \<times> u16 \<Rightarrow> u16 \<times> u16 \<Rightarrow> bool" where
  "apart e e' \<longleftrightarrow>
     unat (fst e) + unat (snd e) \<le> unat (fst e') \<or> unat (fst e') + unat (snd e') \<le> unat (fst e)"

definition body_holds :: "nat \<Rightarrow> cell list \<Rightarrow> bytes \<Rightarrow> bool" where
  "body_holds free cs b \<longleftrightarrow>
     length b = 8152 \<and> 4 * length cs + free \<le> 8152 \<and>
     (\<forall>i < length cs. cell_ok (40 + 4 * length cs + free) b (entry_of b i) (cs ! i)) \<and>
     (\<forall>i < length cs. \<forall>j < length cs. i \<noteq> j \<longrightarrow> is_Live (cs ! i) \<longrightarrow> is_Live (cs ! j) \<longrightarrow>
        apart (entry_of b i) (entry_of b j))"

text \<open>The header that belongs to a layout; \<open>h\<close> fixes the other fields.\<close>

definition sealed_header :: "(bytes \<Rightarrow> u32) \<Rightarrow> PageHeader \<Rightarrow> nat \<Rightarrow> nat \<Rightarrow> bytes \<Rightarrow> PageHeader" where
  "sealed_header crc h n free b =
     h\<lparr>ph_slot_count := word_of_nat n, ph_free_space := word_of_nat free, ph_checksum := crc b\<rparr>"

definition page_holds :: "(bytes \<Rightarrow> u32) \<Rightarrow> PageHeader \<Rightarrow> nat \<Rightarrow> cell list \<Rightarrow> bytes \<Rightarrow> bool" where
  "page_holds crc h free cs p \<longleftrightarrow>
     header_wf h \<and>
     (\<exists>b. body_holds free cs b \<and> p = raw_page (sealed_header crc h (length cs) free b) b)"

lemma length_set_entry [simp]: "4 * i + 4 \<le> length b \<Longrightarrow> length (set_entry i off len b) = length b"
  by (simp add: set_entry_def)

lemma entry_set_entry:
  "4 * i + 4 \<le> length b \<Longrightarrow> 4 * j + 4 \<le> length b \<Longrightarrow>
     entry_of (set_entry i off len b) j = (if j = i then (off, len) else entry_of b j)"
  by (cases "j < i"; cases "j = i") (simp_all add: entry_of_def set_entry_def buf_simps)

lemma entry_put_record: "4 * j + 4 \<le> off \<Longrightarrow> off \<le> length b \<Longrightarrow> entry_of (buf_put off r b) j = entry_of b j"
  by (simp add: entry_of_def buf_simps)

lemma get_set_entry:
  "4 * i + 4 \<le> off \<Longrightarrow> 4 * i + 4 \<le> length b \<Longrightarrow> buf_get off n (set_entry i x y b) = buf_get off n b"
  by (simp add: set_entry_def buf_simps)

lemma raw_write_entry [page_simps]:
  "4 * unat slot + 4 \<le> length b \<Longrightarrow>
     page_bind (write_entry slot off len) f (raw_page h b) = f () (raw_page h (set_entry (unat slot) off len b))"
  by (simp add: write_entry_def page_simps slot_offset_def layout_defs set_entry_def mult.commute)

lemma header_wf_update [simp]:
  "header_wf (h\<lparr>ph_slot_count := n\<rparr>) = header_wf h" "header_wf (h\<lparr>ph_free_space := f\<rparr>) = header_wf h"
  "header_wf (h\<lparr>ph_checksum := c\<rparr>) = header_wf h" "header_wf (h\<lparr>ph_lsn := l\<rparr>) = header_wf h"
  by (simp_all add: header_wf_def)

lemma sealed_header_simps [simp]:
  "header_wf (sealed_header crc h n f b) = header_wf h"
  "ph_slot_count (sealed_header crc h n f b) = word_of_nat n"
  "ph_free_space (sealed_header crc h n f b) = word_of_nat f"
  "ph_page_type (sealed_header crc h n f b) = ph_page_type h"
  "ph_lsn (sealed_header crc h n f b) = ph_lsn h"
  by (simp_all add: sealed_header_def)

lemma body_holdsI:
  assumes "length b = 8152" "4 * length cs + free \<le> 8152"
    and "\<And>i. i < length cs \<Longrightarrow> cell_ok (40 + 4 * length cs + free) b (entry_of b i) (cs ! i)"
    and "\<And>i j. i < length cs \<Longrightarrow> j < length cs \<Longrightarrow> i \<noteq> j \<Longrightarrow> is_Live (cs ! i) \<Longrightarrow> is_Live (cs ! j) \<Longrightarrow>
      apart (entry_of b i) (entry_of b j)"
  shows "body_holds free cs b"
  using assms unfolding body_holds_def by blast

lemma body_apart:
  "body_holds free cs b \<Longrightarrow> i < length cs \<Longrightarrow> j < length cs \<Longrightarrow> i \<noteq> j \<Longrightarrow> is_Live (cs ! i) \<Longrightarrow>
     is_Live (cs ! j) \<Longrightarrow> apart (entry_of b i) (entry_of b j)"
  unfolding body_holds_def by blast

lemma body_bounds:
  assumes "body_holds free cs b"
  shows "length b = 8152" "4 * length cs + free \<le> 8152" "length cs \<le> 2038" "free \<le> 8152"
  using assms by (simp_all add: body_holds_def)

lemma unat_of_nat16 [simp]: "n < 65536 \<Longrightarrow> unat (word_of_nat n :: u16) = n"
  by (simp add: unat_of_nat)

text \<open>What the directory lookup returns for a cell.\<close>

definition entry_result :: "cell \<Rightarrow> u16 \<times> u16 \<Rightarrow> (u16 \<times> u16) option" where
  "entry_result c e = (if is_Live c then Some e else None)"

lemma cell_entry:
  assumes b: "body_holds free cs b" and i: "i < length cs"
  shows "cell_ok (40 + 4 * length cs + free) b (entry_of b i) (cs ! i)"
    and "cs ! i = Hole \<longleftrightarrow> entry_of b i = (0, 0)"
    and "cs ! i = Dead \<longleftrightarrow> entry_of b i = (0, PERMANENT_TOMBSTONE_LEN)"
    and "is_Live (cs ! i) \<Longrightarrow> 40 + 4 * length cs + free \<le> unat (fst (entry_of b i))"
    and "is_Live (cs ! i) \<Longrightarrow> unat (fst (entry_of b i)) + unat (snd (entry_of b i)) \<le> 8192"
proof -
  show c: "cell_ok (40 + 4 * length cs + free) b (entry_of b i) (cs ! i)"
    using b i by (simp add: body_holds_def)
  show "cs ! i = Hole \<longleftrightarrow> entry_of b i = (0, 0)"
    and "cs ! i = Dead \<longleftrightarrow> entry_of b i = (0, PERMANENT_TOMBSTONE_LEN)"
    and "is_Live (cs ! i) \<Longrightarrow> 40 + 4 * length cs + free \<le> unat (fst (entry_of b i))"
    and "is_Live (cs ! i) \<Longrightarrow> unat (fst (entry_of b i)) + unat (snd (entry_of b i)) \<le> 8192"
    using c by (cases "cs ! i"; auto simp: PERMANENT_TOMBSTONE_LEN_def)+
qed

lemma raw_slot_entry:
  assumes b: "body_holds free cs b" and h: "header_wf h" "ph_slot_count h = word_of_nat (length cs)"
    and i: "unat slot < length cs"
  shows "page_bind (slot_entry slot) f (raw_page h b) =
    f (entry_result (cs ! unat slot) (entry_of b (unat slot))) (raw_page h b)"
proof -
  note B = body_bounds [OF b]
  obtain off len where e: "entry_of b (unat slot) = (off, len)" by fastforce
  note c = cell_entry(2-5) [OF b i, unfolded e]
  have "slot < word_of_nat (length cs)" using B i by (simp add: word_less_nat_alt)
  moreover have "off = 0 \<and> (len = 0 \<or> len = PERMANENT_TOMBSTONE_LEN) \<longleftrightarrow> \<not> is_Live (cs ! unat slot)"
    using c by (cases "cs ! unat slot") auto
  ultimately show ?thesis using B i c h e
    by (auto simp: slot_entry_def page_simps slot_offset_def layout_defs entry_of_def entry_result_def
        mult.commute Let_def)
qed

lemma raw_is_permanent:
  assumes b: "body_holds free cs b" and h: "header_wf h" "ph_slot_count h = word_of_nat (length cs)"
    and i: "unat slot < length cs"
  shows "page_bind (is_permanent_tombstone slot) f (raw_page h b) =
    f (cs ! unat slot = Dead) (raw_page h b)"
proof -
  note B = body_bounds [OF b]
  have "slot < word_of_nat (length cs)" using B i by (simp add: word_less_nat_alt)
  then show ?thesis using B i cell_entry(3) [OF b i] h
    by (auto simp: is_permanent_tombstone_def page_simps slot_offset_def layout_defs entry_of_def
        mult.commute)
qed

text \<open>A cell keeps its content when its bytes and its entry do.\<close>

lemma cell_ok_frame:
  assumes "cell_ok lo b e c" "lo' \<le> lo"
    and "\<And>r. c = Live r \<Longrightarrow> buf_get (unat (fst e) - 40) (length r) b' = buf_get (unat (fst e) - 40) (length r) b"
  shows "cell_ok lo' b' e c"
  using assms by (cases c) auto

lemma live_length:
  assumes "body_holds free cs b" "i < length cs" "cs ! i = Live r"
  shows "unat (snd (entry_of b i)) = length r" "length r < 8153"
proof -
  have "cell_ok (40 + 4 * length cs + free) b (entry_of b i) (Live r)"
    using assms cell_entry(1) by metis
  then show "unat (snd (entry_of b i)) = length r" "length r < 8153" by auto
qed

text \<open>Placing a record below the watermark, for a new slot or for one without a record.\<close>

lemma body_place:
  fixes r :: bytes
  defines "need n i \<equiv> length r + (if i = n then 4 else 0)"
  assumes b: "body_holds f cs b" and r: "r \<noteq> []" and i: "i \<le> length cs" and f: "need (length cs) i \<le> f"
    and off: "unat off = 40 + 4 * length cs + f - length r"
  shows "body_holds (f - need (length cs) i)
    (if i = length cs then cs @ [Live r] else cs[i := Live r])
    (set_entry i off (word_of_nat (length r))
       (buf_put (4 * length cs + f - length r) r b))"
    (is "body_holds ?f ?cs ?b")
proof -
  note B = body_bounds [OF b]
  let ?n = "length cs" let ?off = "4 * length cs + f - length r"
  have lf: "length r \<le> f" and new: "i = ?n \<Longrightarrow> length r + 4 \<le> f"
    using f by (auto simp: need_def split: if_splits)
  have "4 * i + 4 \<le> ?off" using i lf new by (cases "i = ?n") auto
  moreover have "?off + length r \<le> 8152" using lf B by simp
  moreover have "i < length ?cs" using i by simp
  moreover have "40 + 4 * length ?cs + ?f = 40 + ?off" using i lf new by (cases "i = ?n") (simp_all add: need_def)
  ultimately have L: "4 * i + 4 \<le> ?off" "?off + length r \<le> 8152" "4 * i + 4 \<le> 8152"
    "i < length ?cs" "40 + 4 * length ?cs + ?f = 40 + ?off" "length r \<le> f"
    using lf by linarith+
  have o40: "unat off = 40 + ?off" using off L by simp
  have nth: "?cs ! j = (if j = i then Live r else cs ! j)" if "j < length ?cs" for j
    using that i by (auto simp: nth_append nth_list_update)
  have old: "j < ?n" if "j < length ?cs" "j \<noteq> i" for j using that i by (auto split: if_splits)
  have e: "entry_of ?b j = (if j = i then (off, word_of_nat (length r)) else entry_of b j)"
    if "j < length ?cs" for j
    using that L B old [OF that] i by (cases "j = i") (auto simp: entry_set_entry entry_put_record)
  have get: "buf_get o' n ?b = buf_get o' n b" if "?off + length r \<le> o'" for o' n
    using that L B by (simp add: get_set_entry buf_simps)
  have cell: "cell_ok (40 + ?off) ?b (entry_of ?b j) (?cs ! j)" if j: "j < length ?cs" for j
  proof (cases "j = i")
    case True
    then show ?thesis using nth [OF j] e [OF j] L B r o40 by (simp add: get_set_entry buf_simps)
  next
    case False
    note jn = old [OF j False]
    have "cell_ok (40 + ?off) ?b (entry_of b j) (cs ! j)"
    proof (rule cell_ok_frame [OF cell_entry(1) [OF b jn]])
      fix x assume "cs ! j = Live x"
      then have "?off + length r \<le> unat (fst (entry_of b j)) - 40"
        using cell_entry(4) [OF b jn] L(6) by simp
      then show "buf_get (unat (fst (entry_of b j)) - 40) (length x) ?b =
          buf_get (unat (fst (entry_of b j)) - 40) (length x) b" by (rule get)
    qed simp
    then show ?thesis using False nth [OF j] e [OF j] by simp
  qed
  have "apart (entry_of ?b j) (entry_of ?b k)"
    if jk: "j < length ?cs" "k < length ?cs" "j \<noteq> k" "is_Live (?cs ! j)" "is_Live (?cs ! k)" for j k
  proof -
    have lo: "40 + 4 * ?n + f \<le> unat (fst (entry_of b m))" if "m < length ?cs" "m \<noteq> i" "is_Live (?cs ! m)" for m
      using cell_entry(4) [OF b old [OF that(1,2)]] that(2,3) nth [OF that(1)] by simp
    have "apart (entry_of b j) (entry_of b k)" if ij: "j \<noteq> i" "k \<noteq> i"
      using body_apart [OF b old [OF jk(1) ij(1)] old [OF jk(2) ij(2)] jk(3)] jk(4,5) ij
        nth [OF jk(1)] nth [OF jk(2)] by simp
    then show ?thesis using jk lo [of j] lo [of k] e [of j] e [of k] L(2,6) o40
      by (cases "j = i"; cases "k = i") (auto simp: apart_def)
  qed
  then show ?thesis using cell L B by (intro body_holdsI) simp_all
qed

lemma body_overwrite:
  assumes b: "body_holds f cs b" and i: "i < length cs" and c: "cs ! i = Live old"
    and r: "length r = length old"
  shows "body_holds f (cs[i := Live r]) (buf_put (unat (fst (entry_of b i)) - 40) r b)"
    (is "body_holds f ?cs ?b")
proof -
  note B = body_bounds [OF b]
  let ?off = "unat (fst (entry_of b i)) - 40"
  have ci: "cell_ok (40 + 4 * length cs + f) b (entry_of b i) (Live old)"
    using cell_entry(1) [OF b i] c by simp
  then have L: "4 * length cs \<le> ?off" "?off + length r \<le> 8152" "40 \<le> unat (fst (entry_of b i))" "r \<noteq> []"
    using r by auto
  have e: "entry_of ?b j = entry_of b j" if "j < length cs" for j
    using that L B by (intro entry_put_record) auto
  have cell: "cell_ok (40 + 4 * length cs + f) ?b (entry_of b j) (?cs ! j)" if j: "j < length cs" for j
  proof (cases "j = i")
    case True
    then show ?thesis using ci i r L B by (simp add: buf_simps)
  next
    case False
    have "buf_get (unat (fst (entry_of b j)) - 40) (length x) ?b =
        buf_get (unat (fst (entry_of b j)) - 40) (length x) b" if x: "cs ! j = Live x" for x
    proof -
      have "apart (entry_of b i) (entry_of b j)" using b i j False c x by (simp add: body_holds_def)
      moreover have "40 \<le> unat (fst (entry_of b j))" using cell_entry(4) [OF b j] x by simp
      ultimately show ?thesis using live_length [OF b j x] live_length [OF b i c] r L B
        by (auto simp: apart_def intro: buf_get_put_before buf_get_put_after)
    qed
    then show ?thesis using cell_entry(1) [OF b j] False by (auto intro: cell_ok_frame)
  qed
  have "apart (entry_of b j) (entry_of b k)"
    if "j < length cs" "k < length cs" "j \<noteq> k" "is_Live (?cs ! j)" "is_Live (?cs ! k)" for j k
    using body_apart [OF b, of j k] that c i by (cases "j = i"; cases "k = i") simp_all
  then show ?thesis using cell e B L by (intro body_holdsI) simp_all
qed

text \<open>Writing a directory entry that names no record.\<close>

lemma body_mark:
  assumes b: "body_holds f cs b" and i: "i < length cs"
    and c: "c = Hole \<and> l = 0 \<or> c = Dead \<and> l = PERMANENT_TOMBSTONE_LEN"
  shows "body_holds f (cs[i := c]) (set_entry i 0 l b)"
proof -
  note B = body_bounds [OF b]
  have e: "entry_of (set_entry i 0 l b) j = (if j = i then (0, l) else entry_of b j)" if "j < length cs" for j
    using that i B by (simp add: entry_set_entry)
  have cell: "cell_ok (40 + 4 * length cs + f) (set_entry i 0 l b) (entry_of (set_entry i 0 l b) j) (cs[i := c] ! j)"
    if j: "j < length cs" for j
  proof (cases "j = i")
    case False
    have "is_Live (cs ! j) \<Longrightarrow> 4 * i + 4 \<le> unat (fst (entry_of b j)) - 40"
      using cell_entry(4) [OF b j] i by simp
    then have "cell_ok (40 + 4 * length cs + f) (set_entry i 0 l b) (entry_of b j) (cs ! j)"
      by (intro cell_ok_frame [OF cell_entry(1) [OF b j]]) (use i B in \<open>simp_all add: get_set_entry\<close>)
    then show ?thesis using False e [OF j] by simp
  qed (use c e [OF j] i in auto)
  have "apart (entry_of (set_entry i 0 l b) j) (entry_of (set_entry i 0 l b) k)"
    if "j < length cs" "k < length cs" "j \<noteq> k" "is_Live (cs[i := c] ! j)" "is_Live (cs[i := c] ! k)" for j k
    using body_apart [OF b, of j k] that c i e by (cases "j = i"; cases "k = i") auto
  then show ?thesis using cell B i by (intro body_holdsI) simp_all
qed

text \<open>Extending the directory by empty entries.\<close>

lemma body_gap:
  assumes b: "body_holds f cs b" and g: "4 * g \<le> f"
  shows "body_holds (f - 4 * g) (cs @ replicate g Hole) (buf_put (4 * length cs) (replicate (4 * g) 0) b)"
    (is "body_holds ?f ?cs ?b")
proof -
  note B = body_bounds [OF b]
  have L: "4 * length cs + 4 * g \<le> 8152" using B g by simp
  have zero: "from_le (buf_get (4 * j) 2 ?b) = (0 :: u16)" "from_le (buf_get (4 * j + 2) 2 ?b) = (0 :: u16)"
    if "length cs \<le> j" "j < length cs + g" for j
  proof -
    have "buf_get x 2 ?b = replicate 2 0" if "4 * length cs \<le> x" "x + 2 \<le> 4 * length cs + 4 * g" for x
      using that L B by (simp add: buf_get_put_inside buf_get_replicate)
    moreover have "from_le (replicate 2 0) = (0 :: u16)" by (simp add: numeral_2_eq_2)
    ultimately    show "from_le (buf_get (4 * j) 2 ?b) = (0 :: u16)" "from_le (buf_get (4 * j + 2) 2 ?b) = (0 :: u16)"
      using that by simp_all
  qed
  have e: "entry_of ?b j = (if j < length cs then entry_of b j else (0, 0))" if "j < length cs + g" for j
    using that L B zero [of j] by (auto simp: entry_put_record) (simp add: entry_of_def)
  have get: "buf_get x n ?b = buf_get x n b" if "4 * length cs + 4 * g \<le> x" for x n
    using that L B by (simp add: buf_simps)
  have cell: "cell_ok (40 + 4 * length cs + f) ?b (entry_of ?b j) (?cs ! j)" if j: "j < length cs + g" for j
  proof (cases "j < length cs")
    case True
    have "is_Live (cs ! j) \<Longrightarrow> 4 * length cs + 4 * g \<le> unat (fst (entry_of b j)) - 40"
      using cell_entry(4) [OF b True] g by simp
    then have "cell_ok (40 + 4 * length cs + f) ?b (entry_of b j) (cs ! j)"
      by (intro cell_ok_frame [OF cell_entry(1) [OF b True]]) (simp_all add: get)
    then show ?thesis using True e [OF j] by (simp add: nth_append)
  qed (use e [OF j] j in \<open>simp add: nth_append\<close>)
  have sz: "40 + 4 * length ?cs + ?f = 40 + 4 * length cs + f" using g by simp
  have "apart (entry_of ?b j) (entry_of ?b k)"
    if "j < length cs + g" "k < length cs + g" "j \<noteq> k" "is_Live (?cs ! j)" "is_Live (?cs ! k)" for j k
    using body_apart [OF b, of j k] that e by (auto simp: nth_append split: if_splits)
  moreover have "length ?b = 8152" "4 * length ?cs + ?f \<le> 8152" using L B g by simp_all
  ultimately show ?thesis using cell unfolding sz [symmetric] by (intro body_holdsI) simp_all
qed

section \<open>The operations on cells\<close>

lemma sealed_sealed [simp]:
  "sealed_header crc (sealed_header crc h n f b) n' f' b' = sealed_header crc h n' f' b'"
  "sealed_header crc (h\<lparr>ph_slot_count := x, ph_free_space := y\<rparr>) n' f' b' = sealed_header crc h n' f' b'"
  by (simp_all add: sealed_header_def)

definition placed :: "nat \<Rightarrow> nat \<Rightarrow> bytes \<Rightarrow> nat \<Rightarrow> bytes \<Rightarrow> bytes" where
  "placed n f r i b =
     set_entry i (word_of_nat (40 + 4 * n + f - length r)) (word_of_nat (length r))
       (buf_put (4 * n + f - length r) r b)"

text \<open>A header that agrees with the layout of the body.\<close>

definition layout_of :: "nat \<Rightarrow> cell list \<Rightarrow> PageHeader \<Rightarrow> bool" where
  "layout_of f cs h \<longleftrightarrow>
     header_wf h \<and> ph_slot_count h = word_of_nat (length cs) \<and> ph_free_space h = word_of_nat f"

lemma layout_sealed: "header_wf h \<Longrightarrow> layout_of f cs (sealed_header crc h (length cs) f b)"
  by (simp add: layout_of_def)

lemma layout_start:
  assumes "layout_of f cs h" "body_holds f cs b" "length r \<le> f"
  shows "record_start_of m1 m2 h (length r) = Inr (40 + 4 * length cs + f - length r)"
proof -
  note B = body_bounds [OF assms(2)]
  then have "used_record_bytes h = Some (8152 - f - 4 * length cs)"
    using assms(1) by (auto simp: used_record_bytes_def checked_sub_def layout_of_def layout_defs)
  then show ?thesis using B assms(3)
    by (auto simp: record_start_of_def checked_sub_def layout_defs)
qed

lemma insert_raw_eval:
  assumes l: "layout_of f cs h" and b: "body_holds f cs b" and r: "length r + 4 \<le> f"
  defines "b' \<equiv> placed (length cs) f r (length cs) b"
  shows "insert_raw crc r (raw_page h b) =
    Done (raw_page (sealed_header crc h (length cs + 1) (f - length r - 4) b') b', Inr (word_of_nat (length cs)))"
proof -
  note B = body_bounds [OF b]
  have needed: "(word_of_nat (length r) + 4 :: u16) = word_of_nat (length r + 4)" by simp
  have "length r < 8152" using B r by simp
  then have cv: "u16_try_from (length r) = Some (word_of_nat (length r))"
    "u16_try_from (40 + 4 * length cs + f - length r) = Some (word_of_nat (40 + 4 * length cs + f - length r))"
    using B r by (simp_all add: u16_try_from_def)
  have room: "\<not> (word_of_nat f :: u16) < word_of_nat (length r + 4)"
    using B r by (simp add: word_less_nat_alt del: of_nat_add)
  have hdr: "h\<lparr>ph_slot_count := word_of_nat (length cs) + 1,
      ph_free_space := word_of_nat f - word_of_nat (length r + 4), ph_checksum := crc b'\<rparr> =
      sealed_header crc h (length cs + 1) (f - length r - 4) b'"
    using r by (simp add: sealed_header_def of_nat_diff algebra_simps)
  show ?thesis
    using l cv room B r hdr layout_start [OF l b, of r]
    unfolding insert_raw_def Let_def needed
    by (simp add: page_simps layout_of_def page_ok_def b'_def placed_def)
qed

lemma page_holds_raw:
  "header_wf h \<Longrightarrow> body_holds f cs b \<Longrightarrow> n = length cs \<Longrightarrow>
     page_holds crc h f cs (raw_page (sealed_header crc h n f b) b)"
  by (auto simp: page_holds_def)

lemma body_placed:
  assumes "body_holds f cs b" "r \<noteq> []"
  shows "length r + 4 \<le> f \<Longrightarrow>
      body_holds (f - length r - 4) (cs @ [Live r]) (placed (length cs) f r (length cs) b)"
    and "length r \<le> f \<Longrightarrow> i < length cs \<Longrightarrow>
      body_holds (f - length r) (cs[i := Live r]) (placed (length cs) f r i b)"
proof -
  note B = body_bounds [OF assms(1)]
  let ?off = "word_of_nat (40 + 4 * length cs + f - length r) :: u16"
  have "unat ?off = 40 + 4 * length cs + f - length r" if "length r \<le> f"
    using B that by (subst unat_of_nat16) simp_all
  note P = body_place [OF assms _ _ this]
  show "length r + 4 \<le> f \<Longrightarrow>
      body_holds (f - length r - 4) (cs @ [Live r]) (placed (length cs) f r (length cs) b)"
    using P [of "length cs"] by (simp add: placed_def)
  show "length r \<le> f \<Longrightarrow> i < length cs \<Longrightarrow>
      body_holds (f - length r) (cs[i := Live r]) (placed (length cs) f r i b)"
    using P [of i] by (simp add: placed_def)
qed

lemma layout_checksum:
  "layout_of f cs h \<Longrightarrow> h\<lparr>ph_checksum := crc b\<rparr> = sealed_header crc h (length cs) f b"
  by (simp add: layout_of_def sealed_header_def)

lemma slot_entry_range:
  assumes l: "layout_of f cs h" and b: "body_holds f cs b" and i: "length cs \<le> unat slot"
  shows "page_bind (slot_entry slot) k (raw_page h b) =
    Done (raw_page h b, Inl (SlotOutOfRange slot (word_of_nat (length cs))))"
proof -
  have "word_of_nat (length cs) \<le> slot" using i body_bounds(3) [OF b] by (simp add: word_le_nat_alt)
  then show ?thesis using l by (simp add: slot_entry_def layout_of_def page_simps)
qed

lemma slot_entry_eval:
  assumes "layout_of f cs h" "body_holds f cs b" "unat slot < length cs"
  shows "page_bind (slot_entry slot) k (raw_page h b) =
    k (entry_result (cs ! unat slot) (entry_of b (unat slot))) (raw_page h b)"
  using assms by (intro raw_slot_entry) (auto simp: layout_of_def)

lemma is_permanent_eval:
  assumes "layout_of f cs h" "body_holds f cs b" "unat slot < length cs"
  shows "page_bind (is_permanent_tombstone slot) k (raw_page h b) =
    k (cs ! unat slot = Dead) (raw_page h b)"
  using assms by (intro raw_is_permanent) (auto simp: layout_of_def)

lemma overwrite_eval:
  assumes l: "layout_of f cs h" and b: "body_holds f cs b" and i: "unat slot < length cs"
    and c: "cs ! unat slot = Live old" and r: "length r = length old"
  defines "b' \<equiv> buf_put (unat (fst (entry_of b (unat slot))) - 40) r b"
  shows "overwrite crc slot r (word_of_nat (length r)) (raw_page h b) =
    Done (raw_page (sealed_header crc h (length cs) f b') b', Inr ())"
proof -
  obtain off len where e: "entry_of b (unat slot) = (off, len)" by fastforce
  have "cell_ok (40 + 4 * length cs + f) b (off, len) (Live old)"
    using cell_entry(1) [OF b i] c e by simp
  then have "len = word_of_nat (length r)" "40 \<le> unat off" "unat off + length r \<le> 8192" "unat len = length r"
    using r by auto
  then show ?thesis using body_bounds(1) [OF b] c e layout_checksum [OF l, of crc b']
    by (simp add: overwrite_def slot_entry_eval [OF l b i] entry_result_def page_simps b'_def)
qed

lemma overwrite_refused:
  assumes l: "layout_of f cs h" and b: "body_holds f cs b" and r: "length r < 8153"
    and i: "unat slot < length cs \<Longrightarrow> \<not> (\<exists>old. cs ! unat slot = Live old \<and> length old = length r)"
  shows "\<exists>e. overwrite crc slot r (word_of_nat (length r)) (raw_page h b) = Done (raw_page h b, Inl e)"
proof (cases "unat slot < length cs")
  case False
  then show ?thesis by (simp add: overwrite_def slot_entry_range [OF l b])
next
  case True
  obtain off len where e: "entry_of b (unat slot) = (off, len)" by fastforce
  show ?thesis
  proof (cases "cs ! unat slot")
    case (Live old)
    then have "unat len = length old" using live_length(1) [OF b True] e by simp
    moreover have "length old \<noteq> length r" using i [OF True] Live by blast
    ultimately have "len \<noteq> word_of_nat (length r)" using r by auto
    then show ?thesis using Live e
      by (simp add: overwrite_def slot_entry_eval [OF l b True] entry_result_def page_err_def)
  qed (simp_all add: overwrite_def slot_entry_eval [OF l b True] entry_result_def page_err_def)
qed

fun put_cells :: "nat \<Rightarrow> bytes \<Rightarrow> nat \<times> cell list \<Rightarrow> (nat \<times> cell list) option" where
  "put_cells i r (f, cs) =
     (if i < length cs then
        (case cs ! i of
           Live old \<Rightarrow> if length old = length r then Some (f, cs[i := Live r]) else None
         | _ \<Rightarrow> if length r \<le> f then Some (f - length r, cs[i := Live r]) else None)
      else
        let need = 4 * (i - length cs) + length r + 4 in
        if need \<le> f then Some (f - need, cs @ replicate (i - length cs) Hole @ [Live r]) else None)"

text \<open>An operation refines its specification on cells: it never panics, a refusal leaves the page as
  it was, and an accepted operation leaves a page with the cells of the specification.\<close>

type_synonym cells = "nat \<times> cell list"

fun meets ::
  "(bytes \<Rightarrow> u32) \<Rightarrow> PageHeader \<Rightarrow> bytes \<Rightarrow> (cells \<times> 'a) option \<Rightarrow> (bytes \<times> (PageError + 'a)) run \<Rightarrow> bool" where
  "meets crc h p None out \<longleftrightarrow> (\<exists>e. out = Done (p, Inl e))"
| "meets crc h p (Some ((f', cs'), x)) out \<longleftrightarrow>
     (\<exists>p'. out = Done (p', Inr x) \<and> page_holds crc h f' cs' p')"

definition refines ::
  "(bytes \<Rightarrow> u32) \<Rightarrow> PageHeader \<Rightarrow> 'a page_op \<Rightarrow> (cells \<Rightarrow> (cells \<times> 'a) option) \<Rightarrow> bool" where
  "refines crc h op spec \<longleftrightarrow>
     (\<forall>f cs p. page_holds crc h f cs p \<longrightarrow> meets crc h p (spec (f, cs)) (op p))"

fun append_cell :: "bytes \<Rightarrow> cells \<Rightarrow> (cells \<times> u16) option" where
  "append_cell r (f, cs) =
     (if length r + 4 \<le> f then Some ((f - length r - 4, cs @ [Live r]), word_of_nat (length cs)) else None)"

lemma insert_raw_refused:
  assumes l: "layout_of f cs h" and b: "body_holds f cs b" and r: "length r < 8153" "f < length r + 4"
  shows "\<exists>e. insert_raw crc r (raw_page h b) = Done (raw_page h b, Inl e)"
proof -
  have "(word_of_nat (length r) + 4 :: u16) = word_of_nat (length r + 4)" by simp
  moreover have "(word_of_nat f :: u16) < word_of_nat (length r + 4)"
    using body_bounds(4) [OF b] r by (simp add: word_less_nat_alt del: of_nat_add)
  ultimately show ?thesis using l r
    by (simp add: insert_raw_def Let_def u16_try_from_def page_simps layout_of_def page_err_def del: of_nat_add)
qed

lemma page_holdsE:
  assumes "page_holds crc h f cs p"
  obtains b where "body_holds f cs b" "p = raw_page (sealed_header crc h (length cs) f b) b"
    "layout_of f cs (sealed_header crc h (length cs) f b)" "header_wf h"
  using assms layout_sealed unfolding page_holds_def by metis

lemma insert_raw_refines:
  assumes "r \<noteq> []" "length r < 8153"
  shows "refines crc h (insert_raw crc r) (append_cell r)"
  unfolding refines_def
proof (intro allI impI)
  fix f cs p assume "page_holds crc h f cs p"
  then obtain b where b: "body_holds f cs b" and p: "p = raw_page (sealed_header crc h (length cs) f b) b"
    and l: "layout_of f cs (sealed_header crc h (length cs) f b)" and h: "header_wf h"
    by (rule page_holdsE)
  show "meets crc h p (append_cell r (f, cs)) (insert_raw crc r p)"
    using insert_raw_eval [OF l b, of r crc] insert_raw_refused [OF l b assms(2)]
      page_holds_raw [OF h body_placed(1) [OF b assms(1)]]
    by (auto simp: p)
qed

text \<open>The three cases of a write at an exact slot: past the directory, a slot without a record, and a
  slot with one.\<close>

lemma put_past:
  assumes l: "layout_of f cs h" and b: "body_holds f cs b" and r: "r \<noteq> []" "length r < 8153"
    and i: "length cs \<le> unat slot" and need: "4 * (unat slot - length cs) + length r + 4 \<le> f"
  shows "\<exists>b'. put_fixed_at crc slot r (word_of_nat (length r)) (raw_page h b) =
      Done (raw_page (sealed_header crc h (unat slot + 1) (f - (4 * (unat slot - length cs) + length r + 4)) b') b', Inr ()) \<and>
    body_holds (f - (4 * (unat slot - length cs) + length r + 4))
      (cs @ replicate (unat slot - length cs) Hole @ [Live r]) b'"
proof (cases "unat slot = length cs")
  case True
  then have "slot = word_of_nat (length cs)" using body_bounds(3) [OF b] by (simp add: word_unat_eq_iff)
  then show ?thesis using True need l b insert_raw_eval [OF l b, of r crc] body_placed(1) [OF b r(1)]
    by (auto simp: put_fixed_at_def layout_of_def page_simps page_bind_Done page_ok_def)
next
  case False
  note B = body_bounds [OF b]
  define c d k g where "c = (word_of_nat (length cs) :: u16)" and "d = (slot - c) * 4"
    and "k = (word_of_nat (length r) + 4 :: u16)" and "g = unat slot - length cs"
  let ?cs = "cs @ replicate g Hole" and ?f = "f - 4 * g" and ?b = "buf_put (4 * length cs) (replicate (4 * g) 0) b"
  let ?h = "h\<lparr>ph_slot_count := slot, ph_free_space := word_of_nat f - d\<rparr>"
  let ?p = "placed (length ?cs) ?f r (length ?cs) ?b"
  have need': "4 * g + length r + 4 \<le> f" using need by (simp add: g_def)
  have c: "unat c = length cs" "c < slot" "slot \<noteq> c"
    using False i B by (auto simp: c_def word_less_nat_alt)
  have sc: "unat (slot - c) = g" using c by (simp add: g_def unat_sub order_less_imp_le)
  have "unat d = unat (slot - c) * 4 mod 2 ^ 16" unfolding d_def by (subst unat_word_ariths(2)) simp
  then have d: "unat d = 4 * g" using sc need' B by simp
  have "unat k = unat (word_of_nat (length r + 4) :: u16)" by (simp add: k_def)
  then have k: "unat k = length r + 4" using r by (subst (asm) unat_of_nat16) simp_all
  have sum: "unat (word_of_nat (4 * g + (length r + 4)) :: u16) = 4 * g + (length r + 4)"
    using need' B by (subst unat_of_nat16) simp_all
  have room: "\<not> (word_of_nat f :: u16) < word_of_nat (4 * g + (length r + 4))"
    using need' B by (simp add: word_less_nat_alt sum del: of_nat_add)
  have b': "body_holds ?f ?cs ?b" using body_gap [OF b, of g] need' by simp
  have "unat (word_of_nat f - d) = f - 4 * g" using d need' B by (simp add: unat_sub_if')
  moreover have "unat (word_of_nat (f - 4 * g) :: u16) = f - 4 * g" by (rule unat_of_nat16) (use B in simp)
  ultimately have "word_of_nat f - d = (word_of_nat (f - 4 * g) :: u16)" by (simp only: word_unat_eq_iff)
  then have l': "layout_of ?f ?cs ?h"
    using l i B False by (simp add: layout_of_def word_unat_eq_iff g_def)
  have ins: "insert_raw crc r (raw_page ?h ?b) =
      Done (raw_page (sealed_header crc h (unat slot + 1) (?f - length r - 4) ?p) ?p, Inr (word_of_nat (length ?cs)))"
    using insert_raw_eval [OF l' b', of r crc] need' i by (simp add: g_def)
  have hold: "body_holds (?f - length r - 4) (?cs @ [Live r]) ?p"
    using body_placed(1) [OF b' r(1)] need' by simp
  have big: "4 * g < 65536" "4 * g + (length r + 4) < 65536" "40 + 4 * unat slot \<le> 8192"
    using need' B i by (auto simp: g_def)
  have gap: "40 + 4 * unat slot - (40 + 4 * length cs) = 4 * g" by (simp add: g_def)
  have "put_fixed_at crc slot r (word_of_nat (length r)) (raw_page h b) =
      page_bind (insert_raw crc r) (\<lambda>_. page_ok ()) (raw_page ?h ?b)"
    using l room need' B i False sum c sc d k big gap unfolding put_fixed_at_def
    by (simp add: page_simps layout_of_def Let_def layout_defs slot_offset_def mult.commute
        c_def [symmetric] d_def [symmetric] k_def [symmetric] del: of_nat_add of_nat_mult left_diff_distrib_numeral)
  then have run: "put_fixed_at crc slot r (word_of_nat (length r)) (raw_page h b) =
      Done (raw_page (sealed_header crc h (unat slot + 1) (?f - length r - 4) ?p) ?p, Inr ())"
    by (simp add: page_bind_Done(1) [where op = "insert_raw crc r", OF ins] page_ok_def)
  have fr: "f - (4 * g + length r + 4) = ?f - length r - 4" by simp
  show ?thesis unfolding g_def [symmetric] fr using run hold by (intro exI [of _ ?p]) simp
qed


lemma put_revive:
  assumes l: "layout_of f cs h" and b: "body_holds f cs b" and r: "r \<noteq> []" "length r \<le> f"
    and i: "unat slot < length cs" and c: "\<not> is_Live (cs ! unat slot)"
  defines "b' \<equiv> placed (length cs) f r (unat slot) b"
  shows "put_fixed_at crc slot r (word_of_nat (length r)) (raw_page h b) =
    Done (raw_page (sealed_header crc h (length cs) (f - length r) b') b', Inr ())"
proof -
  note B = body_bounds [OF b]
  have lt: "\<not> (word_of_nat (length cs) :: u16) < slot" "slot \<noteq> word_of_nat (length cs)"
    using i B by (auto simp: word_less_nat_alt)
  have rl: "unat (word_of_nat (length r) :: u16) = length r" using r B by simp
  have room: "\<not> (word_of_nat f :: u16) < word_of_nat (length r)"
    using r B by (simp add: word_less_nat_alt)
  have cv: "u16_try_from (40 + 4 * length cs + f - length r) = Some (word_of_nat (40 + 4 * length cs + f - length r))"
    using B r by (simp add: u16_try_from_def)
  have hdr: "h\<lparr>ph_free_space := word_of_nat f - word_of_nat (length r), ph_checksum := crc b'\<rparr> =
      sealed_header crc h (length cs) (f - length r) b'"
    using l r by (simp add: sealed_header_def layout_of_def of_nat_diff)
  show ?thesis
    using l lt rl room cv hdr B r c i layout_start [OF l b r(2)] unfolding put_fixed_at_def
    by (simp add: page_simps layout_of_def Let_def slot_entry_eval [OF l b i] entry_result_def b'_def placed_def)
qed

lemma put_refused:
  assumes l: "layout_of f cs h" and b: "body_holds f cs b" and r: "length r < 8153"
    and none: "put_cells (unat slot) r (f, cs) = None"
  shows "\<exists>e. put_fixed_at crc slot r (word_of_nat (length r)) (raw_page h b) = Done (raw_page h b, Inl e)"
proof (cases "unat slot < length cs")
  case True
  note B = body_bounds [OF b]
  have lt: "\<not> (word_of_nat (length cs) :: u16) < slot" "slot \<noteq> word_of_nat (length cs)"
    using True B by (auto simp: word_less_nat_alt)
  show ?thesis
  proof (cases "is_Live (cs ! unat slot)")
    case live: True
    have "\<not> (\<exists>old. cs ! unat slot = Live old \<and> length old = length r)" using none True by auto
    then obtain e where "overwrite crc slot r (word_of_nat (length r)) (raw_page h b) = Done (raw_page h b, Inl e)"
      using overwrite_refused [OF l b r] by blast
    then show ?thesis using l lt live unfolding put_fixed_at_def
      by (simp add: page_simps layout_of_def Let_def slot_entry_eval [OF l b True] entry_result_def)
  next
    case dead: False
    then have "f < length r" using none True by (cases "cs ! unat slot") (auto split: if_splits)
    then have "(word_of_nat f :: u16) < word_of_nat (length r)" using B r by (simp add: word_less_nat_alt)
    then show ?thesis using l lt dead unfolding put_fixed_at_def
      by (simp add: page_simps layout_of_def Let_def slot_entry_eval [OF l b True] entry_result_def page_err_def)
  qed
next
  case False
  note B = body_bounds [OF b]
  define c d k g where "c = (word_of_nat (length cs) :: u16)" and "d = (slot - c) * 4"
    and "k = (word_of_nat (length r) + 4 :: u16)" and "g = unat slot - length cs"
  have need: "f < 4 * g + length r + 4" using none False by (simp add: Let_def g_def split: if_splits)
  have c: "unat c = length cs" "c \<le> slot" using False B by (simp_all add: c_def word_le_nat_alt)
  have sc: "unat (slot - c) = g" using c by (simp add: g_def unat_sub)
  have "unat d = unat (slot - c) * 4 mod 2 ^ 16" unfolding d_def by (subst unat_word_ariths(2)) simp
  then have d: "g * 4 < 65536 \<Longrightarrow> unat d = g * 4" using sc by simp
  have "unat k = unat (word_of_nat (length r + 4) :: u16)" by (simp add: k_def)
  then have k: "unat k = length r + 4" using r by (subst (asm) unat_of_nat16) simp_all
  have room: "(word_of_nat f :: u16) <
      (if g * 4 + (length r + 4) < 65536 then word_of_nat (g * 4 + (length r + 4)) else 0xFFFF)"
    using need B by (simp add: word_less_nat_alt del: of_nat_add)
  have "(\<exists>e. insert_raw crc r (raw_page h b) = Done (raw_page h b, Inl e))" if "slot = c"
    using insert_raw_refused [OF l b r] need that c by (simp add: g_def)
  then show ?thesis using l room c sc d k unfolding put_fixed_at_def
    by (cases "slot = c")
      (auto simp: page_simps layout_of_def Let_def layout_defs page_err_def page_bind_Done
        c_def [symmetric] d_def [symmetric] k_def [symmetric] simp del: of_nat_add of_nat_mult left_diff_distrib_numeral)
qed

lemma put_fixed_at_refines:
  assumes "r \<noteq> []" "length r < 8153"
  shows "refines crc h (put_fixed_at crc slot r (word_of_nat (length r)))
    (\<lambda>st. map_option (\<lambda>st'. (st', ())) (put_cells (unat slot) r st))"
  unfolding refines_def
proof (intro allI impI)
  fix f cs p assume "page_holds crc h f cs p"
  then obtain b where b: "body_holds f cs b" and p: "p = raw_page (sealed_header crc h (length cs) f b) b"
    and l: "layout_of f cs (sealed_header crc h (length cs) f b)" and h: "header_wf h"
    by (rule page_holdsE)
  let ?run = "put_fixed_at crc slot r (word_of_nat (length r))"
  have "\<exists>p'. ?run p = Done (p', Inr ()) \<and> page_holds crc h f' cs' p'"
    if some: "put_cells (unat slot) r (f, cs) = Some (f', cs')" for f' cs'
  proof (cases "unat slot < length cs")
    case False
    then have f': "f' = f - (4 * (unat slot - length cs) + length r + 4)"
      and cs': "cs' = cs @ replicate (unat slot - length cs) Hole @ [Live r]"
      and need: "4 * (unat slot - length cs) + length r + 4 \<le> f"
      using some by (auto simp: Let_def split: if_splits)
    obtain b' where "?run p = Done (raw_page (sealed_header crc h (unat slot + 1) f' b') b', Inr ())"
      and "body_holds f' cs' b'"
      using put_past [OF l b assms _ need, where crc = crc] False unfolding f' cs' p by auto
    moreover have "unat slot + 1 = length cs'" using False by (simp add: cs')
    ultimately show ?thesis using page_holds_raw [OF h] by blast
  next
    case i: True
    show ?thesis
    proof (cases "cs ! unat slot")
      case (Live old)
      have "\<not> (word_of_nat (length cs) :: u16) < slot" "slot \<noteq> word_of_nat (length cs)"
        using i body_bounds(3) [OF b] by (auto simp: word_less_nat_alt)
      then have "?run p = overwrite crc slot r (word_of_nat (length r)) p"
        using l Live unfolding put_fixed_at_def p
        by (simp add: page_simps layout_of_def Let_def slot_entry_eval [OF l b i] entry_result_def)
      then show ?thesis using some i Live overwrite_eval [OF l b i Live, of r crc]
          page_holds_raw [OF h body_overwrite [OF b i Live]]
        by (auto simp: p split: if_splits)
    qed (use some i put_revive [OF l b assms(1) _ i] page_holds_raw [OF h body_placed(2) [OF b assms(1) _ i]]
        in \<open>auto simp: p split: if_splits\<close>)
  qed
  then show "meets crc h p (map_option (\<lambda>st'. (st', ())) (put_cells (unat slot) r (f, cs))) (?run p)"
    using put_refused [OF l b assms(2)] unfolding p
    by (cases "put_cells (unat slot) r (f, cs)") (auto simp del: put_cells.simps)
qed


section \<open>The public operations\<close>

text \<open>One constructor per operation of the page; an operation on a slot returns that slot here, so that
  all of them return the slot they changed.\<close>

datatype page_command =
    Insert_node NodeRecord | Insert_rel RelRecord | Insert_bag bytes
  | Update_node u16 NodeRecord | Update_rel u16 RelRecord
  | Put_node u16 NodeRecord | Put_rel u16 RelRecord | Put_bag u16 bytes
  | Tombstone u16

fun run_command :: "(bytes \<Rightarrow> u32) \<Rightarrow> page_command \<Rightarrow> u16 page_op" where
  "run_command crc (Insert_node r) = insert_node crc r"
| "run_command crc (Insert_rel r) = insert_rel crc r"
| "run_command crc (Insert_bag bag) = insert_bag crc bag"
| "run_command crc (Update_node slot r) = page_bind (update_node crc slot r) (\<lambda>_. page_ok slot)"
| "run_command crc (Update_rel slot r) = page_bind (update_rel crc slot r) (\<lambda>_. page_ok slot)"
| "run_command crc (Put_node slot r) = page_bind (put_node_at crc slot r) (\<lambda>_. page_ok slot)"
| "run_command crc (Put_rel slot r) = page_bind (put_rel_at crc slot r) (\<lambda>_. page_ok slot)"
| "run_command crc (Put_bag slot bag) = page_bind (put_bag_at crc slot bag) (\<lambda>_. page_ok slot)"
| "run_command crc (Tombstone slot) = page_bind (tombstone crc slot) (\<lambda>_. page_ok slot)"

fun update_cell :: "u16 \<Rightarrow> bytes \<Rightarrow> cells \<Rightarrow> (cells \<times> u16) option" where
  "update_cell slot r (f, cs) =
     (if unat slot < length cs \<and> (case cs ! unat slot of Live old \<Rightarrow> length old = length r | _ \<Rightarrow> False)
      then Some ((f, cs[unat slot := Live r]), slot) else None)"

fun put_cell :: "u16 \<Rightarrow> bytes \<Rightarrow> cells \<Rightarrow> (cells \<times> u16) option" where
  "put_cell slot r st = map_option (\<lambda>st'. (st', slot)) (put_cells (unat slot) r st)"

fun put_unless_dead :: "u16 \<Rightarrow> bytes \<Rightarrow> cells \<Rightarrow> (cells \<times> u16) option" where
  "put_unless_dead slot r (f, cs) =
     (if unat slot < length cs \<and> cs ! unat slot = Dead then None else put_cell slot r (f, cs))"

definition packable :: "bytes \<Rightarrow> bool" where
  "packable bag \<longleftrightarrow> bag \<noteq> [] \<and> length bag \<le> PROP_BAG_MAX_BYTES"

fun spec_command :: "u8 \<Rightarrow> page_command \<Rightarrow> cells \<Rightarrow> (cells \<times> u16) option" where
  "spec_command t (Insert_node r) st =
     (if t = PageType_as_byte Node then append_cell (NodeRecord_to_bytes r) st else None)"
| "spec_command t (Insert_rel r) st =
     (if t = PageType_as_byte Rel then append_cell (RelRecord_to_bytes r) st else None)"
| "spec_command t (Insert_bag bag) st =
     (if t = PageType_as_byte PropSlotted \<and> packable bag then append_cell bag st else None)"
| "spec_command t (Update_node slot r) st =
     (if t = PageType_as_byte Node then update_cell slot (NodeRecord_to_bytes r) st else None)"
| "spec_command t (Update_rel slot r) st =
     (if t = PageType_as_byte Rel then update_cell slot (RelRecord_to_bytes r) st else None)"
| "spec_command t (Put_node slot r) st =
     (if t = PageType_as_byte Node then put_unless_dead slot (NodeRecord_to_bytes r) st else None)"
| "spec_command t (Put_rel slot r) st =
     (if t = PageType_as_byte Rel then put_unless_dead slot (RelRecord_to_bytes r) st else None)"
| "spec_command t (Put_bag slot bag) st =
     (if t = PageType_as_byte PropSlotted \<and> packable bag then put_cell slot bag st else None)"
| "spec_command t (Tombstone slot) (f, cs) =
     (if unat slot < length cs then Some ((f, cs[unat slot := Hole]), slot) else None)"

lemma refinesI:
  assumes "\<And>f cs b. body_holds f cs b \<Longrightarrow> header_wf h \<Longrightarrow>
      layout_of f cs (sealed_header crc h (length cs) f b) \<Longrightarrow>
      page_holds crc h f cs (raw_page (sealed_header crc h (length cs) f b) b) \<Longrightarrow>
      meets crc h (raw_page (sealed_header crc h (length cs) f b) b) (spec (f, cs))
        (op (raw_page (sealed_header crc h (length cs) f b) b))"
  shows "refines crc h op spec"
  unfolding refines_def
proof (intro allI impI)
  fix f cs p assume P: "page_holds crc h f cs p"
  then obtain b where "body_holds f cs b" "p = raw_page (sealed_header crc h (length cs) f b) b"
    "layout_of f cs (sealed_header crc h (length cs) f b)" "header_wf h" by (rule page_holdsE)
  then show "meets crc h p (spec (f, cs)) (op p)" using assms [of f cs b] P by simp
qed

lemma refinesD:
  "refines crc h op spec \<Longrightarrow> page_holds crc h f cs p \<Longrightarrow> meets crc h p (spec (f, cs)) (op p)"
  unfolding refines_def by blast

lemma refines_map:
  assumes "refines crc h op spec"
  shows "refines crc h (page_bind op (\<lambda>x. page_ok (g x)))
    (\<lambda>st. map_option (\<lambda>(st', x). (st', g x)) (spec st))"
  unfolding refines_def
proof (intro allI impI)
  fix f cs p assume "page_holds crc h f cs p"
  from refinesD [OF assms this]
  show "meets crc h p (map_option (\<lambda>(st', x). (st', g x)) (spec (f, cs))) (page_bind op (\<lambda>x. page_ok (g x)) p)"
    by (cases "spec (f, cs)") (auto simp: page_bind_def page_ok_def)
qed

lemma refines_typed:
  assumes "refines crc h op spec"
  shows "refines crc h (page_bind (require_page_type t) (\<lambda>_. op))
    (\<lambda>st. if ph_page_type h = PageType_as_byte t then spec st else None)"
  by (rule refinesI) (use refinesD [OF assms] in \<open>simp add: page_simps\<close>)

lemma refines_guard:
  assumes "P \<Longrightarrow> refines crc h op spec"
  shows "refines crc h (if P then op else page_err e) (\<lambda>st. if P then spec st else None)"
  using assms by (cases P) (simp_all add: refines_def page_err_def)

lemma refines_cong: "refines crc h op spec \<Longrightarrow> (\<And>st. spec st = spec' st) \<Longrightarrow> refines crc h op spec'"
  by (simp add: refines_def)

lemma overwrite_refines:
  assumes "length r < 8153"
  shows "refines crc h (page_bind (overwrite crc slot r (word_of_nat (length r))) (\<lambda>_. page_ok slot))
    (update_cell slot r)"
proof (rule refinesI)
  fix f and cs :: "cell list" and b
  let ?h = "sealed_header crc h (length cs) f b" and ?op = "overwrite crc slot r (word_of_nat (length r))"
  assume b: "body_holds f cs b" and h: "header_wf h" and l: "layout_of f cs ?h"
  show "meets crc h (raw_page ?h b) (update_cell slot r (f, cs)) (page_bind ?op (\<lambda>_. page_ok slot) (raw_page ?h b))"
  proof (cases "unat slot < length cs \<and> (\<exists>old. cs ! unat slot = Live old \<and> length old = length r)")
    case True
    then obtain old where o: "unat slot < length cs" "cs ! unat slot = Live old" "length r = length old" by auto
    then show ?thesis
      using overwrite_eval [OF l b o, of crc] page_holds_raw [OF h body_overwrite [OF b o]]
      by (auto simp: page_ok_def page_bind_def)
  next
    case False
    then obtain e where "?op (raw_page ?h b) = Done (raw_page ?h b, Inl e)"
      using overwrite_refused [OF l b assms] by blast
    then show ?thesis using False by (auto simp: page_bind_Done split: cell.splits)
  qed
qed

lemma tombstone_refines:
  "refines crc h (page_bind (tombstone crc slot) (\<lambda>_. page_ok slot)) (spec_command t (Tombstone slot))"
proof (rule refinesI)
  fix f and cs :: "cell list" and b
  let ?h = "sealed_header crc h (length cs) f b"
  assume b: "body_holds f cs b" and h: "header_wf h" and l: "layout_of f cs ?h"
  note B = body_bounds [OF b]
  have lt: "(word_of_nat (length cs) :: u16) \<le> slot \<longleftrightarrow> \<not> unat slot < length cs"
    using B by (auto simp: word_le_nat_alt)
  let ?b = "set_entry (unat slot) 0 0 b"
  have "page_holds crc h f (cs[unat slot := Hole]) (raw_page (sealed_header crc h (length cs) f ?b) ?b)"
    if "unat slot < length cs"
    using page_holds_raw [OF h body_mark [OF b that, of Hole 0]] by simp
  then show "meets crc h (raw_page ?h b) (spec_command t (Tombstone slot) (f, cs))
      (page_bind (tombstone crc slot) (\<lambda>_. page_ok slot) (raw_page ?h b))"
    using B h lt layout_checksum [OF l, of crc ?b]
    by (auto simp: tombstone_def page_simps page_ok_def page_err_def)
qed

lemma refuse_refines:
  assumes "refines crc h op (put_cell slot r)"
  shows "refines crc h (page_bind (refuse_permanent slot) (\<lambda>_. op)) (put_unless_dead slot r)"
proof (rule refinesI)
  fix f and cs :: "cell list" and b
  let ?h = "sealed_header crc h (length cs) f b"
  assume b: "body_holds f cs b" and h: "header_wf h" and l: "layout_of f cs ?h"
    and p: "page_holds crc h f cs (raw_page ?h b)"
  have lt: "slot < (word_of_nat (length cs) :: u16) \<longleftrightarrow> unat slot < length cs"
    using body_bounds(3) [OF b] by (auto simp: word_less_nat_alt)
  show "meets crc h (raw_page ?h b) (put_unless_dead slot r (f, cs))
      (page_bind (refuse_permanent slot) (\<lambda>_. op) (raw_page ?h b))"
    using refinesD [OF assms p] h lt
    by (cases "unat slot < length cs")
      (auto simp: refuse_permanent_def page_simps is_permanent_eval [OF l b] simp del: put_cells.simps put_cell.simps)
qed


lemma put_refines:
  assumes "r \<noteq> []" "length r < 8153"
  shows "refines crc h (page_bind (put_fixed_at crc slot r (word_of_nat (length r))) (\<lambda>_. page_ok slot)) (put_cell slot r)"
  by (rule refines_cong [OF refines_map [OF put_fixed_at_refines [OF assms], of _ _ _ "\<lambda>_. slot"]])
    (simp add: option.map_comp comp_def split_def del: put_cells.simps)

lemma page_bind_assoc: "page_bind (page_bind op f) g = page_bind op (\<lambda>x. page_bind (f x) g)"
  by (rule ext) (rule page_bind_simps(3))

lemma if_bind: "page_bind (if P then a else c) g = (if P then page_bind a g else page_bind c g)"
  by simp

lemma err_bind: "page_bind (page_err e) g = page_err e"
  by (rule ext) (simp add: page_bind_simps page_err_def)

lemma command_refines: "refines crc h (run_command crc c) (spec_command (ph_page_type h) c)"
proof (cases c)
  case (Insert_bag bag)
  have "refines crc h (if packable bag then insert_raw crc bag else page_err e)
      (\<lambda>st. if packable bag then append_cell bag st else None)" for e
    by (rule refines_guard) (rule insert_raw_refines, simp_all add: packable_def)
  then have "refines crc h (if bag = [] then page_err e else if length bag > PROP_BAG_MAX_BYTES then page_err e' else insert_raw crc bag)
      (\<lambda>st. if packable bag then append_cell bag st else None)" for e e'
    by (cases "bag = []"; cases "length bag > PROP_BAG_MAX_BYTES") (auto simp: packable_def)
  then show ?thesis unfolding Insert_bag run_command.simps insert_bag_def
    by (rule refines_cong [OF refines_typed]) simp
next
  case (Put_bag slot bag)
  have "refines crc h (if packable bag
        then page_bind (put_fixed_at crc slot bag (word_of_nat (length bag))) (\<lambda>_. page_ok slot) else page_err e)
      (\<lambda>st. if packable bag then put_cell slot bag st else None)" for e
    by (rule refines_guard) (rule put_refines, simp_all add: packable_def)
  moreover have "run_command crc c = page_bind (require_page_type PropSlotted) (\<lambda>_.
      if packable bag then page_bind (put_fixed_at crc slot bag (word_of_nat (length bag))) (\<lambda>_. page_ok slot)
      else page_err (Format ''property bag payload length is outside its range''))"
    by (auto simp: Put_bag put_bag_at_def page_bind_assoc if_bind err_bind packable_def u16_try_from_def)
  ultimately show ?thesis
    by (simp only:) (rule refines_cong [OF refines_typed], assumption, simp add: Put_bag del: put_cell.simps)
next
  case (Insert_node r)
  show ?thesis unfolding Insert_node run_command.simps insert_node_def
    by (rule refines_cong [OF refines_typed [OF insert_raw_refines]]) (simp_all flip: length_0_conv)
next
  case (Insert_rel r)
  show ?thesis unfolding Insert_rel run_command.simps insert_rel_def
    by (rule refines_cong [OF refines_typed [OF insert_raw_refines]]) (simp_all flip: length_0_conv)
next
  case (Update_node slot r)
  have "64 = length (NodeRecord_to_bytes r)" by simp
  then show ?thesis unfolding Update_node run_command.simps update_node_def page_bind_assoc NodeRecord_SIZE_def
    by (simp only:) (rule refines_cong [OF refines_typed [OF overwrite_refines]], simp_all)
next
  case (Update_rel slot r)
  have "96 = length (RelRecord_to_bytes r)" by simp
  then show ?thesis unfolding Update_rel run_command.simps update_rel_def page_bind_assoc RelRecord_SIZE_def
    by (simp only:) (rule refines_cong [OF refines_typed [OF overwrite_refines]], simp_all)
next
  case (Put_node slot r)
  have "64 = length (NodeRecord_to_bytes r)" by simp
  then show ?thesis unfolding Put_node run_command.simps put_node_at_def page_bind_assoc NodeRecord_SIZE_def
    by (simp only:) (rule refines_cong [OF refines_typed [OF refuse_refines [OF put_refines]]],
      simp_all flip: length_0_conv)
next
  case (Put_rel slot r)
  have "96 = length (RelRecord_to_bytes r)" by simp
  then show ?thesis unfolding Put_rel run_command.simps put_rel_at_def page_bind_assoc RelRecord_SIZE_def
    by (simp only:) (rule refines_cong [OF refines_typed [OF refuse_refines [OF put_refines]]],
      simp_all flip: length_0_conv)
next
  case (Tombstone slot)
  then show ?thesis using tombstone_refines by simp
qed


section \<open>Reading cells\<close>

definition read_cell :: "nat \<Rightarrow> (bytes \<Rightarrow> ArcGraphError + 'a) \<Rightarrow> cell list \<Rightarrow> u16 \<Rightarrow> PageError + 'a option" where
  "read_cell n decode cs slot =
     (if unat slot < length cs then
        (case cs ! unat slot of
           Live r \<Rightarrow>
             if length r \<noteq> n then Inl (Format ''slot has unexpected length'')
             else (case decode r of Inl e \<Rightarrow> Inl (RecordDecode (decode_text e)) | Inr x \<Rightarrow> Inr (Some x))
         | _ \<Rightarrow> Inr None)
      else Inl (SlotOutOfRange slot (word_of_nat (length cs))))"

definition read_content :: "cell list \<Rightarrow> u16 \<Rightarrow> PageError + bytes option" where
  "read_content cs slot =
     (if unat slot < length cs then Inr (case cs ! unat slot of Live r \<Rightarrow> Some r | _ \<Rightarrow> None)
      else Inl (SlotOutOfRange slot (word_of_nat (length cs))))"

lemma read_fixed_holds:
  assumes "page_holds crc h f cs p"
  shows "read_fixed n decode slot p = Done (p, read_cell n decode cs slot)"
proof -
  obtain b where b: "body_holds f cs b" and p: "p = raw_page (sealed_header crc h (length cs) f b) b"
    and l: "layout_of f cs (sealed_header crc h (length cs) f b)" and h: "header_wf h"
    using assms by (rule page_holdsE)
  show ?thesis
  proof (cases "unat slot < length cs")
    case False
    then show ?thesis by (simp add: p read_fixed_def slot_entry_range [OF l b] read_cell_def)
  next
    case True
    obtain off len where e: "entry_of b (unat slot) = (off, len)" by fastforce
    show ?thesis
    proof (cases "cs ! unat slot")
      case (Live r)
      have "cell_ok (40 + 4 * length cs + f) b (off, len) (Live r)"
        using cell_entry(1) [OF b True] Live e by simp
      then show ?thesis using Live True e body_bounds(1) [OF b]
        by (auto simp: p read_fixed_def slot_entry_eval [OF l b True] entry_result_def read_cell_def
            page_simps page_err_def page_ok_def split: sum.splits)
    qed (use True in \<open>simp_all add: p read_fixed_def slot_entry_eval [OF l b True] entry_result_def
        read_cell_def page_ok_def\<close>)
  qed
qed

lemma read_bag_holds:
  assumes "page_holds crc h f cs p" "ph_page_type h = PageType_as_byte PropSlotted"
  shows "read_bag slot p = Done (p, read_content cs slot)"
proof -
  obtain b where b: "body_holds f cs b" and p: "p = raw_page (sealed_header crc h (length cs) f b) b"
    and l: "layout_of f cs (sealed_header crc h (length cs) f b)" and h: "header_wf h"
    using assms(1) by (rule page_holdsE)
  show ?thesis
  proof (cases "unat slot < length cs")
    case False
    then show ?thesis using assms(2)
      by (simp add: p read_bag_def page_simps slot_entry_range [OF l b] read_content_def)
  next
    case True
    obtain off len where e: "entry_of b (unat slot) = (off, len)" by fastforce
    show ?thesis
    proof (cases "cs ! unat slot")
      case (Live r)
      have "cell_ok (40 + 4 * length cs + f) b (off, len) (Live r)"
        using cell_entry(1) [OF b True] Live e by simp
      then show ?thesis using Live True e body_bounds(1) [OF b] assms(2)
        by (auto simp: p read_bag_def slot_entry_eval [OF l b True] entry_result_def read_content_def
            page_simps page_ok_def)
    qed (use True assms(2) in \<open>simp_all add: p read_bag_def page_simps slot_entry_eval [OF l b True]
        entry_result_def read_content_def page_ok_def\<close>)
  qed
qed

lemma open_holds: "page_holds crc h f cs p \<Longrightarrow> SlottedPage_open crc p = Inr ()"
proof (elim page_holdsE)
  fix b assume b: "body_holds f cs b" and p: "p = raw_page (sealed_header crc h (length cs) f b) b"
    and h: "header_wf h"
  have "PageHeader_from_bytes (take 40 p) = Inr (sealed_header crc h (length cs) f b)"
    using hdr_codec.dec_enc [of "sealed_header crc h (length cs) f b"] h by (simp add: p raw_page_def)
  then show ?thesis using body_bounds [OF b]
    by (simp add: SlottedPage_open_def layout_defs p validate_slot_count_def word_less_nat_alt Let_def
        sealed_header_def)
qed

lemma init_eval:
  assumes "length p = PAGE_SIZE" "header_wf h"
    and "ph_page_type h \<in> PageType_as_byte ` {Node, Rel, PropSlotted}"
  shows "SlottedPage_init crc h p =
    Done (raw_page (sealed_header crc h 0 8152 (replicate 8152 0)) (replicate 8152 0), Inr ())"
proof -
  let ?h = "h\<lparr>ph_slot_count := 0, ph_free_space := 8152\<rparr>"
  have w: "write_at 0 (PageHeader_to_bytes ?h) p = Done (raw_page ?h (drop 40 p), Inr ())"
    using assms(1) by (simp add: write_at_def layout_defs raw_page_def buf_put_def)
  have z: "buf_put 0 (replicate 8152 0) (drop 40 p) = (replicate 8152 0 :: bytes)"
    using assms(1) by (simp add: buf_put_def layout_defs)
  then show ?thesis using assms
    by (auto simp: SlottedPage_init_def PageType_from_byte_def page_bind_Done(1) [where op = "write_at _ _", OF w]
        page_simps layout_defs Let_def sealed_header_def)
qed

lemma init_holds:
  assumes "length p = PAGE_SIZE" "header_wf h"
    and "ph_page_type h \<in> PageType_as_byte ` {Node, Rel, PropSlotted}"
  shows "\<exists>p'. SlottedPage_init crc h p = Done (p', Inr ()) \<and> page_holds crc h 8152 [] p'"
  using init_eval [OF assms] page_holds_raw [OF assms(2), of 8152 "[]" "replicate 8152 0"]
  by (simp add: body_holds_def)

section \<open>Properties\<close>


definition demo_header :: PageHeader where
  "demo_header = PageHeader_new 7 PropSlotted 1"

lemma header_wf_new: "header_wf (PageHeader_new i t tenant)"
  by (simp add: header_wf_def PageHeader_new_def)

lemma demo_fresh: "\<exists>p. page_holds crc demo_header 8152 [] p"
proof -
  have "ph_page_type demo_header \<in> PageType_as_byte ` {Node, Rel, PropSlotted}"
    by (simp add: demo_header_def PageHeader_new_def)
  then show ?thesis
    using init_holds [of "replicate PAGE_SIZE 0" demo_header crc] header_wf_new by (auto simp: demo_header_def)
qed


text \<open>C34: a page that holds cells opens, and a read at a slot returns the content of its cell: the bytes
  that were put there, no record for a hole or a tombstone, and an error past the directory.\<close>

theorem slotted_page_reads:
  assumes "page_holds crc h f cs p"
  shows "SlottedPage_open crc p = Inr () \<and>
    read_node slot p = Done (p, read_cell NodeRecord_SIZE NodeRecord_from_bytes cs slot) \<and>
    read_rel slot p = Done (p, read_cell RelRecord_SIZE RelRecord_from_bytes cs slot) \<and>
    (ph_page_type h = PageType_as_byte PropSlotted \<longrightarrow> read_bag slot p = Done (p, read_content cs slot))"
  using open_holds [OF assms] read_bag_holds [OF assms]
  by (simp add: read_node_def read_rel_def read_fixed_holds [OF assms])

theorem slotted_page_reads_witness:
  "\<exists>p. page_holds (\<lambda>_. 0) demo_header 8152 [] p \<and> SlottedPage_open (\<lambda>_. 0) p = Inr () \<and>
     read_bag 5 p = Done (p, Inl (SlotOutOfRange 5 0))"
proof -
  obtain p where p: "page_holds (\<lambda>_. 0) demo_header 8152 [] p" using demo_fresh by blast
  then show ?thesis using slotted_page_reads [OF p, of 5]
    by (auto simp: demo_header_def PageHeader_new_def read_content_def)
qed

lemma put_cells_keep:
  assumes "put_cells j r (f, cs) = Some (f', cs')" "i < length cs" "i \<noteq> j"
  shows "i < length cs' \<and> cs' ! i = cs ! i"
  using assms by (auto simp: Let_def nth_append split: if_splits cell.splits)

lemma spec_keeps_dead:
  assumes "spec_command t c (f, cs) = Some ((f', cs'), x)" "i < length cs" "cs ! i = Dead"
    and "t \<noteq> PageType_as_byte PropSlotted" "\<And>slot. c = Tombstone slot \<Longrightarrow> unat slot \<noteq> i"
  shows "i < length cs' \<and> cs' ! i = Dead"
  using assms
  by (cases c) (auto simp: nth_append nth_list_update split: if_splits dest!: put_cells_keep [where i = i]
      simp del: put_cells.simps)


lemma page_mark_dead:
  assumes "page_holds crc h f cs p" "i < length cs"
  shows "\<exists>p'. page_holds crc h f (cs[i := Dead]) p'"
proof -
  obtain b where b: "body_holds f cs b" "header_wf h" using assms(1) by (rule page_holdsE)
  then show ?thesis
    using page_holds_raw [OF b(2) body_mark [OF b(1) assms(2), of Dead PERMANENT_TOMBSTONE_LEN]] by auto
qed


text \<open>C37: a page that passes the checksum and every test of \<open>open\<close> but carries a forged free space makes a
  redo write past the directory panic; an ordinary insert on it is refused.\<close>

theorem forged_free_space_panics:
  "\<exists>p. SlottedPage_open crc p = Inr () \<and> put_node_at crc 10000 r p = Panicked \<and>
     (\<exists>e. insert_node crc r p = Done (p, Inl e))"
proof -
  let ?b = "replicate 8152 0 :: bytes"
  define h where "h = sealed_header crc (PageHeader_new 7 Node 1) 0 65535 ?b"
  have h: "header_wf h" "ph_slot_count h = 0" "ph_free_space h = 65535" "ph_page_type h = 1" "ph_checksum h = crc ?b"
    using header_wf_new [of 7 Node 1] by (simp_all add: h_def sealed_header_def) (simp_all add: PageHeader_new_def)
  have "PageHeader_from_bytes (take 40 (raw_page h ?b)) = Inr h"
    using hdr_codec.dec_enc [OF h(1)] by (simp add: raw_page_def)
  then have "SlottedPage_open crc (raw_page h ?b) = Inr ()"
    using h by (simp add: SlottedPage_open_def layout_defs Let_def validate_slot_count_def)
  moreover have "put_node_at crc 10000 r (raw_page h ?b) = Panicked"
    using h by (simp add: put_node_at_def put_fixed_at_def refuse_permanent_def page_simps Let_def layout_defs
        slot_offset_def page_bind_def [of "fill_zero _ _"] fill_zero_def)
  moreover have "\<exists>e. insert_node crc r (raw_page h ?b) = Done (raw_page h ?b, Inl e)"
    using h by (simp add: insert_node_def insert_raw_def page_simps u16_try_from_def record_start_of_def
        used_record_bytes_def checked_sub_def page_err_def)
  ultimately show ?thesis by blast
qed

end
