(* ===== verification/Page_Direct.thy ===== *)
theory Page_Direct
  imports Page_Cells "HOL-Library.Multiset"
begin

text \<open>
  Slotted pages of fixed size records at direct addresses: record \<open>k\<close> of size \<open>L\<close> lies \<open>(k + 1) * L\<close>
  bytes before the end of the page, whatever the order of the writes. \<open>direct_holds\<close> fixes every byte
  of the body, so two pages that hold the same slots are the same bytes (\<open>direct_unique\<close>). Direct
  writes act on the list of slots, and the guard against stale publishes makes the final page
  independent of the order in which the publishers arrive.
\<close>

section \<open>The direct layout\<close>

datatype mark = Empty | Gone | Used

definition rec_off :: "nat \<Rightarrow> nat \<Rightarrow> nat" where
  "rec_off L i = 8192 - (i + 1) * L"

fun mark_entry :: "nat \<Rightarrow> nat \<Rightarrow> mark \<Rightarrow> u16 \<times> u16" where
  "mark_entry L i Empty = (0, 0)"
| "mark_entry L i Gone = (0, PERMANENT_TOMBSTONE_LEN)"
| "mark_entry L i Used = (word_of_nat (rec_off L i), word_of_nat L)"

type_synonym slots = "(mark \<times> bytes) list"

definition direct_free :: "nat \<Rightarrow> nat \<Rightarrow> nat" where
  "direct_free L n = 8152 - n * (L + 4)"

definition direct_holds :: "nat \<Rightarrow> slots \<Rightarrow> bytes \<Rightarrow> bool" where
  "direct_holds L cs b \<longleftrightarrow>
     0 < L \<and> length b = 8152 \<and> length cs * (L + 4) \<le> 8152 \<and>
     (\<forall>i < length cs. entry_of b i = mark_entry L i (fst (cs ! i)) \<and> length (snd (cs ! i)) = L \<and>
        buf_get (rec_off L i - 40) L b = snd (cs ! i)) \<and>
     buf_get (4 * length cs) (direct_free L (length cs)) b = replicate (direct_free L (length cs)) 0"

fun slot_cell :: "mark \<times> bytes \<Rightarrow> cell" where
  "slot_cell (Empty, _) = Hole"
| "slot_cell (Gone, _) = Dead"
| "slot_cell (Used, r) = Live r"

lemma direct_slot:
  assumes "direct_holds L cs b" "i < length cs"
  shows "entry_of b i = mark_entry L i (fst (cs ! i))" "length (snd (cs ! i)) = L"
    "buf_get (rec_off L i - 40) L b = snd (cs ! i)"
  using assms unfolding direct_holds_def by blast+

lemma direct_page:
  assumes "direct_holds L cs b"
  shows "0 < L" "length b = 8152" "length cs * (L + 4) \<le> 8152"
    "buf_get (4 * length cs) (direct_free L (length cs)) b = replicate (direct_free L (length cs)) 0"
  using assms unfolding direct_holds_def by blast+

text \<open>The arithmetic of the layout: the record area of \<open>n\<close> slots starts where their directory and the
  free bytes end, and the records lie in it one below the other.\<close>

lemma unat_rec_off [simp]: "unat (word_of_nat (rec_off L i) :: u16) = rec_off L i"
  by (rule unat_of_nat16) (simp add: rec_off_def)

lemma direct_arith:
  assumes "n * (L + 4) \<le> 8152"
  shows "40 + 4 * n + direct_free L n = 8192 - n * L" "n * L \<le> 8152" "4 * n + direct_free L n \<le> 8152"
    "0 < n \<Longrightarrow> L \<le> 8148"
proof -
  have c: "n * L + n * 4 \<le> 8152" using assms by (simp add: distrib_left)
  then show "40 + 4 * n + direct_free L n = 8192 - n * L" "n * L \<le> 8152" "4 * n + direct_free L n \<le> 8152"
    by (simp_all add: direct_free_def distrib_left)
  assume "0 < n"
  then have "1 * L + 1 * 4 \<le> n * L + n * 4" by (intro add_mono mult_right_mono) auto
  with c show "L \<le> 8148" by simp
qed

lemma rec_off_arith:
  assumes "n * (L + 4) \<le> 8152" "i < n"
  shows "40 + 4 * n + direct_free L n \<le> rec_off L i" "rec_off L i + L \<le> 8192"
    "rec_off L i + (i + 1) * L = 8192"
proof -
  have "(i + 1) * L \<le> n * L" by (rule mult_right_mono) (use assms in auto)
  then show "40 + 4 * n + direct_free L n \<le> rec_off L i" "rec_off L i + (i + 1) * L = 8192"
    using direct_arith(1,2) [OF assms(1)] by (simp_all add: rec_off_def)
  then show "rec_off L i + L \<le> 8192" by simp
qed

lemma rec_off_below:
  assumes "n * (L + 4) \<le> 8152" "i < j" "j < n"
  shows "rec_off L j + L \<le> rec_off L i"
proof -
  have "(i + 1) * L + L \<le> (j + 1) * L"
    using mult_right_mono [of "i + 2" "j + 1" L] assms by (simp add: algebra_simps)
  then show ?thesis using rec_off_arith(3) [OF assms(1), of i] rec_off_arith(3) [OF assms(1), of j] assms by linarith
qed

lemma rec_off_last:
  assumes "n * (L + 4) \<le> 8152" "0 < n"
  shows "rec_off L (n - 1) = 40 + 4 * n + direct_free L n"
  using direct_arith(1) [OF assms(1)] assms(2) by (simp add: rec_off_def)

section \<open>The slots determine the bytes\<close>

lemma same_fields_append:
  "same_fields off (ns @ ms) a b \<longleftrightarrow> same_fields off ns a b \<and> same_fields (off + sum_list ns) ms a b"
  by (induction ns arbitrary: off) (simp_all add: add.assoc)

lemma same_fields_replicate:
  "same_fields off (replicate m w) a b \<longleftrightarrow> (\<forall>k < m. buf_get (off + k * w) w a = buf_get (off + k * w) w b)"
proof (induction m arbitrary: off)
  case (Suc m)
  have "(\<forall>k < Suc m. P k) \<longleftrightarrow> P 0 \<and> (\<forall>k < m. P (Suc k))" for P
    by (auto simp: less_Suc_eq_0_disj)
  then show ?case using Suc [of "off + w"] by (simp add: add.assoc)
qed simp

lemma from_le_u16_inj:
  assumes "length x = 2" "length y = 2" "(from_le x :: u16) = from_le y"
  shows "x = y"
  by (metis le_bytes_from_le_u16 assms)

lemma direct_unique:
  assumes a: "direct_holds L cs a" and b: "direct_holds L cs b"
  shows "a = b"
proof -
  let ?n = "length cs"
  let ?f = "direct_free L ?n"
  note D = direct_arith [OF direct_page(3) [OF a]]
  have two: "buf_get (k * 2) 2 a = buf_get (k * 2) 2 b" if k: "k < ?n * 2" for k
  proof -
    obtain i where i: "k = 2 * i \<or> k = 2 * i + 1" by (metis oddE evenE)
    then have e: "entry_of a i = entry_of b i" using k direct_slot(1) [OF a] direct_slot(1) [OF b] by auto
    have "length (buf_get (k * 2) 2 a) = 2" "length (buf_get (k * 2) 2 b) = 2"
      using direct_page(2) [OF a] direct_page(2) [OF b] D k by simp_all
    then show ?thesis by (rule from_le_u16_inj) (use i e in \<open>auto simp: entry_of_def\<close>)
  qed
  have rec: "buf_get (4 * ?n + ?f + k * L) L a = buf_get (4 * ?n + ?f + k * L) L b" if k: "k < ?n" for k
  proof -
    have "?n - 1 - k + 1 + k = ?n" using k by simp
    then have "(?n - 1 - k + 1) * L + k * L = ?n * L" by (metis distrib_right)
    then have "4 * ?n + ?f + k * L = rec_off L (?n - 1 - k) - 40" using D by (simp add: rec_off_def)
    then show ?thesis using direct_slot(3) [OF a, of "?n - 1 - k"] direct_slot(3) [OF b, of "?n - 1 - k"] k by simp
  qed
  have "same_fields 0 (replicate (?n * 2) 2 @ [?f] @ replicate ?n L) a b"
    using direct_page(4) [OF a] direct_page(4) [OF b] two rec
    by (simp add: same_fields_append same_fields_replicate sum_list_replicate)
  moreover have "8152 = sum_list (replicate (?n * 2) 2 @ [?f] @ replicate ?n L)"
    using D by (simp add: sum_list_replicate)
  ultimately show ?thesis
    by (intro buf_eq_by_fields [of "replicate (?n * 2) 2 @ [?f] @ replicate ?n L"]) (simp_all only: direct_page(2) [OF a] direct_page(2) [OF b])
qed

text \<open>A direct page is a slotted page with the cells of its slots.\<close>

lemma direct_body:
  assumes d: "direct_holds L cs b"
  shows "body_holds (direct_free L (length cs)) (map slot_cell cs) b"
proof (rule body_holdsI)
  note A = direct_page(3) [OF d]
  show "length b = 8152" "4 * length (map slot_cell cs) + direct_free L (length cs) \<le> 8152"
    using direct_page(2) [OF d] direct_arith(3) [OF A] by simp_all
  fix i assume "i < length (map slot_cell cs)"
  then have i: "i < length cs" by simp
  obtain m r where s: "cs ! i = (m, r)" by fastforce
  have "0 < length cs" using i by linarith
  note L = direct_arith(4) [OF A this]
  have "r \<noteq> []" using direct_slot(2) [OF d i] direct_page(1) [OF d] s by auto
  with L show "cell_ok (40 + 4 * length (map slot_cell cs) + direct_free L (length cs)) b (entry_of b i)
      (map slot_cell cs ! i)"
    using i s direct_slot [OF d i] rec_off_arith [OF A i] by (cases m) simp_all
next
  note A = direct_page(3) [OF d]
  fix i j assume ij: "i < length (map slot_cell cs)" "j < length (map slot_cell cs)" "i \<noteq> j"
    "is_Live (map slot_cell cs ! i)" "is_Live (map slot_cell cs ! j)"
  have ent: "entry_of b k = (word_of_nat (rec_off L k), word_of_nat L)"
    if "k < length cs" "is_Live (slot_cell (cs ! k))" for k
  proof -
    obtain m r where "cs ! k = (m, r)" by fastforce
    then show ?thesis using that direct_slot(1) [OF d that(1)] by (cases m) auto
  qed
  have "L < 65536" using direct_arith(4) [OF A] ij by fastforce
  moreover have "rec_off L i + L \<le> rec_off L j \<or> rec_off L j + L \<le> rec_off L i"
    using rec_off_below [OF A, of i j] rec_off_below [OF A, of j i] ij by (cases "i < j") auto
  ultimately show "apart (entry_of b i) (entry_of b j)" using ij ent [of i] ent [of j] by (simp add: apart_def)
qed

section \<open>Direct writes\<close>

lemma zero_region:
  assumes "buf_get a k b = replicate k (0 :: u8)" "a \<le> x" "x + w \<le> a + k" "a + k \<le> length b"
  shows "buf_get x w b = replicate w 0"
proof -
  have "buf_get x w b = buf_get (x - a) w (buf_get a k b)"
    using assms(2-4) by (simp add: buf_get_def drop_take min_def add.commute)
  then show ?thesis using assms by (simp add: buf_get_replicate)
qed

lemma buf_put_same: "buf_get off (length bs) b = bs \<Longrightarrow> buf_put off bs b = b"
  unfolding buf_put_def buf_get_def
  by (metis append_take_drop_id drop_drop add.commute)

lemma direct_reserve:
  assumes d: "direct_holds L cs b" and m: "length cs \<le> m" "m * (L + 4) \<le> 8152"
  shows "direct_holds L (cs @ replicate (m - length cs) (Empty, replicate L 0)) b"
    and "buf_put (4 * length cs) (replicate (4 * m - 4 * length cs) 0) b = b"
    and "buf_put (8152 - m * L) (replicate (m * L - length cs * L) 0) b = b"
proof -
  let ?n = "length cs"
  note A = direct_arith [OF direct_page(3) [OF d]] and Am = direct_arith [OF m(2)]
  have mono: "?n * L \<le> m * L" using m by simp
  have Am4: "4 * m \<le> 8152 - ?n * L" using Am(1,2) mono by linarith
  have z: "buf_get x w b = replicate w 0" if "4 * ?n \<le> x" "x + w \<le> 8152 - ?n * L" for x w
    by (rule zero_region [OF direct_page(4) [OF d]]) (use that A direct_page(2) [OF d] in auto)
  show "buf_put (4 * ?n) (replicate (4 * m - 4 * ?n) 0) b = b"
    using Am4 m(1) by (intro buf_put_same) (auto intro!: z)
  show "buf_put (8152 - m * L) (replicate (m * L - ?n * L) 0) b = b"
    using Am A mono m(1) by (intro buf_put_same) (auto intro!: z)
  have ent: "entry_of b i = (0, 0)" if "?n \<le> i" "i < m" for i
  proof -
    have "4 * i + 4 \<le> 8152 - ?n * L" using that Am4 by linarith
    then have "buf_get (4 * i) 2 b = replicate 2 0" "buf_get (4 * i + 2) 2 b = replicate 2 0"
      using that by (auto intro!: z)
    then show ?thesis by (simp add: entry_of_def numeral_2_eq_2)
  qed
  have rec: "buf_get (rec_off L i - 40) L b = replicate L 0" if "?n \<le> i" "i < m" for i
  proof -
    have a: "?n * L \<le> i * L" using that by simp
    have "rec_off L i + L + i * L = 8192" using rec_off_arith(3) [OF m(2) that(2)] by simp
    with a rec_off_arith(1) [OF m(2) that(2)] m(1) show ?thesis by (intro z) linarith+
  qed
  have free: "buf_get (4 * m) (direct_free L m) b = replicate (direct_free L m) 0"
    by (intro z) (use Am(1,2) mono m(1) in linarith)+
  show "direct_holds L (cs @ replicate (m - ?n) (Empty, replicate L 0)) b"
    unfolding direct_holds_def
    using direct_page [OF d] direct_slot [OF d] ent rec free m by (auto simp: nth_append)
qed

lemma direct_update:
  assumes d: "direct_holds L cs b" and i: "i < length cs" and r: "length r = L"
    and e: "(off, len) = mark_entry L i m"
  shows "direct_holds L (cs[i := (m, r)]) (set_entry i off len (buf_put (rec_off L i - 40) r b))"
proof -
  let ?n = "length cs" and ?b = "set_entry i off len (buf_put (rec_off L i - 40) r b)"
  note A = direct_page(3) [OF d] and P = direct_page [OF d]
  note R = rec_off_arith [OF A i]
  have lo: "4 * ?n + direct_free L ?n \<le> rec_off L i - 40" using R by simp
  have ent: "entry_of ?b j = (if j = i then (off, len) else entry_of b j)" if "j < ?n" for j
    using that i lo R P r by (simp add: entry_set_entry entry_put_record)
  have rec: "buf_get (rec_off L j - 40) L ?b = (if j = i then r else buf_get (rec_off L j - 40) L b)"
    if j: "j < ?n" for j
  proof -
    note Rj = rec_off_arith [OF A j]
    have "4 * i + 4 \<le> rec_off L j - 40" using Rj i by simp
    moreover have "rec_off L j + L \<le> rec_off L i \<or> rec_off L i + L \<le> rec_off L j" if "j \<noteq> i"
      using rec_off_below [OF A, of i j] rec_off_below [OF A, of j i] i j that by (cases "i < j") auto
    ultimately show ?thesis using R Rj r P i
      by (cases "j = i") (auto simp: get_set_entry buf_get_put_same buf_get_put_before buf_get_put_after)
  qed
  have free: "buf_get (4 * ?n) (direct_free L ?n) ?b = replicate (direct_free L ?n) 0"
    using P lo R i r by (simp add: get_set_entry buf_get_put_before)
  show ?thesis unfolding direct_holds_def
    using P ent rec free direct_slot [OF d] i r e R by (auto simp: nth_list_update)
qed

definition put_slot :: "nat \<Rightarrow> nat \<Rightarrow> mark \<times> bytes \<Rightarrow> slots \<Rightarrow> slots" where
  "put_slot L i s cs = (cs @ replicate (Suc i - length cs) (Empty, replicate L 0))[i := s]"

lemma length_put_slot [simp]: "length (put_slot L i s cs) = max (Suc i) (length cs)"
  by (simp add: put_slot_def)

lemma direct_put:
  assumes d: "direct_holds L cs b" and r: "length r = L"
    and n: "max (Suc i) (length cs) * (L + 4) \<le> 8152" and e: "(off, len) = mark_entry L i m"
  shows "direct_holds L (put_slot L i (m, r) cs) (set_entry i off len (buf_put (rec_off L i - 40) r b))"
proof -
  let ?m = "max (Suc i) (length cs)"
  have "direct_holds L (cs @ replicate (?m - length cs) (Empty, replicate L 0)) b"
    using d n by (intro direct_reserve) auto
  moreover have "?m - length cs = Suc i - length cs" by simp
  ultimately show ?thesis using direct_update [OF _ _ r e] by (simp add: put_slot_def)
qed

definition page_direct :: "(bytes \<Rightarrow> u32) \<Rightarrow> PageHeader \<Rightarrow> nat \<Rightarrow> slots \<Rightarrow> bytes \<Rightarrow> bool" where
  "page_direct crc h L cs p \<longleftrightarrow>
     header_wf h \<and>
     (\<exists>b. direct_holds L cs b \<and> p = raw_page (sealed_header crc h (length cs) (direct_free L (length cs)) b) b)"

lemma page_direct_unique: "page_direct crc h L cs p \<Longrightarrow> page_direct crc h L cs p' \<Longrightarrow> p = p'"
  by (auto simp: page_direct_def dest: direct_unique)

lemma page_direct_holds:
  "page_direct crc h L cs p \<Longrightarrow> page_holds crc h (direct_free L (length cs)) (map slot_cell cs) p"
  by (auto simp: page_direct_def page_holds_def dest: direct_body)

lemma page_direct_raw:
  "header_wf h \<Longrightarrow> direct_holds L cs b \<Longrightarrow> n = length cs \<Longrightarrow> f = direct_free L (length cs) \<Longrightarrow>
     page_direct crc h L cs (raw_page (sealed_header crc h n f b) b)"
  by (auto simp: page_direct_def)

lemma direct_slot_entry:
  assumes d: "direct_holds L cs b" and h: "layout_of (direct_free L (length cs)) (map slot_cell cs) h"
    and i: "unat slot < length cs"
  shows "page_bind (slot_entry slot) k (raw_page h b) =
    k (if fst (cs ! unat slot) = Used then Some (word_of_nat (rec_off L (unat slot)), word_of_nat L) else None)
      (raw_page h b)"
proof -
  obtain m r where s: "cs ! unat slot = (m, r)" by fastforce
  show ?thesis
    using slot_entry_eval [OF h direct_body [OF d], of slot k] i s direct_slot(1) [OF d i]
    by (cases m) (simp_all add: entry_result_def)
qed

lemma layout_direct:
  "header_wf h \<Longrightarrow>
     layout_of (direct_free L (length cs)) (map slot_cell cs) (sealed_header crc h (length cs) (direct_free L (length cs)) b)"
  by (simp add: layout_of_def)

lemma install_fixed_eval:
  assumes "length b = 8152" "length r = L" "L \<le> 8148" "4 * unat slot + 44 \<le> rec_off L (unat slot)"
    "rec_off L (unat slot) + L \<le> 8192" "free \<le> 8152"
  defines "b' \<equiv> set_entry (unat slot) (word_of_nat (rec_off L (unat slot))) (word_of_nat L)
      (buf_put (rec_off L (unat slot) - 40) r b)"
  shows "install_fixed crc slot r (word_of_nat L) (rec_off L (unat slot)) h n free (raw_page h b) =
    Done (raw_page (sealed_header crc h (unat n) free b') b', Inr ())"
proof -
  have "u16_try_from (rec_off L (unat slot)) = Some (word_of_nat (rec_off L (unat slot)))"
    "u16_try_from free = Some (word_of_nat free)"
    using assms(5,6) by (simp_all add: u16_try_from_def)
  moreover have "h\<lparr>ph_slot_count := n, ph_free_space := word_of_nat free, ph_checksum := c\<rparr> =
      h\<lparr>ph_slot_count := word_of_nat (unat n), ph_free_space := word_of_nat free, ph_checksum := c\<rparr>" for c
    by simp
  ultimately show ?thesis using assms by (simp add: install_fixed_def page_simps sealed_header_def)
qed

lemma write_fixed_direct:
  assumes p: "page_direct crc h L cs p" and r: "length r = L"
    and cap: "unat cap * (L + 4) \<le> 8152" "length cs \<le> unat cap" "unat slot < unat cap"
  shows "\<exists>p'. write_fixed_at_slot crc slot r (word_of_nat L) cap p = Done (p', Inr ()) \<and>
    page_direct crc h L (put_slot L (unat slot) (Used, r) cs) p'"
proof -
  obtain b where h: "header_wf h" and d: "direct_holds L cs b"
    and pb: "p = raw_page (sealed_header crc h (length cs) (direct_free L (length cs)) b) b"
    using p by (auto simp: page_direct_def)
  define n i m where "n = length cs" and "i = unat slot" and "m = max (Suc i) n"
  let ?h = "sealed_header crc h n (direct_free L n) b"
  let ?b = "set_entry i (word_of_nat (rec_off L i)) (word_of_nat L) (buf_put (rec_off L i - 40) r b)"
  have A: "n * (L + 4) \<le> 8152" using direct_page(3) [OF d] by (simp add: n_def)
  have "m * (L + 4) \<le> unat cap * (L + 4)" using cap by (intro mult_right_mono) (auto simp: m_def n_def i_def)
  then have m: "m * (L + 4) \<le> 8152" using cap(1) by linarith
  have im: "i < m" "n \<le> m" "0 < m" by (simp_all add: m_def)
  note M = direct_arith [OF m] and R = rec_off_arith [OF m im(1)] and N = direct_arith [OF A]
  have L: "L \<le> 8148" using M(4) im by simp
  have n65: "n < 2039" "m < 2039" using N(3) M(3) by linarith+
  have lt: "\<not> cap \<le> slot" "\<not> cap < word_of_nat n"
    using cap(2,3) n65 by (simp_all add: word_less_nat_alt word_le_nat_alt n_def)
  have s1: "slot \<noteq> 0xFFFF" using n65 im by (auto simp: i_def)
  have us: "unat (slot + 1) = Suc i" using n65 im by (simp add: unat_word_ariths i_def)
  have um: "unat (max (slot + 1) (word_of_nat n)) = m"
    using us n65 by (auto simp: max_def word_le_nat_alt m_def)
  have mw: "word_of_nat n < max (slot + 1) (word_of_nat n :: u16) \<longleftrightarrow> n < m"
    using um n65 by (simp add: word_less_nat_alt)
  have sn: "slot < word_of_nat n \<longleftrightarrow> i < n" using n65 by (simp add: word_less_nat_alt i_def)
  have rs: "8192 - (i + 1) * L = rec_off L i" by (simp add: rec_off_def)
  have cs: "checked_sub 8152 (n * (L + 4)) = Some (direct_free L n)"
    "checked_sub 8152 (m * (L + 4)) = Some (direct_free L m)"
    "checked_sub 8192 (Suc i * L) = Some (rec_off L i)"
    "checked_sub 8192 (n * L) = Some (8192 - n * L)" "checked_sub 8192 (m * L) = Some (8192 - m * L)"
    using A m N M R(3) by (simp_all add: checked_sub_def direct_free_def rec_off_def)
  have nm: "n * L \<le> m * L" using im by simp
  have gap: "40 \<le> 8192 - m * L" "8192 - m * L \<le> 8192 - n * L" "8192 - n * L - (8192 - m * L) = m * L - n * L"
    using nm M(2) N(2) by linarith+
  have res: "n < m \<Longrightarrow> page_bind (reserve_fixed n m L) k (raw_page ?h b) = k () (raw_page ?h b)" for k :: "unit \<Rightarrow> unit page_op"
    using direct_reserve(2,3) [OF d, of m] m im N M direct_page(2) [OF d] gap
    by (simp add: reserve_fixed_def page_simps layout_defs cs n_def [symmetric] mult.commute [of _ 4])
  have ent: "i < n \<Longrightarrow> page_bind (slot_entry slot) k (raw_page ?h b) =
      k (if fst (cs ! i) = Used then Some (word_of_nat (rec_off L i), word_of_nat L) else None) (raw_page ?h b)" for k :: "_ \<Rightarrow> unit page_op"
    using direct_slot_entry [OF d layout_direct [OF h], of slot k] by (simp add: n_def i_def)
  have inst: "install_fixed crc slot r (word_of_nat L) (rec_off L i) ?h (max (slot + 1) (word_of_nat n))
      (direct_free L m) (raw_page ?h b) = Done (raw_page (sealed_header crc h m (direct_free L m) ?b) ?b, Inr ())"
    using install_fixed_eval [of b r L slot "direct_free L m" crc ?h "max (slot + 1) (word_of_nat n)"]
      direct_page(2) [OF d] r L R M im um by (simp add: i_def [symmetric])
  have hold: "direct_holds L (put_slot L i (Used, r) cs) ?b"
    using direct_put [OF d r, of i] m by (simp add: m_def n_def)
  have "write_fixed_at_slot crc slot r (word_of_nat L) cap p =
      Done (raw_page (sealed_header crc h m (direct_free L m) ?b) ?b, Inr ())"
    using lt r L s1 h n65 N M R im unfolding write_fixed_at_slot_def pb n_def [symmetric]
    by (simp add: page_simps layout_defs Let_def cs um mw sn i_def [symmetric] ent res inst
        del: mult_Suc mult_Suc_right distrib_left_numeral) (use inst in auto)
  then show ?thesis using page_direct_raw [OF h hold] by (auto simp: m_def n_def i_def)
qed

text \<open>Appending to a direct page writes the same bytes as a direct write at the next slot.\<close>

lemma insert_raw_direct:
  assumes p: "page_direct crc h L cs p" and r: "length r = L" and n: "Suc (length cs) * (L + 4) \<le> 8152"
  shows "\<exists>p'. insert_raw crc r p = Done (p', Inr (word_of_nat (length cs))) \<and>
    page_direct crc h L (put_slot L (length cs) (Used, r) cs) p'"
proof -
  obtain b where h: "header_wf h" and d: "direct_holds L cs b"
    and pb: "p = raw_page (sealed_header crc h (length cs) (direct_free L (length cs)) b) b"
    using p by (auto simp: page_direct_def)
  let ?n = "length cs"
  let ?f = "direct_free L ?n"
  let ?b = "set_entry ?n (word_of_nat (rec_off L ?n)) (word_of_nat L) (buf_put (rec_off L ?n - 40) r b)"
  have f: "?f = direct_free L (Suc ?n) + (L + 4)" using n by (simp add: direct_free_def)
  have off: "40 + 4 * ?n + ?f - length r = rec_off L ?n" "4 * ?n + ?f - length r = rec_off L ?n - 40"
    using direct_arith(1) [OF n] f r by (simp_all add: rec_off_def)
  have pl: "placed ?n ?f r ?n b = ?b" unfolding placed_def r off [unfolded r] by (rule refl)
  have le: "length r + 4 \<le> ?f" and fl: "?f - length r - 4 = direct_free L (Suc ?n)" using f r by simp_all
  have "insert_raw crc r p =
      Done (raw_page (sealed_header crc h (?n + 1) (direct_free L (Suc ?n)) ?b) ?b, Inr (word_of_nat ?n))"
    using insert_raw_eval [OF layout_direct [OF h, where crc = crc and b = b] direct_body [OF d] le, where crc = crc]
    by (simp only: length_map pl fl sealed_sealed pb)
  moreover have hold: "direct_holds L (put_slot L ?n (Used, r) cs) ?b" using direct_put [OF d r, of ?n] n by simp
  ultimately show ?thesis using page_direct_raw [OF h hold, of "?n + 1" "direct_free L (Suc ?n)" crc] by simp
qed

section \<open>Publishing node records\<close>

fun node_slot :: "NodeRecord option \<Rightarrow> mark \<times> bytes" where
  "node_slot None = (Empty, replicate 64 0)"
| "node_slot (Some r) = (Used, NodeRecord_to_bytes r)"

definition node_page :: "(bytes \<Rightarrow> u32) \<Rightarrow> PageHeader \<Rightarrow> NodeRecord option list \<Rightarrow> bytes \<Rightarrow> bool" where
  "node_page crc h rs p \<longleftrightarrow>
     page_direct crc h 64 (map node_slot rs) p \<and> ph_page_type h = PageType_as_byte Node \<and>
     length rs \<le> 119 \<and> (\<forall>r. Some r \<in> set rs \<longrightarrow> node_wf r)"

definition put_opt :: "nat \<Rightarrow> NodeRecord \<Rightarrow> NodeRecord option list \<Rightarrow> NodeRecord option list" where
  "put_opt i r rs = (rs @ replicate (Suc i - length rs) None)[i := Some r]"

lemma put_opt_slot: "map node_slot (put_opt i r rs) = put_slot 64 i (node_slot (Some r)) (map node_slot rs)"
  by (simp add: put_opt_def put_slot_def map_update map_replicate)

lemma put_opt_props:
  "length (put_opt i r rs) = max (Suc i) (length rs)"
  "j < length (put_opt i r rs) \<Longrightarrow>
     put_opt i r rs ! j = (if j = i then Some r else if j < length rs then rs ! j else None)"
  by (auto simp: put_opt_def nth_list_update nth_append)

lemma node_page_cells:
  assumes "node_page crc h rs p" "unat slot < length rs"
  shows "read_node slot p = Done (p, Inr (rs ! unat slot))"
proof -
  have "node_wf r" if "rs ! unat slot = Some r" for r
    using assms that unfolding node_page_def by (metis nth_mem)
  moreover have D: "page_direct crc h 64 (map node_slot rs) p" using assms by (simp add: node_page_def)
  ultimately show ?thesis using assms(2)
    by (cases "rs ! unat slot") (simp_all add: read_node_def read_fixed_holds [OF page_direct_holds [OF D]]
        read_cell_def NodeRecord_SIZE_def node_codec.dec_enc)
qed

lemma guard_eval:
  assumes p: "node_page crc h rs p"
  shows "page_bind (guard_monotone_publish slot incoming
      (\<lambda>s. page_bind (read_node s) (\<lambda>o_rec. page_ok (map_option nr_created_lsn o_rec)))) k p =
    (case (if unat slot < length rs then rs ! unat slot else None) of
       Some r \<Rightarrow> if incoming < nr_created_lsn r
                 then Done (p, Inl (StalePublish slot (nr_created_lsn r) incoming)) else k () p
     | None \<Rightarrow> k () p)"
proof -
  have hold: "page_holds crc h (direct_free 64 (length rs)) (map slot_cell (map node_slot rs)) p"
    using page_direct_holds p unfolding node_page_def by (metis length_map)
  then obtain b where b: "body_holds (direct_free 64 (length rs)) (map slot_cell (map node_slot rs)) b"
    and pb: "p = raw_page (sealed_header crc h (length rs) (direct_free 64 (length rs)) b) b"
    and l: "layout_of (direct_free 64 (length rs)) (map slot_cell (map node_slot rs))
      (sealed_header crc h (length rs) (direct_free 64 (length rs)) b)" and h: "header_wf h"
    by (auto elim!: page_holdsE)
  have lt: "word_of_nat (length rs) \<le> slot \<longleftrightarrow> \<not> unat slot < length rs"
    using p by (auto simp: word_le_nat_alt node_page_def)
  have dead: "page_bind (is_permanent_tombstone slot) k p = k False p" if "unat slot < length rs" for k :: "bool \<Rightarrow> 'a page_op"
    using is_permanent_eval [OF l b, of slot k] that by (cases "rs ! unat slot") (simp_all add: pb)
  have rd: "page_bind (read_node slot) k p = k (rs ! unat slot) p" if "unat slot < length rs" for k :: "_ \<Rightarrow> 'a page_op"
    by (simp add: page_bind_def node_page_cells [OF p that])
  have cnt: "page_bind slot_count k p = k (word_of_nat (length rs)) p" for k :: "_ \<Rightarrow> 'a page_op"
    using h by (simp add: pb page_simps)
  show ?thesis
    using lt by (cases "unat slot < length rs"; cases "rs ! unat slot")
      (simp_all add: guard_monotone_publish_def page_bind_assoc if_bind cnt dead rd page_bind_simps)
qed

lemma write_node_eval:
  assumes p: "node_page crc h rs p" and slot: "slot < NODE_CAPACITY" and r: "node_wf r"
  defines "cur \<equiv> (if unat slot < length rs then rs ! unat slot else None)"
  shows "case cur of
      Some c \<Rightarrow> nr_created_lsn r < nr_created_lsn c \<longrightarrow>
        write_node_at_slot crc slot r p = Done (p, Inl (StalePublish slot (nr_created_lsn c) (nr_created_lsn r)))
    | None \<Rightarrow> True"
    and "(\<And>c. cur = Some c \<Longrightarrow> \<not> nr_created_lsn r < nr_created_lsn c) \<Longrightarrow>
      \<exists>p'. write_node_at_slot crc slot r p = Done (p', Inr ()) \<and> node_page crc h (put_opt (unat slot) r rs) p'"
proof -
  have d: "page_direct crc h 64 (map node_slot rs) p" and t: "ph_page_type h = 1" and n: "length rs \<le> 119"
    and wf: "\<And>x. Some x \<in> set rs \<Longrightarrow> node_wf x"
    using p by (auto simp: node_page_def)
  have ty: "page_bind (require_page_type Node) k p = k () p" for k :: "unit \<Rightarrow> unit page_op"
    using d t by (auto simp: page_direct_def page_simps)
  have run: "write_node_at_slot crc slot r p =
      (case cur of
         Some c \<Rightarrow> if nr_created_lsn r < nr_created_lsn c
           then Done (p, Inl (StalePublish slot (nr_created_lsn c) (nr_created_lsn r)))
           else write_fixed_at_slot crc slot (NodeRecord_to_bytes r) 64 119 p
       | None \<Rightarrow> write_fixed_at_slot crc slot (NodeRecord_to_bytes r) 64 119 p)"
    unfolding write_node_at_slot_def ty guard_eval [OF p] cur_def
    by (simp add: NodeRecord_SIZE_def split: option.split)
  show "case cur of
      Some c \<Rightarrow> nr_created_lsn r < nr_created_lsn c \<longrightarrow>
        write_node_at_slot crc slot r p = Done (p, Inl (StalePublish slot (nr_created_lsn c) (nr_created_lsn r)))
    | None \<Rightarrow> True"
    unfolding run by (simp split: option.splits)
  assume fresh: "\<And>c. cur = Some c \<Longrightarrow> \<not> nr_created_lsn r < nr_created_lsn c"
  have s: "unat slot < 119" using slot by (simp add: word_less_nat_alt)
  obtain p' where p': "write_fixed_at_slot crc slot (NodeRecord_to_bytes r) 64 119 p = Done (p', Inr ())"
    "page_direct crc h 64 (put_slot 64 (unat slot) (Used, NodeRecord_to_bytes r) (map node_slot rs)) p'"
    using write_fixed_direct [OF d, of "NodeRecord_to_bytes r" 119 slot] n s by auto
  have "node_wf x" if "Some x \<in> set (put_opt (unat slot) r rs)" for x
    using that wf r put_opt_props [where i = "unat slot" and r = r and rs = rs] by (fastforce simp: in_set_conv_nth split: if_splits)
  then have "node_page crc h (put_opt (unat slot) r rs) p'"
    using p'(2) t n s by (simp add: node_page_def put_opt_slot put_opt_props(1))
  moreover have "write_node_at_slot crc slot r p = Done (p', Inr ())"
    unfolding run using p'(1) fresh by (auto split: option.splits)
  ultimately show "\<exists>p'. write_node_at_slot crc slot r p = Done (p', Inr ()) \<and>
      node_page crc h (put_opt (unat slot) r rs) p'" by blast
qed

text \<open>Publishers in their order of arrival; one that is refused leaves the page to the next.\<close>

fun publish_all :: "(bytes \<Rightarrow> u32) \<Rightarrow> (u16 \<times> NodeRecord) list \<Rightarrow> bytes \<Rightarrow> bytes run" where
  "publish_all crc [] p = Done p"
| "publish_all crc ((slot, r) # ws) p =
     (case write_node_at_slot crc slot r p of
        Panicked \<Rightarrow> Panicked
      | Done (p', _) \<Rightarrow> publish_all crc ws p')"

text \<open>The same on the contents of the slots, and the high-water mark.\<close>

fun newest :: "u16 \<times> NodeRecord \<Rightarrow> (nat \<Rightarrow> NodeRecord option) \<Rightarrow> nat \<Rightarrow> NodeRecord option" where
  "newest (slot, r) m =
     (case m (unat slot) of
        Some c \<Rightarrow> if nr_created_lsn r < nr_created_lsn c then m else m(unat slot \<mapsto> r)
      | None \<Rightarrow> m(unat slot \<mapsto> r))"

definition raise_to :: "u16 \<times> NodeRecord \<Rightarrow> nat \<Rightarrow> nat" where
  "raise_to w n = max (Suc (unat (fst w))) n"

definition slots_upto :: "(nat \<Rightarrow> NodeRecord option) \<Rightarrow> nat \<Rightarrow> NodeRecord option list" where
  "slots_upto m n = map m [0..<n]"

lemma publish_all_eval:
  assumes "node_page crc h (slots_upto m n) p" "\<And>i. n \<le> i \<Longrightarrow> m i = None"
    and "\<forall>(slot, r) \<in> set ws. slot < NODE_CAPACITY \<and> node_wf r"
  shows "\<exists>q. publish_all crc ws p = Done q \<and>
    node_page crc h (slots_upto (fold newest ws m) (fold raise_to ws n)) q"
  using assms
proof (induction ws arbitrary: m n p)
  case Nil
  then show ?case by simp
next
  case (Cons w ws)
  obtain slot r where w: "w = (slot, r)" by fastforce
  let ?i = "unat slot"
  have slot: "slot < NODE_CAPACITY" and r: "node_wf r" using Cons.prems(3) w by auto
  have cur: "(if ?i < length (slots_upto m n) then slots_upto m n ! ?i else None) = m ?i"
    using Cons.prems(2) by (auto simp: slots_upto_def)
  note E = write_node_eval [OF Cons.prems(1) slot r, unfolded cur]
  have "\<exists>p'. (\<exists>x. write_node_at_slot crc slot r p = Done (p', x)) \<and>
      node_page crc h (slots_upto (newest w m) (raise_to w n)) p'"
  proof (cases "\<exists>c. m ?i = Some c \<and> nr_created_lsn r < nr_created_lsn c")
    case True
    then obtain c where c: "m ?i = Some c" "nr_created_lsn r < nr_created_lsn c" by blast
    then have "\<not> n \<le> ?i" using Cons.prems(2) by fastforce
    then have "raise_to w n = n" by (simp add: raise_to_def w)
    then show ?thesis using E(1) c Cons.prems(1) by (auto simp: w)
  next
    case False
    then obtain p' where p': "write_node_at_slot crc slot r p = Done (p', Inr ())"
      "node_page crc h (put_opt ?i r (slots_upto m n)) p'" using E(2) by fastforce
    have "put_opt ?i r (slots_upto m n) = slots_upto (m(?i \<mapsto> r)) (max (Suc ?i) n)"
      using Cons.prems(2) put_opt_props [where i = ?i and r = r and rs = "slots_upto m n"]
      by (intro nth_equalityI) (auto simp: slots_upto_def)
    moreover have "newest w m = m(?i \<mapsto> r)" using False by (auto simp: w split: option.splits)
    ultimately show ?thesis using p' by (auto simp: raise_to_def w)
  qed
  then obtain p' x where p': "write_node_at_slot crc slot r p = Done (p', x)"
    "node_page crc h (slots_upto (newest w m) (raise_to w n)) p'" by blast
  have "newest w m i = None" if "raise_to w n \<le> i" for i
    using that Cons.prems(2) by (auto simp: w raise_to_def split: option.splits)
  from Cons.IH [OF p'(2) this] Cons.prems(3) show ?case using p'(1) by (auto simp: w)
qed

lemma newest_apply:
  "newest (slot, r) m i =
     (if i = unat slot \<and> (case m i of None \<Rightarrow> True | Some c \<Rightarrow> nr_created_lsn c \<le> nr_created_lsn r) then Some r else m i)"
  by (auto split: option.splits)

declare newest.simps [simp del]

lemma newest_commute:
  assumes "fst x = fst y \<Longrightarrow> nr_created_lsn (snd x) = nr_created_lsn (snd y) \<Longrightarrow> x = y"
  shows "newest x \<circ> newest y = newest y \<circ> newest x"
proof (intro ext)
  fix m i
  obtain s r s' r' where xy: "x = (s, r)" "y = (s', r')" by (metis prod.exhaust)
  show "(newest x \<circ> newest y) m i = (newest y \<circ> newest x) m i"
  proof (cases "unat s = unat s'")
    case True
    then have "s = s'" by (simp add: word_unat_eq_iff)
    then have "nr_created_lsn r = nr_created_lsn r' \<Longrightarrow> r = r'" using assms xy by simp
    then show ?thesis using True unfolding comp_apply xy newest_apply
      by (cases "m i"; cases "nr_created_lsn r \<le> nr_created_lsn r'") auto
  next
    case False
    then show ?thesis unfolding comp_apply xy newest_apply by (cases "i = unat s"; cases "i = unat s'") auto
  qed
qed

lemma raise_commute: "raise_to x \<circ> raise_to y = raise_to y \<circ> raise_to x"
  by (auto simp: raise_to_def)

section \<open>Properties\<close>

lemma new_page_type [simp]: "ph_page_type (PageHeader_new i t tenant) = PageType_as_byte t"
  by (simp add: PageHeader_new_def)

lemma fresh_exists:
  "\<exists>p. SlottedPage_init crc (PageHeader_new i Node tenant) (replicate PAGE_SIZE 0) = Done (p, Inr ())"
  using init_eval [of "replicate PAGE_SIZE 0" "PageHeader_new i Node tenant" crc] header_wf_new by simp

lemma fresh_node_page:
  assumes "length p0 = PAGE_SIZE" "header_wf h" "ph_page_type h = PageType_as_byte Node"
    and "SlottedPage_init crc h p0 = Done (p, x)"
  shows "node_page crc h (slots_upto (\<lambda>_. None) 0) p"
proof -
  let ?b = "replicate 8152 0 :: bytes"
  have p: "p = raw_page (sealed_header crc h (length ([] :: slots)) (direct_free 64 (length ([] :: slots))) ?b) ?b"
    using init_eval [OF assms(1,2), of crc] assms(3,4) by (simp add: direct_free_def)
  have "direct_holds 64 [] ?b"
    by (simp add: direct_holds_def direct_free_def buf_get_replicate)
  then have "page_direct crc h 64 [] p" unfolding p by (rule page_direct_raw [OF assms(2)]) (rule refl)+
  then show ?thesis using assms(3) by (simp add: node_page_def slots_upto_def)
qed

lemma distinct_key:
  assumes "distinct (map (\<lambda>(s, r). (s, nr_created_lsn r)) ws)" "x \<in> set ws" "y \<in> set ws"
    and "fst x = fst y" "nr_created_lsn (snd x) = nr_created_lsn (snd y)"
  shows "x = y"
proof -
  have "inj_on (\<lambda>(s, r). (s, nr_created_lsn r)) (set ws)" using assms(1) by (simp add: distinct_map)
  then show ?thesis by (rule inj_onD) (use assms(2-5) in \<open>auto simp: split_def\<close>)
qed

lemma newest_from:
  "fold newest ws (\<lambda>_. None) i = Some r \<Longrightarrow> \<exists>slot. unat slot = i \<and> (slot, r) \<in> set ws"
proof (induction ws rule: rev_induct)
  case (snoc w ws)
  obtain slot r' where w: "w = (slot, r')" by fastforce
  then show ?case using snoc by (auto simp: newest_apply split: if_splits)
qed simp

lemma newest_wins:
  assumes d: "distinct (map (\<lambda>(s, r). (s, nr_created_lsn r)) ws)" and w: "(slot, r) \<in> set ws"
    and top: "\<And>s' r'. (s', r') \<in> set ws \<Longrightarrow> s' = slot \<Longrightarrow> nr_created_lsn r' \<le> nr_created_lsn r"
  shows "fold newest ws (\<lambda>_. None) (unat slot) = Some r"
proof -
  let ?ws = "remove1 (slot, r) ws @ [(slot, r)]"
  have "fold newest ws = fold newest ?ws"
  proof (rule fold_multiset_equiv)
    show "mset ws = mset ?ws" using w by simp
    show "newest x \<circ> newest y = newest y \<circ> newest x" if "x \<in> set ws" "y \<in> set ws" for x y
      by (rule newest_commute) (rule distinct_key [OF d that])
  qed
  moreover have "nr_created_lsn c \<le> nr_created_lsn r"
    if cur: "fold newest (remove1 (slot, r) ws) (\<lambda>_. None) (unat slot) = Some c" for c
  proof -
    obtain s' where "unat s' = unat slot" and s': "(s', c) \<in> set (remove1 (slot, r) ws)"
      using newest_from [OF cur] by blast
    then have "s' = slot" by (simp add: word_unat_eq_iff)
    then show ?thesis using top s' set_remove1_subset by (metis subsetD)
  qed
  ultimately show ?thesis by (auto simp: newest_apply split: option.splits)
qed

lemma raise_covers: "(s, x) \<in> set us \<Longrightarrow> Suc (unat s) \<le> fold raise_to us k"
  by (induction us arbitrary: k rule: rev_induct) (auto simp: raise_to_def le_max_iff_disj)

text \<open>C9: direct publishes converge. From a fresh node page, publishers with different LSNs per slot
  leave the same bytes in every order of arrival, never panic, and each slot reads as the
  record with its highest LSN.\<close>

theorem direct_publish_converges:
  assumes fresh: "SlottedPage_init crc (PageHeader_new pid Node tenant) p0 = Done (p, Inr ())"
    and ok: "\<forall>(slot, r) \<in> set ws. slot < NODE_CAPACITY \<and> node_wf r"
    and dist: "distinct (map (\<lambda>(s, r). (s, nr_created_lsn r)) ws)" and perm: "mset ws' = mset ws"
  shows "\<exists>q. publish_all crc ws p = Done q \<and> publish_all crc ws' p = Done q \<and>
    (\<forall>(slot, r) \<in> set ws.
       (\<forall>(s', r') \<in> set ws. s' = slot \<longrightarrow> nr_created_lsn r' \<le> nr_created_lsn r) \<longrightarrow>
       read_node slot q = Done (q, Inr (Some r)))"
proof -
  let ?h = "PageHeader_new pid Node tenant" and ?m = "\<lambda>_. None"
  have "length p0 = PAGE_SIZE" using fresh by (auto simp: SlottedPage_init_def page_err_def split: if_splits)
  then have np: "node_page crc ?h (slots_upto ?m 0) p"
    by (rule fresh_node_page [OF _ header_wf_new _ fresh]) simp
  have sets: "set ws' = set ws" using perm by (metis set_mset_mset)
  have eq: "fold newest ws' = fold newest ws"
    by (rule fold_multiset_equiv [OF _ perm], rule newest_commute, rule distinct_key [OF dist]) (simp_all add: sets)
  have eq': "fold raise_to ws' = fold raise_to ws"
    by (rule fold_multiset_equiv [OF raise_commute perm])
  obtain q where q: "publish_all crc ws p = Done q"
    "node_page crc ?h (slots_upto (fold newest ws ?m) (fold raise_to ws 0)) q"
    using publish_all_eval [OF np _ ok] by auto
  obtain q' where q': "publish_all crc ws' p = Done q'"
    "node_page crc ?h (slots_upto (fold newest ws ?m) (fold raise_to ws 0)) q'"
    using publish_all_eval [OF np, of ws'] ok sets eq eq' by auto
  have "q' = q" using q(2) q'(2) page_direct_unique unfolding node_page_def by blast
  moreover have "read_node slot q = Done (q, Inr (Some r))"
    if w: "(slot, r) \<in> set ws" and top: "\<forall>(s', r') \<in> set ws. s' = slot \<longrightarrow> nr_created_lsn r' \<le> nr_created_lsn r" for slot r
  proof -
    have n: "fold newest ws ?m (unat slot) = Some r" using newest_wins [OF dist w] top by auto
    have "Suc (unat slot) \<le> fold raise_to ws 0" using raise_covers [OF w] .
    then show ?thesis using node_page_cells [OF q(2), of slot] n by (simp add: slots_upto_def)
  qed
  ultimately show ?thesis using q(1) q'(1) by blast
qed

theorem direct_publish_converges_witness:
  "\<exists>p q. SlottedPage_init (\<lambda>_. 0) (PageHeader_new 7 Node 1) (replicate PAGE_SIZE 0) = Done (p, Inr ()) \<and>
     publish_all (\<lambda>_. 0) [(4, NodeRecord_new 9 1 30), (4, NodeRecord_new 9 2 20)] p = Done q \<and>
     publish_all (\<lambda>_. 0) [(4, NodeRecord_new 9 2 20), (4, NodeRecord_new 9 1 30)] p = Done q \<and>
     read_node 4 q = Done (q, Inr (Some (NodeRecord_new 9 1 30)))"
proof -
  let ?ws = "[(4, NodeRecord_new 9 1 30), (4, NodeRecord_new 9 2 20)] :: (u16 \<times> NodeRecord) list"
  let ?ws' = "[(4, NodeRecord_new 9 2 20), (4, NodeRecord_new 9 1 30)] :: (u16 \<times> NodeRecord) list"
  obtain p where p: "SlottedPage_init (\<lambda>_. 0) (PageHeader_new 7 Node 1) (replicate PAGE_SIZE 0) = Done (p, Inr ())"
    using fresh_exists by blast
  have "\<forall>(slot, r) \<in> set ?ws. slot < NODE_CAPACITY \<and> node_wf r"
    by (simp add: node_wf_def NodeRecord_new_def NODE_RECORD_VERSION_def VERSION_MASK_def)
  moreover have "distinct (map (\<lambda>(s, r). (s, nr_created_lsn r)) ?ws)" by (simp add: NodeRecord_new_def)
  moreover have "mset ?ws' = mset ?ws" by simp
  ultimately have "\<exists>q. publish_all (\<lambda>_. 0) ?ws p = Done q \<and> publish_all (\<lambda>_. 0) ?ws' p = Done q \<and>
    (\<forall>(slot, r) \<in> set ?ws.
       (\<forall>(s', r') \<in> set ?ws. s' = slot \<longrightarrow> nr_created_lsn r' \<le> nr_created_lsn r) \<longrightarrow>
       read_node slot q = Done (q, Inr (Some r)))"
    by (rule direct_publish_converges [OF p])
  then show ?thesis using p by (fastforce simp: NodeRecord_new_def simp del: publish_all.simps)
qed

text \<open>C35: on a page in the direct layout, appending a node record and writing it at the next free slot
  by its address give the same bytes.\<close>

theorem direct_write_is_insert:
  assumes p: "node_page crc h rs p" and n: "length rs < 119" and r: "node_wf r"
  shows "\<exists>p'. insert_node crc r p = Done (p', Inr (word_of_nat (length rs))) \<and>
    write_node_at_slot crc (word_of_nat (length rs)) r p = Done (p', Inr ())"
proof -
  let ?s = "word_of_nat (length rs) :: u16"
  have d: "page_direct crc h 64 (map node_slot rs) p" and t: "ph_page_type h = 1"
    using p by (auto simp: node_page_def)
  have u: "unat ?s = length rs" using n by simp
  then have "?s < NODE_CAPACITY" using n by (simp add: word_less_nat_alt)
  then obtain q where q: "write_node_at_slot crc ?s r p = Done (q, Inr ())" "node_page crc h (put_opt (length rs) r rs) q"
    using write_node_eval(2) [OF p _ r, of ?s] u by auto
  have "insert_node crc r p = insert_raw crc (NodeRecord_to_bytes r) p"
    using d t by (auto simp: insert_node_def page_direct_def page_simps)
  moreover obtain q' where "insert_raw crc (NodeRecord_to_bytes r) p = Done (q', Inr ?s)"
    "page_direct crc h 64 (put_slot 64 (length rs) (Used, NodeRecord_to_bytes r) (map node_slot rs)) q'"
    using insert_raw_direct [OF d, of "NodeRecord_to_bytes r"] n by auto
  moreover have "page_direct crc h 64 (put_slot 64 (length rs) (Used, NodeRecord_to_bytes r) (map node_slot rs)) q"
    using q(2) by (simp add: node_page_def put_opt_slot)
  ultimately show ?thesis using q(1) page_direct_unique by metis
qed

theorem direct_write_is_insert_witness:
  "\<exists>p p'. node_page (\<lambda>_. 0) (PageHeader_new 7 Node 1) [] p \<and>
     insert_node (\<lambda>_. 0) (NodeRecord_new 9 1 30) p = Done (p', Inr 0) \<and>
     write_node_at_slot (\<lambda>_. 0) 0 (NodeRecord_new 9 1 30) p = Done (p', Inr ())"
proof -
  obtain p where "SlottedPage_init (\<lambda>_. 0) (PageHeader_new 7 Node 1) (replicate PAGE_SIZE 0) = Done (p, Inr ())"
    using fresh_exists by blast
  then have p: "node_page (\<lambda>_. 0) (PageHeader_new 7 Node 1) [] p"
    using fresh_node_page [of "replicate PAGE_SIZE 0", OF _ header_wf_new] by (simp add: slots_upto_def)
  have "node_wf (NodeRecord_new 9 1 30)"
    by (simp add: node_wf_def NodeRecord_new_def NODE_RECORD_VERSION_def VERSION_MASK_def)
  then show ?thesis using direct_write_is_insert [OF p] p by fastforce
qed

end
