(* ===== verification/Mvcc_Chain.thy ===== *)
theory Mvcc_Chain
  imports Core_Error
begin

text \<open>
  Version chains of the MVCC store, \<open>arcgraph-storage/src/transaction.rs\<close> (type \<open>Version\<close>, the install,
  rollback and reclaim steps on one chain, \<open>read_at\<close>), the LSN counter, and the redo LSN ranges of
  \<open>arcgraph-storage/src/redo.rs\<close>. The locale \<open>asof_store\<close> is the contract the transaction
  manager relies on: a chain stands for a history of writes, reads are as-of reads of that history,
  and pruning below a floor cannot be seen by readers at or above the floor. It is interpreted on the
  chain operations of the source.
\<close>

type_synonym MvccKey = u64

section \<open>Versions and chains\<close>

record Version =
  v_created_lsn :: Lsn
  v_expired_lsn :: Lsn
  v_bytes :: "bytes option"

type_synonym VersionChain = "Version list"

definition is_live :: "Version \<Rightarrow> bool" where
  "is_live v \<longleftrightarrow> v_expired_lsn v = Lsn_MAX"

definition visible_to :: "Version \<Rightarrow> Lsn \<Rightarrow> bool" where
  "visible_to v snapshot \<longleftrightarrow> v_created_lsn v \<le> snapshot \<and> snapshot < v_expired_lsn v"

text \<open>The Phase 1 install of one write: the live last version expires at the commit LSN and the new
  version is pushed.\<close>

definition expire_last :: "Lsn \<Rightarrow> VersionChain \<Rightarrow> VersionChain" where
  "expire_last commit_lsn chain =
     (if chain \<noteq> [] \<and> is_live (last chain)
      then butlast chain @ [(last chain)\<lparr>v_expired_lsn := commit_lsn\<rparr>] else chain)"

definition push_version :: "Lsn \<Rightarrow> bytes option \<Rightarrow> VersionChain \<Rightarrow> VersionChain" where
  "push_version commit_lsn val chain =
     expire_last commit_lsn chain @
       [\<lparr> v_created_lsn = commit_lsn, v_expired_lsn = Lsn_MAX, v_bytes = val \<rparr>]"

text \<open>The rollback of one write, the reclaim of one chain, and the read of one chain.\<close>

definition rollback_chain :: "Lsn \<Rightarrow> VersionChain \<Rightarrow> VersionChain" where
  "rollback_chain commit_lsn chain =
     (if chain \<noteq> [] \<and> v_created_lsn (last chain) = commit_lsn then
        let chain' = butlast chain in
        if chain' \<noteq> [] \<and> v_expired_lsn (last chain') = commit_lsn
        then butlast chain' @ [(last chain')\<lparr>v_expired_lsn := Lsn_MAX\<rparr>] else chain'
      else chain)"

definition gc_chain :: "Lsn \<Rightarrow> VersionChain \<Rightarrow> VersionChain" where
  "gc_chain anchor chain = filter (\<lambda>v. v_expired_lsn v > anchor) chain"

definition read_chain :: "VersionChain \<Rightarrow> Lsn \<Rightarrow> bytes option" where
  "read_chain chain snapshot =
     (case find_last (\<lambda>v. visible_to v snapshot) chain of
        None \<Rightarrow> None
      | Some v \<Rightarrow> v_bytes v)"

section \<open>LSN ranges and the counter\<close>

record RedoLsnRange =
  rg_base :: Lsn
  rg_end :: Lsn

definition RedoLsnRange_new :: "Lsn \<Rightarrow> Lsn \<Rightarrow> RedoLsnRange option" where
  "RedoLsnRange_new b e =
     (if b = 0 \<or> b > e then None else Some \<lparr> rg_base = b, rg_end = e \<rparr>)"

definition range_ending_at :: "Lsn \<Rightarrow> nat \<Rightarrow> RedoLsnRange option" where
  "range_ending_at commit_lsn op_count =
     (let width = max op_count 1 in
      if width \<ge> 2 ^ 64 then None
      else if unat commit_lsn < width - 1 then None
      else RedoLsnRange_new (commit_lsn - word_of_nat (width - 1)) commit_lsn)"

definition range_commit_lsn :: "RedoLsnRange \<Rightarrow> Lsn" where
  "range_commit_lsn r = rg_end r"

definition range_predecessor :: "RedoLsnRange \<Rightarrow> Lsn" where
  "range_predecessor r = rg_base r - 1"

definition range_len :: "RedoLsnRange \<Rightarrow> u64" where
  "range_len r = rg_end r - rg_base r + 1"

definition range_op_lsn :: "RedoLsnRange \<Rightarrow> nat \<Rightarrow> Lsn option" where
  "range_op_lsn r index =
     (if index \<ge> 2 ^ 64 then None
      else if word_of_nat index \<ge> range_len r then None
      else Some (rg_base r + word_of_nat index))"

definition range_contains :: "RedoLsnRange \<Rightarrow> Lsn \<Rightarrow> bool" where
  "range_contains r lsn \<longleftrightarrow> rg_base r \<le> lsn \<and> lsn \<le> rg_end r"

text \<open>\<open>LsnCounter::allocate_range\<close>: the counter holds the last LSN handed out; running out of LSNs is
  a panic.\<close>

definition allocate_range :: "u64 \<Rightarrow> nat \<Rightarrow> (u64 \<times> RedoLsnRange) run" where
  "allocate_range inner op_count =
     (let n = max op_count 1 in
      if n \<ge> 2 ^ 64 then Panicked
      else
        let width = word_of_nat n in
        (case checked_add inner width of
           None \<Rightarrow> Panicked
         | Some inner' \<Rightarrow>
             (case checked_add inner 1 of
                None \<Rightarrow> Panicked
              | Some b \<Rightarrow>
                  (case checked_add inner width of
                     None \<Rightarrow> Panicked
                   | Some e \<Rightarrow>
                       (case RedoLsnRange_new b e of
                          None \<Rightarrow> Panicked
                        | Some r \<Rightarrow> Done (inner', r))))))"

definition LsnCounter_new :: u64 where "LsnCounter_new = 1 - 1"

definition LsnCounter_with_floor :: "u64 \<Rightarrow> u64" where
  "LsnCounter_with_floor start = (if start = 0 then 0 else start - 1)"

definition advance_counter :: "Lsn \<Rightarrow> u64 \<Rightarrow> u64" where
  "advance_counter floor inner = max inner floor"

section \<open>Ranges\<close>

lemma allocate_range_Done:
  assumes "allocate_range inner n = Done (inner', r)"
  shows "range_predecessor r = inner" "inner < rg_base r" "rg_base r \<le> rg_end r"
    "inner' = rg_end r" "unat (rg_end r) = unat inner + max n 1" "unat (rg_base r) = unat inner + 1"
proof -
  have n: "max n 1 < 2 ^ 64" and e: "checked_add inner (word_of_nat (max n 1)) = Some (rg_end r)"
    and b: "checked_add inner 1 = Some (rg_base r)" and i: "inner' = rg_end r"
    and le: "rg_base r \<le> rg_end r"
    using assms
    by (auto simp: allocate_range_def Let_def RedoLsnRange_new_def not_le
        split: if_splits option.splits)
  have w: "unat (word_of_nat (max n 1) :: u64) = max n 1"
    using n by (simp add: unat_of_nat)
  show "unat (rg_end r) = unat inner + max n 1" using checked_add_Some [OF e] w by simp
  show ub: "unat (rg_base r) = unat inner + 1" using checked_add_Some [OF b] by simp
  show "inner < rg_base r" by (rule checked_add_less [OF b]) simp
  have "rg_base r = inner + 1" using b by (simp add: checked_add_def split: if_splits)
  then show "range_predecessor r = inner" by (simp add: range_predecessor_def)
  show "inner' = rg_end r" by (rule i)
  show "rg_base r \<le> rg_end r" by (rule le)
qed

lemma allocate_range_total:
  assumes "unat inner + max n 1 < 2 ^ 64"
  shows "\<exists>inner' r. allocate_range inner n = Done (inner', r)"
proof -
  define N where "N = max n 1"
  have N: "unat inner + N < 2 ^ 64" "1 \<le> N" "\<not> N \<ge> 2 ^ 64"
    using assms by (auto simp: N_def)
  have w: "unat (word_of_nat N :: u64) = N" using N by (simp add: unat_of_nat)
  have e: "checked_add inner (word_of_nat N) = Some (inner + word_of_nat N)"
    using N w by (simp add: checked_add_def)
  have b: "checked_add inner 1 = Some (inner + 1)"
    using N by (simp add: checked_add_def)
  have "inner + 1 \<noteq> 0" "\<not> inner + 1 > inner + word_of_nat N"
    using checked_add_Some [OF b] checked_add_Some [OF e] w N(2)
    by (auto simp: word_less_nat_alt unat_eq_0 [symmetric])
  then show ?thesis
    using N(3) e b unfolding allocate_range_def N_def [symmetric] Let_def
    by (simp add: RedoLsnRange_new_def)
qed

section \<open>The as-of contract\<close>

text \<open>The history read: the last write at or below the snapshot.\<close>

definition asof :: "(Lsn \<times> bytes option) list \<Rightarrow> Lsn \<Rightarrow> bytes option" where
  "asof h s = (case find_last (\<lambda>(l, v). l \<le> s) h of None \<Rightarrow> None | Some (l, v) \<Rightarrow> v)"

text \<open>A history: LSNs ascend strictly and stay below the \<open>MAX\<close> sentinel.\<close>

definition history_ok :: "(Lsn \<times> bytes option) list \<Rightarrow> bool" where
  "history_ok h \<longleftrightarrow> sorted_wrt (<) (map fst h) \<and> Lsn_MAX \<notin> fst ` set h"

lemma asof_snoc: "asof (h @ [(l, v)]) s = (if l \<le> s then v else asof h s)"
  by (simp add: asof_def)

lemma asof_Nil [simp]: "asof [] s = None"
  by (simp add: asof_def)

lemma history_ok_snoc:
  "history_ok (h @ [(l, v)]) \<longleftrightarrow> history_ok h \<and> (\<forall>x \<in> fst ` set h. x < l) \<and> l \<noteq> Lsn_MAX"
  by (auto simp: history_ok_def sorted_wrt_append)

text \<open>An as-of store represents a history above a floor. The laws: the empty store has the empty
  history; a push extends it; a pop of the last write undoes the push; a prune raises the floor; a read at
  or above the floor is the as-of read of the history; the newest write is known.\<close>

locale asof_store =
  fixes repr :: "Lsn \<Rightarrow> (Lsn \<times> bytes option) list \<Rightarrow> 'c \<Rightarrow> bool"
    and nil :: "'c"
    and push :: "Lsn \<Rightarrow> bytes option \<Rightarrow> 'c \<Rightarrow> 'c"
    and pop :: "Lsn \<Rightarrow> 'c \<Rightarrow> 'c"
    and prune :: "Lsn \<Rightarrow> 'c \<Rightarrow> 'c"
    and reads :: "'c \<Rightarrow> Lsn \<Rightarrow> bytes option"
    and newest :: "'c \<Rightarrow> Lsn option"
  assumes repr_history: "repr f h c \<Longrightarrow> history_ok h"
    and repr_nil: "f \<noteq> Lsn_MAX \<Longrightarrow> repr f [] nil"
    and repr_push: "repr f h c \<Longrightarrow> history_ok (h @ [(l, v)]) \<Longrightarrow> repr f (h @ [(l, v)]) (push l v c)"
    and repr_pop: "repr f (h @ [(l, v)]) c \<Longrightarrow> f < l \<Longrightarrow> repr f h (pop l c)"
    and repr_prune: "repr f h c \<Longrightarrow> f \<le> a \<Longrightarrow> a \<noteq> Lsn_MAX \<Longrightarrow> repr a h (prune a c)"
    and repr_reads: "repr f h c \<Longrightarrow> f \<le> s \<Longrightarrow> s \<noteq> Lsn_MAX \<Longrightarrow> reads c s = asof h s"
    and repr_newest: "repr f (h @ [(l, v)]) c \<Longrightarrow> newest c = Some l"
begin

text \<open>A write above a snapshot is invisible to it, whether it stays or is taken back.\<close>

lemma reads_push_above:
  assumes "repr f h c" "history_ok (h @ [(l, v)])" "f \<le> s" "s < l"
  shows "reads (push l v c) s = reads c s"
proof -
  have "s \<noteq> Lsn_MAX" "\<not> l \<le> s" using assms(4) by (auto simp: not_le)
  then show ?thesis
    using repr_reads [OF repr_push [OF assms(1,2)] assms(3)] repr_reads [OF assms(1,3)]
    by (simp add: asof_snoc)
qed

lemma reads_pop:
  assumes "repr f (h @ [(l, v)]) c" "f \<le> s" "s < l"
  shows "reads (pop l c) s = reads c s"
proof -
  have "s \<noteq> Lsn_MAX" "f < l" "\<not> l \<le> s" using assms(2,3) by (auto simp: not_le)
  then show ?thesis
    using repr_reads [OF repr_pop [OF assms(1)] assms(2)] repr_reads [OF assms(1,2)]
    by (simp add: asof_snoc)
qed

lemma pop_push_unseen:
  assumes "repr f h c" "history_ok (h @ [(l, v)])" "f < l"
  shows "repr f h (pop l (push l v c))"
  using repr_pop [OF repr_push [OF assms(1,2)] assms(3)] .

lemma reads_prune:
  assumes "repr f h c" "f \<le> a" "a \<le> s" "s \<noteq> Lsn_MAX"
  shows "reads (prune a c) s = reads c s"
proof -
  have "a \<noteq> Lsn_MAX" using assms(3,4) by auto
  then show ?thesis
    using repr_reads [OF repr_prune [OF assms(1,2)] assms(3,4)] repr_reads [OF assms(1) _ assms(4)]
      assms(2,3) by (simp add: order_trans)
qed

lemma read_newest:
  assumes "repr f (h @ [(l, v)]) c" "f \<le> s" "l \<le> s" "s \<noteq> Lsn_MAX"
  shows "reads c s = v"
  using repr_reads [OF assms(1,2,4)] assms(3) by (simp add: asof_snoc)

end

section \<open>Chains are as-of stores\<close>

text \<open>The chain that a history builds by pushes alone, and what a chain represents above a floor: all
  but a prefix of it, the dropped versions having expired at or below the floor.\<close>

definition chain_of :: "(Lsn \<times> bytes option) list \<Rightarrow> VersionChain" where
  "chain_of h = foldl (\<lambda>ch (l, v). push_version l v ch) [] h"

definition chain_repr :: "Lsn \<Rightarrow> (Lsn \<times> bytes option) list \<Rightarrow> VersionChain \<Rightarrow> bool" where
  "chain_repr f h ch \<longleftrightarrow> history_ok h \<and> f \<noteq> Lsn_MAX \<and>
     (\<exists>k. ch = drop k (chain_of h) \<and> (\<forall>v \<in> set (take k (chain_of h)). v_expired_lsn v \<le> f))"

definition chain_newest :: "VersionChain \<Rightarrow> Lsn option" where
  "chain_newest ch = (if ch = [] then None else Some (v_created_lsn (last ch)))"

lemma chain_of_Nil [simp]: "chain_of [] = []"
  by (simp add: chain_of_def)

lemma chain_of_snoc: "chain_of (h @ [(l, v)]) = push_version l v (chain_of h)"
  by (simp add: chain_of_def)

lemma length_expire_last [simp]: "length (expire_last c ch) = length ch"
  by (simp add: expire_last_def)

lemma length_push [simp]: "length (push_version c v ch) = Suc (length ch)"
  by (simp add: push_version_def)

lemma length_chain_of [simp]: "length (chain_of h) = length h"
  by (induction h rule: rev_induct) (auto simp: chain_of_snoc)

lemma push_not_Nil [simp]: "push_version c v ch \<noteq> []"
  by (simp add: push_version_def)

lemma last_push: "last (push_version c v ch) =
    \<lparr> v_created_lsn = c, v_expired_lsn = Lsn_MAX, v_bytes = v \<rparr>"
  by (simp add: push_version_def)

lemma last_chain_of_live: "h \<noteq> [] \<Longrightarrow> is_live (last (chain_of h))"
  by (cases h rule: rev_cases) (auto simp: chain_of_snoc last_push is_live_def)

lemma expire_last_live:
  "ch \<noteq> [] \<Longrightarrow> is_live (last ch) \<Longrightarrow>
     expire_last c ch = butlast ch @ [(last ch)\<lparr>v_expired_lsn := c\<rparr>]"
  by (simp add: expire_last_def)

text \<open>Expiry of the chain is the history's LSNs shifted by one.\<close>

lemma expired_chain_of:
  "map v_expired_lsn (chain_of h) = (if h = [] then [] else tl (map fst h) @ [Lsn_MAX])"
proof (induction h rule: rev_induct)
  case Nil
  then show ?case by simp
next
  case (snoc x h)
  obtain l v where x: "x = (l, v)" by fastforce
  show ?case
  proof (cases "h = []")
    case True
    then show ?thesis by (simp add: x chain_of_snoc push_version_def expire_last_def chain_of_def)
  next
    case False
    then have ne: "chain_of h \<noteq> []" by (metis length_chain_of length_0_conv)
    have "map v_expired_lsn (butlast (chain_of h)) = tl (map fst h)"
      using snoc.IH False by (simp add: map_butlast)
    then show ?thesis
      using False ne last_chain_of_live [OF False]
      by (simp add: x chain_of_snoc push_version_def expire_last_live)
  qed
qed

lemma sorted_expired:
  assumes "history_ok h"
  shows "sorted_wrt (<) (map v_expired_lsn (chain_of h))"
proof (cases h)
  case Nil
  then show ?thesis by simp
next
  case (Cons x xs)
  then have "\<forall>l \<in> fst ` set xs. l < Lsn_MAX" "sorted_wrt (<) (map fst xs)"
    using assms by (auto simp: history_ok_def Lsn_less_MAX image_iff)
  then show ?thesis
    by (simp add: expired_chain_of Cons sorted_wrt_append)
qed

text \<open>Reading.\<close>

lemma find_last_append:
  "find_last P (xs @ ys) = (case find_last P ys of None \<Rightarrow> find_last P xs | Some y \<Rightarrow> Some y)"
  by (induction ys rule: rev_induct) (auto simp flip: append_assoc)

lemma read_append:
  "(\<forall>v \<in> set xs. \<not> visible_to v s) \<Longrightarrow> read_chain (xs @ ys) s = read_chain ys s"
  by (auto simp: read_chain_def find_last_append find_last_None_iff [THEN iffD2] split: option.splits)

lemma read_expire:
  assumes "s < l" "s \<noteq> Lsn_MAX"
  shows "read_chain (expire_last l ch) s = read_chain ch s"
proof (cases "ch \<noteq> [] \<and> is_live (last ch)")
  case False
  then show ?thesis by (simp only: expire_last_def if_False)
next
  case True
  then obtain xs x where ch: "ch = xs @ [x]" by (metis rev_exhaust)
  have "visible_to (x\<lparr>v_expired_lsn := l\<rparr>) s = visible_to x s"
    using True assms by (auto simp: ch visible_to_def is_live_def Lsn_less_MAX)
  with True show ?thesis by (simp add: ch expire_last_def read_chain_def)
qed

lemma read_push:
  assumes "s \<noteq> Lsn_MAX"
  shows "read_chain (push_version l v ch) s = (if l \<le> s then v else read_chain ch s)"
proof (cases "l \<le> s")
  case True
  then show ?thesis
    using assms by (simp add: push_version_def read_chain_def visible_to_def Lsn_less_MAX)
next
  case False
  then have "read_chain (push_version l v ch) s = read_chain (expire_last l ch) s"
    by (simp add: push_version_def read_chain_def visible_to_def)
  also have "\<dots> = read_chain ch s" using False assms by (intro read_expire) (simp_all add: not_le)
  finally show ?thesis by (simp only: if_not_P [OF False])
qed

lemma read_chain_of: "s \<noteq> Lsn_MAX \<Longrightarrow> read_chain (chain_of h) s = asof h s"
proof (induction h rule: rev_induct)
  case Nil
  then show ?case by (simp add: read_chain_def)
next
  case (snoc x h)
  obtain l v where "x = (l, v)" by fastforce
  with snoc show ?case by (simp add: chain_of_snoc read_push asof_snoc)
qed

lemma read_repr:
  assumes "chain_repr f h ch" "f \<le> s" "s \<noteq> Lsn_MAX"
  shows "read_chain ch s = asof h s"
proof -
  obtain k where k: "ch = drop k (chain_of h)" "\<forall>v \<in> set (take k (chain_of h)). v_expired_lsn v \<le> f"
    using assms(1) by (auto simp: chain_repr_def)
  have "\<forall>v \<in> set (take k (chain_of h)). \<not> visible_to v s"
    using k(2) assms(2) by (auto simp: visible_to_def not_less intro: order_trans)
  then have "read_chain (chain_of h) s = read_chain ch s"
    using read_append [of "take k (chain_of h)" s "drop k (chain_of h)"] k(1) by simp
  with assms(3) show ?thesis by (simp add: read_chain_of)
qed

text \<open>Pruning drops a prefix, because expiry ascends.\<close>

lemma filter_above:
  fixes f :: "'x \<Rightarrow> 'y::linorder"
  shows "sorted_wrt (<) (map f xs) \<Longrightarrow> filter (\<lambda>x. a < f x) xs = dropWhile (\<lambda>x. f x \<le> a) xs"
proof (induction xs)
  case Nil
  then show ?case by simp
next
  case (Cons x xs)
  show ?case
  proof (cases "f x \<le> a")
    case True
    with Cons show ?thesis by (simp add: not_less)
  next
    case False
    then have "\<forall>y \<in> set xs. a < f y" using Cons.prems by (auto simp: not_le)
    with False show ?thesis by (simp add: not_le)
  qed
qed

lemma gc_repr:
  assumes r: "chain_repr f h ch" and "f \<le> a" "a \<noteq> Lsn_MAX"
  shows "chain_repr a h (gc_chain a ch)"
proof -
  obtain k where k: "ch = drop k (chain_of h)" "\<forall>v \<in> set (take k (chain_of h)). v_expired_lsn v \<le> f"
    and h: "history_ok h"
    using r by (auto simp: chain_repr_def)
  have sorted: "sorted_wrt (<) (map v_expired_lsn ch)"
    using sorted_wrt_drop [OF sorted_expired [OF h], of k] by (simp add: k(1) drop_map)
  define j where "j = length (takeWhile (\<lambda>v. v_expired_lsn v \<le> a) ch)"
  have "gc_chain a ch = drop j ch"
    by (simp add: gc_chain_def filter_above [OF sorted] dropWhile_eq_drop j_def)
  then have g: "gc_chain a ch = drop (k + j) (chain_of h)" by (simp add: k(1) add.commute)
  have "\<forall>v \<in> set (take j ch). v_expired_lsn v \<le> a"
    by (auto simp: j_def takeWhile_eq_take [symmetric] dest: set_takeWhileD)
  then have "\<forall>v \<in> set (take (k + j) (chain_of h)). v_expired_lsn v \<le> a"
    using k assms(2) by (auto simp: take_add intro: order_trans)
  with g h assms(3) show ?thesis unfolding chain_repr_def by blast
qed

text \<open>A push on a represented chain, and its rollback.\<close>

lemma push_drop:
  assumes "k < length ch \<or> ch = []"
  shows "drop k (push_version l v ch) = push_version l v (drop k ch) \<or> k > 0 \<and> ch = []"
proof (cases "ch = []")
  case True
  then show ?thesis by (cases k) simp_all
next
  case False
  with assms have k: "k < length ch" by simp
  then have "drop k ch \<noteq> []" "last (drop k ch) = last ch" by simp_all
  then have "expire_last l (drop k ch) = drop k (expire_last l ch)"
    using k by (auto simp: expire_last_def butlast_drop)
  with k show ?thesis by (simp add: push_version_def)
qed

lemma drop_repr_bound:
  assumes "\<forall>v \<in> set (take k (chain_of h)). v_expired_lsn v \<le> f" "f \<noteq> Lsn_MAX" "h \<noteq> []"
  shows "k < length h"
proof (rule ccontr)
  assume "\<not> k < length h"
  then have "last (chain_of h) \<in> set (take k (chain_of h))"
    using assms(3) by (metis last_in_set length_0_conv length_chain_of not_less take_all)
  with assms(1,2) last_chain_of_live [OF assms(3)] show False
    by (auto simp: is_live_def)
qed

lemma take_push:
  assumes "k < length ch"
  shows "\<forall>v \<in> set (take k (push_version l x ch)). v \<in> set (take k ch)"
proof -
  have "take k (push_version l x ch) = take k (expire_last l ch)"
    using assms by (simp add: push_version_def)
  also have "\<dots> = take k ch"
    using assms by (auto simp: expire_last_def take_butlast)
  finally show ?thesis by simp
qed

lemma push_repr:
  assumes r: "chain_repr f h ch" and hl: "history_ok (h @ [(l, v)])"
  shows "chain_repr f (h @ [(l, v)]) (push_version l v ch)"
proof -
  obtain k where k: "ch = drop k (chain_of h)" "\<forall>v \<in> set (take k (chain_of h)). v_expired_lsn v \<le> f"
    and f: "f \<noteq> Lsn_MAX"
    using r by (auto simp: chain_repr_def)
  show ?thesis
  proof (cases "h = []")
    case True
    then have "push_version l v ch = drop 0 (chain_of (h @ [(l, v)]))"
      using k(1) chain_of_snoc [of "[]"] by simp
    with hl f show ?thesis unfolding chain_repr_def by (metis empty_iff list.set(1) take_0)
  next
    case False
    have kl: "k < length (chain_of h)" using drop_repr_bound [OF k(2) f False] by simp
    then have ne: "chain_of h \<noteq> []" by (metis list.size(3) not_less_zero)
    have "push_version l v ch = drop k (chain_of (h @ [(l, v)]))"
      using push_drop [of k "chain_of h" l v] kl ne k(1) by (simp add: chain_of_snoc)
    moreover have "\<forall>x \<in> set (take k (chain_of (h @ [(l, v)]))). v_expired_lsn x \<le> f"
      using take_push [OF kl, of l v] k(2) by (auto simp: chain_of_snoc)
    ultimately show ?thesis using hl f unfolding chain_repr_def by blast
  qed
qed

lemma rollback_push:
  assumes "ch = [] \<or> is_live (last ch)"
  shows "rollback_chain l (push_version l v ch) = ch"
proof (cases ch rule: rev_cases)
  case Nil
  then show ?thesis by (simp add: rollback_chain_def push_version_def expire_last_def)
next
  case (snoc xs x)
  with assms have live: "v_expired_lsn x = Lsn_MAX" by (simp add: is_live_def)
  then have "x\<lparr>v_expired_lsn := Lsn_MAX\<rparr> = x" by simp
  with live show ?thesis
    by (simp add: snoc rollback_chain_def push_version_def expire_last_def is_live_def butlast_append)
qed

lemma rollback_repr:
  assumes r: "chain_repr f (h @ [(l, v)]) ch" and fl: "f < l"
  shows "chain_repr f h (rollback_chain l ch)"
proof -
  obtain k where k: "ch = drop k (push_version l v (chain_of h))"
    "\<forall>x \<in> set (take k (push_version l v (chain_of h))). v_expired_lsn x \<le> f"
    and f: "f \<noteq> Lsn_MAX" and hl: "history_ok (h @ [(l, v)])"
    using r by (auto simp: chain_repr_def chain_of_snoc)
  have h: "history_ok h" using hl by (simp add: history_ok_snoc)
  have kb: "k < Suc (length h)"
    using drop_repr_bound [of k "h @ [(l, v)]" f] k(2) f by (simp add: chain_of_snoc)
  show ?thesis
  proof (cases "h = []")
    case True
    with kb k(1) have "ch = push_version l v []" by simp
    then show ?thesis
      using True f h rollback_push [of "[]" l v] by (simp add: chain_repr_def)
  next
    case False
    have ne: "chain_of h \<noteq> []" using False by (metis length_chain_of length_0_conv)
    have "k \<noteq> length h"
    proof
      assume kl: "k = length h"
      have "take k (push_version l v (chain_of h)) = expire_last l (chain_of h)"
        by (simp add: push_version_def kl)
      moreover have "(last (chain_of h))\<lparr>v_expired_lsn := l\<rparr> \<in> set (expire_last l (chain_of h))"
        using ne last_chain_of_live [OF False] by (simp add: expire_last_def)
      ultimately have "l \<le> f" using k(2) by fastforce
      with fl show False by simp
    qed
    with kb have kl: "k < length (chain_of h)" by simp
    have ch: "ch = push_version l v (drop k (chain_of h))"
      using push_drop [of k "chain_of h" l v] kl ne k(1) by simp
    have "rollback_chain l ch = drop k (chain_of h)"
      unfolding ch by (rule rollback_push) (use kl last_chain_of_live [OF False] in simp)
    moreover have "take k (push_version l v (chain_of h)) = take k (chain_of h)"
      using kl by (simp add: push_version_def) (auto simp: expire_last_def take_butlast)
    ultimately show ?thesis using k(2) h f unfolding chain_repr_def by auto
  qed
qed

lemma newest_repr: "chain_repr f (h @ [(l, v)]) ch \<Longrightarrow> chain_newest ch = Some l"
proof -
  assume r: "chain_repr f (h @ [(l, v)]) ch"
  then obtain k where k: "ch = drop k (chain_of (h @ [(l, v)]))" "f \<noteq> Lsn_MAX"
    "\<forall>x \<in> set (take k (chain_of (h @ [(l, v)]))). v_expired_lsn x \<le> f"
    by (auto simp: chain_repr_def)
  have "k < length (chain_of (h @ [(l, v)]))"
    using drop_repr_bound [of k "h @ [(l, v)]" f] k by simp
  then show ?thesis by (simp add: k(1) chain_newest_def chain_of_snoc last_push)
qed

interpretation chain: asof_store chain_repr "[]" push_version rollback_chain gc_chain read_chain
  chain_newest
proof
  show "chain_repr f h c \<Longrightarrow> history_ok h" for f h c by (simp add: chain_repr_def)
  show "f \<noteq> Lsn_MAX \<Longrightarrow> chain_repr f [] []" for f by (simp add: chain_repr_def history_ok_def)
qed (simp_all add: push_repr rollback_repr gc_repr read_repr newest_repr)

end
