(* ===== verification/Txn_Manager.thy ===== *)
theory Txn_Manager
  imports Mvcc_Chain "HOL-Library.AList"
begin

text \<open>
  The transaction manager of \<open>arcgraph-storage/src/transaction.rs\<close>: its state and every operation that
  changes it. Concurrent maps become: the version store a map from (tenant, key) to chains, the table of
  active transactions and the per-tenant key index association lists. A commit is split
  at its waiting points into Phase 1 (validate, allocate, install silently), Phase 2 (the WAL
  append, whose outcome is an argument) and Phase 3 (publish or roll back), because those are the
  points where commits interleave; \<open>commit_with_bundle_writes\<close> composes them. The page image
  format is modelled; the delta format differs in when the builder runs and in restamping values, which
  is not modelled. Locks and condition variables appear as the guard \<open>install_turn\<close>. Transaction
  ids and generation counts are natural numbers (64 bit counters in the source); diagnostic GC
  counters are left out, except the number of driven passes.
\<close>

type_synonym VersionKey = "TenantId \<times> MvccKey"
type_synonym writes = "(MvccKey \<times> bytes option) list"

record SideChannelWrite =
  sc_tenant_id :: TenantId
  sc_key :: MvccKey
  sc_bytes :: "bytes option"

record TxnManager =
  tm_counter :: u64
  tm_visible :: Lsn
  tm_versions :: "VersionKey \<rightharpoonup> VersionChain"
  tm_tenant_chain_keys :: "(TenantId \<times> MvccKey list) list"
  tm_active :: "(nat \<times> Lsn) list"
  tm_next_txn_id :: nat
  tm_begin_generation :: nat
  tm_install_order :: Lsn
  tm_commits_since_gc :: nat
  tm_gc_drive_interval :: nat
  tm_driven_gc_passes :: nat

definition TxnManager_new :: TxnManager where
  "TxnManager_new =
     \<lparr> tm_counter = LsnCounter_new, tm_visible = Lsn_ZERO, tm_versions = Map.empty,
       tm_tenant_chain_keys = [], tm_active = [], tm_next_txn_id = 1, tm_begin_generation = 0,
       tm_install_order = Lsn_ZERO, tm_commits_since_gc = 0, tm_gc_drive_interval = 0,
       tm_driven_gc_passes = 0 \<rparr>"

definition with_gc_drive_interval :: "nat \<Rightarrow> TxnManager \<Rightarrow> TxnManager" where
  "with_gc_drive_interval interval m = m\<lparr>tm_gc_drive_interval := interval\<rparr>"

section \<open>Begin and the GC anchor\<close>

text \<open>The four memory effects of \<open>begin_inner\<close> after the id is drawn, and their composition.\<close>

definition begin_bump :: "TxnManager \<Rightarrow> TxnManager" where
  "begin_bump m = m\<lparr>tm_begin_generation := tm_begin_generation m + 1\<rparr>"

definition begin_sentinel :: "nat \<Rightarrow> TxnManager \<Rightarrow> TxnManager" where
  "begin_sentinel txn_id m = m\<lparr>tm_active := AList.update txn_id Lsn_MAX (tm_active m)\<rparr>"

definition begin_publish :: "nat \<Rightarrow> Lsn \<Rightarrow> TxnManager \<Rightarrow> TxnManager" where
  "begin_publish txn_id snapshot m = m\<lparr>tm_active := AList.update txn_id snapshot (tm_active m)\<rparr>"

definition begin_inner :: "TxnManager \<Rightarrow> TxnManager \<times> nat \<times> Lsn" where
  "begin_inner m =
     (let txn_id = tm_next_txn_id m;
          m = m\<lparr>tm_next_txn_id := txn_id + 1\<rparr>;
          m = begin_bump m;
          m = begin_sentinel txn_id m;
          snapshot = tm_visible m;
          m = begin_publish txn_id snapshot m
      in (m, txn_id, snapshot))"

text \<open>The scan of \<open>oldest_active_snapshot\<close> over the active table: the floor of the concrete snapshots
  and whether a pending sentinel was seen; then the decision from the two generation reads.\<close>

fun active_scan :: "(nat \<times> Lsn) list \<Rightarrow> Lsn option \<Rightarrow> bool \<Rightarrow> Lsn option \<times> bool" where
  "active_scan [] floor any_pending = (floor, any_pending)"
| "active_scan ((_, s) # es) floor any_pending =
     (if s = Lsn_MAX then active_scan es floor True
      else active_scan es (Some (case floor of None \<Rightarrow> s | Some f \<Rightarrow> min f s)) any_pending)"

definition anchor_of :: "nat \<Rightarrow> Lsn option \<times> bool \<Rightarrow> nat \<Rightarrow> Lsn \<Rightarrow> Lsn" where
  "anchor_of gen_before scan gen_after visible =
     (if gen_before \<noteq> gen_after then Lsn_ZERO
      else if snd scan then Lsn_ZERO
      else case fst scan of Some f \<Rightarrow> f | None \<Rightarrow> visible)"

definition oldest_active_snapshot :: "TxnManager \<Rightarrow> Lsn" where
  "oldest_active_snapshot m =
     anchor_of (tm_begin_generation m) (active_scan (tm_active m) None False)
       (tm_begin_generation m) (tm_visible m)"

section \<open>Reclaim\<close>

definition gc_sweep :: "Lsn \<Rightarrow> TxnManager \<Rightarrow> TxnManager" where
  "gc_sweep anchor m =
     m\<lparr>tm_versions := (\<lambda>vk. case tm_versions m vk of
          None \<Rightarrow> None
        | Some chain \<Rightarrow> let chain' = gc_chain anchor chain in
                       if chain' = [] then None else Some chain')\<rparr>"

definition gc :: "TxnManager \<Rightarrow> TxnManager" where
  "gc m = gc_sweep (oldest_active_snapshot m) m"

definition maybe_drive_gc :: "TxnManager \<Rightarrow> TxnManager" where
  "maybe_drive_gc m =
     (if tm_gc_drive_interval m = 0 then m
      else
        let n = tm_commits_since_gc m + 1 in
        if n < tm_gc_drive_interval m then m\<lparr>tm_commits_since_gc := n\<rparr>
        else
          let m = gc (m\<lparr>tm_commits_since_gc := 0\<rparr>) in
          m\<lparr>tm_driven_gc_passes := tm_driven_gc_passes m + 1\<rparr>)"

section \<open>Reads\<close>

definition read_at :: "TxnManager \<Rightarrow> TenantId \<Rightarrow> MvccKey \<Rightarrow> Lsn \<Rightarrow> bytes option" where
  "read_at m tenant key snapshot =
     (case tm_versions m (tenant, key) of
        None \<Rightarrow> None
      | Some chain \<Rightarrow> read_chain chain snapshot)"

text \<open>\<open>for_each_visible_record\<close>: the calls of the callback, in the order of the key index.\<close>

definition for_each_visible_record :: "TxnManager \<Rightarrow> TenantId \<Rightarrow> Lsn \<Rightarrow> (MvccKey \<times> bytes) list" where
  "for_each_visible_record m tenant snapshot =
     (case map_of (tm_tenant_chain_keys m) tenant of
        None \<Rightarrow> []
      | Some keys \<Rightarrow>
          List.map_filter (\<lambda>key. map_option (Pair key) (read_at m tenant key snapshot)) keys)"

definition register_chain_key :: "TenantId \<Rightarrow> MvccKey \<Rightarrow> TxnManager \<Rightarrow> TxnManager" where
  "register_chain_key tenant key m =
     m\<lparr>tm_tenant_chain_keys :=
        AList.update tenant
          (List.insert key (case map_of (tm_tenant_chain_keys m) tenant of None \<Rightarrow> [] | Some ks \<Rightarrow> ks))
          (tm_tenant_chain_keys m)\<rparr>"

section \<open>Commit\<close>

definition chain_at :: "TxnManager \<Rightarrow> VersionKey \<Rightarrow> VersionChain" where
  "chain_at m vk = (case tm_versions m vk of None \<Rightarrow> [] | Some chain \<Rightarrow> chain)"

definition key_conflicts :: "TxnManager \<Rightarrow> TenantId \<Rightarrow> Lsn \<Rightarrow> MvccKey \<Rightarrow> bool" where
  "key_conflicts m tenant snapshot key =
     (case tm_versions m (tenant, key) of
        None \<Rightarrow> False
      | Some chain \<Rightarrow> chain \<noteq> [] \<and> v_created_lsn (last chain) > snapshot)"

definition occ_conflict :: "TxnManager \<Rightarrow> TenantId \<Rightarrow> Lsn \<Rightarrow> writes \<Rightarrow> bool" where
  "occ_conflict m tenant snapshot ws = list_ex (\<lambda>(key, _). key_conflicts m tenant snapshot key) ws"

definition install_write :: "Lsn \<Rightarrow> TenantId \<Rightarrow> MvccKey \<Rightarrow> bytes option \<Rightarrow> TxnManager \<Rightarrow> TxnManager" where
  "install_write commit_lsn tenant key val m =
     register_chain_key tenant key
       (m\<lparr>tm_versions := (tm_versions m)((tenant, key) \<mapsto>
            push_version commit_lsn val (chain_at m (tenant, key)))\<rparr>)"

definition install_writes :: "Lsn \<Rightarrow> TenantId \<Rightarrow> writes \<Rightarrow> TxnManager \<Rightarrow> TxnManager" where
  "install_writes commit_lsn tenant ws m =
     fold (\<lambda>(key, val). install_write commit_lsn tenant key val) ws m"

text \<open>\<open>apply_sidechannel_mvcc_write\<close>; its debug assertion is the predicate below.\<close>

definition sidechannel_ordered :: "Lsn \<Rightarrow> SideChannelWrite \<Rightarrow> TxnManager \<Rightarrow> bool" where
  "sidechannel_ordered commit_lsn sc m \<longleftrightarrow>
     (case chain_newest (chain_at m (sc_tenant_id sc, sc_key sc)) of
        None \<Rightarrow> True | Some l \<Rightarrow> l < commit_lsn)"

definition apply_sidechannel_mvcc_write :: "Lsn \<Rightarrow> SideChannelWrite \<Rightarrow> TxnManager \<Rightarrow> TxnManager" where
  "apply_sidechannel_mvcc_write commit_lsn sc m =
     install_write commit_lsn (sc_tenant_id sc) (sc_key sc) (sc_bytes sc) m"

definition install_turn :: "TxnManager \<Rightarrow> RedoLsnRange \<Rightarrow> bool" where
  "install_turn m commit_range \<longleftrightarrow> \<not> tm_install_order m < range_predecessor commit_range"

definition advance_install_order :: "Lsn \<Rightarrow> TxnManager \<Rightarrow> TxnManager" where
  "advance_install_order to m =
     (if tm_install_order m < to then m\<lparr>tm_install_order := to\<rparr> else m)"

definition rollback_write :: "Lsn \<Rightarrow> TenantId \<Rightarrow> MvccKey \<Rightarrow> TxnManager \<Rightarrow> TxnManager" where
  "rollback_write commit_lsn tenant key m =
     (case tm_versions m (tenant, key) of
        None \<Rightarrow> m
      | Some chain \<Rightarrow>
          m\<lparr>tm_versions := (tm_versions m)((tenant, key) \<mapsto> rollback_chain commit_lsn chain)\<rparr>)"

definition rollback_writes :: "TenantId \<Rightarrow> Lsn \<Rightarrow> writes \<Rightarrow> TxnManager \<Rightarrow> TxnManager" where
  "rollback_writes tenant commit_lsn ws m =
     fold (\<lambda>(key, _). rollback_write commit_lsn tenant key) ws m"

definition abort_txn :: "nat \<Rightarrow> TxnManager \<Rightarrow> TxnManager" where
  "abort_txn txn_id m = m\<lparr>tm_active := AList.delete txn_id (tm_active m)\<rparr>"

text \<open>Phase 1. \<open>op_count\<close> is 1 for page images and the number of delta intents for deltas.\<close>

definition commit_phase1 ::
  "TxnManager \<Rightarrow> nat \<Rightarrow> TenantId \<Rightarrow> Lsn \<Rightarrow> writes \<Rightarrow> (TxnManager \<times> (ArcGraphError + RedoLsnRange)) run"
  where
  "commit_phase1 m op_count tenant snapshot ws =
     (if occ_conflict m tenant snapshot ws then Done (m, Inl (MvccConflict ''key''))
      else bind_run (allocate_range (tm_counter m) op_count) (\<lambda>(counter, commit_range).
        Done (install_writes (range_commit_lsn commit_range) tenant ws (m\<lparr>tm_counter := counter\<rparr>),
              Inr commit_range)))"

definition commit_publish ::
  "nat \<Rightarrow> RedoLsnRange \<Rightarrow> SideChannelWrite list \<Rightarrow> TxnManager \<Rightarrow> TxnManager" where
  "commit_publish txn_id commit_range side m =
     (let commit_lsn = range_commit_lsn commit_range;
          m = fold (apply_sidechannel_mvcc_write commit_lsn) side m;
          m = m\<lparr>tm_visible := commit_lsn\<rparr>;
          m = advance_install_order commit_lsn m;
          m = abort_txn txn_id m
      in maybe_drive_gc m)"

definition commit_undo ::
  "nat \<Rightarrow> TenantId \<Rightarrow> RedoLsnRange \<Rightarrow> writes \<Rightarrow> TxnManager \<Rightarrow> TxnManager" where
  "commit_undo txn_id tenant commit_range ws m =
     (let commit_lsn = range_commit_lsn commit_range;
          m = rollback_writes tenant commit_lsn ws m;
          m = advance_install_order commit_lsn m
      in abort_txn txn_id m)"

text \<open>The whole commit, run without interference. \<open>None\<close> is a commit that waits for its install turn
  forever. \<open>builder\<close> is the caller's closure, \<open>wal_err\<close> what the WAL append returned, \<open>extra_work\<close>
  whether ACL grants are staged. The side-channel list is taken as already coalesced.\<close>

definition commit_with_bundle_writes ::
  "TxnManager \<Rightarrow> nat \<Rightarrow> TenantId \<Rightarrow> Lsn \<Rightarrow> writes \<Rightarrow> SideChannelWrite list \<Rightarrow> bool \<Rightarrow>
   (Lsn \<Rightarrow> SideChannelWrite list \<Rightarrow> ArcGraphError + SideChannelWrite list) \<Rightarrow>
   ArcGraphError option \<Rightarrow> (TxnManager \<times> (ArcGraphError + Lsn)) run option" where
  "commit_with_bundle_writes m txn_id tenant snapshot ws side extra_work builder wal_err =
     (if ws = [] \<and> side = [] \<and> \<not> extra_work
      then Some (Done (abort_txn txn_id m, Inr (tm_visible m)))
      else case commit_phase1 m 1 tenant snapshot ws of
        Panicked \<Rightarrow> Some Panicked
      | Done (m, Inl e) \<Rightarrow> Some (Done (m, Inl e))
      | Done (m, Inr commit_range) \<Rightarrow>
          if \<not> install_turn m commit_range then None
          else (case builder (range_commit_lsn commit_range) side of
             Inl e \<Rightarrow> Some (Done (commit_undo txn_id tenant commit_range ws m, Inl e))
           | Inr side' \<Rightarrow>
               (case wal_err of
                  None \<Rightarrow> Some (Done (commit_publish txn_id commit_range side' m,
                                     Inr (range_commit_lsn commit_range)))
                | Some e \<Rightarrow> Some (Done (commit_undo txn_id tenant commit_range ws m,
                                     Inl (WalErrorRolledBack e))))))"

text \<open>\<open>commit_index_pages_atomic\<close> up to its waiting point: the range it allocates, and either the early
  error for a side-channel write of another tenant or the range to publish.\<close>

definition index_pages_start ::
  "TxnManager \<Rightarrow> bool \<Rightarrow> SideChannelWrite list \<Rightarrow>
     (TxnManager \<times> (ArcGraphError + RedoLsnRange option)) run" where
  "index_pages_start m staged_empty side =
     (if staged_empty \<and> side = [] then Done (m, Inr None)
      else bind_run (allocate_range (tm_counter m) 1) (\<lambda>(counter, commit_range).
        if list_ex (\<lambda>sc. sc_tenant_id sc \<noteq> TenantId_SYSTEM) side
        then Done (m\<lparr>tm_counter := counter\<rparr>,
                   Inl (TransactionAborted
                     ''commit_index_pages_atomic: standalone index sidechannel writes must be SYSTEM-tenant''))
        else Done (m\<lparr>tm_counter := counter\<rparr>, Inr (Some commit_range))))"

definition index_pages_finish ::
  "RedoLsnRange \<Rightarrow> SideChannelWrite list \<Rightarrow> ArcGraphError option \<Rightarrow> TxnManager \<Rightarrow>
     TxnManager \<times> (ArcGraphError + unit)" where
  "index_pages_finish commit_range side wal_err m =
     (let commit_lsn = range_commit_lsn commit_range in
      case wal_err of
        None \<Rightarrow>
          let m = fold (apply_sidechannel_mvcc_write commit_lsn) side m;
              m = m\<lparr>tm_visible := commit_lsn\<rparr>
          in (advance_install_order commit_lsn m, Inr ())
      | Some e \<Rightarrow> (advance_install_order commit_lsn m, Inl e))"

section \<open>Replay\<close>

datatype ReplayApplyOutcome = Applied | Idempotent | OutOfOrder

definition apply_replay_mvcc_write_inner ::
  "Lsn \<Rightarrow> TenantId \<Rightarrow> MvccKey \<Rightarrow> bytes option \<Rightarrow> bool \<Rightarrow> TxnManager \<Rightarrow>
     TxnManager \<times> ReplayApplyOutcome" where
  "apply_replay_mvcc_write_inner commit_lsn tenant key val may_cover m =
     (let chain = chain_at m (tenant, key);
          m0 = m\<lparr>tm_versions := (tm_versions m)((tenant, key) \<mapsto> chain)\<rparr> in
      if chain \<noteq> [] \<and> v_created_lsn (last chain) = commit_lsn then (m0, Idempotent)
      else if chain \<noteq> [] \<and> v_created_lsn (last chain) > commit_lsn then
        (m0, if may_cover then Idempotent else OutOfOrder)
      else (install_write commit_lsn tenant key val m, Applied))"

definition apply_replay_mvcc_write ::
  "Lsn \<Rightarrow> TenantId \<Rightarrow> MvccKey \<Rightarrow> bytes option \<Rightarrow> TxnManager \<Rightarrow> TxnManager \<times> ReplayApplyOutcome" where
  "apply_replay_mvcc_write commit_lsn tenant key val m =
     apply_replay_mvcc_write_inner commit_lsn tenant key val False m"

definition seed_after_replay :: "Lsn \<Rightarrow> TxnManager \<Rightarrow> TxnManager" where
  "seed_after_replay max_commit_lsn m =
     (if max_commit_lsn = Lsn_ZERO then m
      else advance_install_order max_commit_lsn
        (m\<lparr>tm_counter := advance_counter max_commit_lsn (tm_counter m),
           tm_visible := max (tm_visible m) max_commit_lsn\<rparr>))"

section \<open>Transaction handles\<close>

datatype TxnState = Active | Committed | Aborted

record Transaction =
  tx_txn_id :: nat
  tx_tenant_id :: TenantId
  tx_snapshot :: Lsn
  tx_writes :: writes
  tx_sidechannel_writes :: "SideChannelWrite list"
  tx_state :: TxnState

definition TxnManager_begin :: "TenantId \<Rightarrow> TxnManager \<Rightarrow> TxnManager \<times> Transaction" where
  "TxnManager_begin tenant m =
     (case begin_inner m of (m', txn_id, snapshot) \<Rightarrow>
        (m', \<lparr> tx_txn_id = txn_id, tx_tenant_id = tenant, tx_snapshot = snapshot, tx_writes = [],
               tx_sidechannel_writes = [], tx_state = Active \<rparr>))"

definition Transaction_read :: "TxnManager \<Rightarrow> Transaction \<Rightarrow> MvccKey \<Rightarrow> bytes option" where
  "Transaction_read m t key =
     (case map_of (tx_writes t) key of
        Some pending \<Rightarrow> pending
      | None \<Rightarrow> read_at m (tx_tenant_id t) key (tx_snapshot t))"

definition Transaction_write :: "MvccKey \<Rightarrow> bytes \<Rightarrow> Transaction \<Rightarrow> Transaction" where
  "Transaction_write key val t = t\<lparr>tx_writes := AList.update key (Some val) (tx_writes t)\<rparr>"

definition Transaction_delete :: "MvccKey \<Rightarrow> Transaction \<Rightarrow> Transaction" where
  "Transaction_delete key t = t\<lparr>tx_writes := AList.update key None (tx_writes t)\<rparr>"

definition register_sidechannel_mvcc_write ::
  "TenantId \<Rightarrow> MvccKey \<Rightarrow> bytes option \<Rightarrow> Transaction \<Rightarrow> Transaction" where
  "register_sidechannel_mvcc_write tenant key val t =
     t\<lparr>tx_sidechannel_writes := tx_sidechannel_writes t @
        [\<lparr> sc_tenant_id = tenant, sc_key = key, sc_bytes = val \<rparr>]\<rparr>"

definition Transaction_abort :: "TxnManager \<Rightarrow> Transaction \<Rightarrow> TxnManager \<times> Transaction" where
  "Transaction_abort m t =
     (if tx_state t = Active then (abort_txn (tx_txn_id t) m, t\<lparr>tx_state := Aborted\<rparr>) else (m, t))"

definition Transaction_commit ::
  "TxnManager \<Rightarrow> Transaction \<Rightarrow> bool \<Rightarrow>
   (Lsn \<Rightarrow> SideChannelWrite list \<Rightarrow> ArcGraphError + SideChannelWrite list) \<Rightarrow>
   ArcGraphError option \<Rightarrow> (TxnManager \<times> Transaction \<times> (ArcGraphError + Lsn)) run option" where
  "Transaction_commit m t extra_work builder wal_err =
     (case commit_with_bundle_writes m (tx_txn_id t) (tx_tenant_id t) (tx_snapshot t) (tx_writes t)
             (tx_sidechannel_writes t) extra_work builder wal_err of
        None \<Rightarrow> None
      | Some Panicked \<Rightarrow> Some Panicked
      | Some (Done (m', Inr lsn)) \<Rightarrow> Some (Done (m', t\<lparr>tx_state := Committed\<rparr>, Inr lsn))
      | Some (Done (m', Inl e)) \<Rightarrow>
          Some (Done (abort_txn (tx_txn_id t) m', t\<lparr>tx_state := Aborted\<rparr>, Inl e)))"

section \<open>Effects on chains and on the active table\<close>

lemma read_at_chain: "read_at m tenant key s = read_chain (chain_at m (tenant, key)) s"
  by (simp add: read_at_def chain_at_def read_chain_def split: option.split)

lemma key_conflicts_newest:
  "key_conflicts m tenant s key \<longleftrightarrow>
     (\<exists>l. chain_newest (chain_at m (tenant, key)) = Some l \<and> s < l)"
  by (auto simp: key_conflicts_def chain_at_def chain_newest_def split: option.split)

lemma chain_at_update [simp]:
  "chain_at (m\<lparr>tm_counter := c\<rparr>) vk = chain_at m vk" "chain_at (m\<lparr>tm_visible := l\<rparr>) vk = chain_at m vk"
  by (simp_all add: chain_at_def)

lemma register_fields [simp]:
  "tm_versions (register_chain_key t k m) = tm_versions m"
  "tm_active (register_chain_key t k m) = tm_active m"
  "tm_visible (register_chain_key t k m) = tm_visible m"
  "tm_counter (register_chain_key t k m) = tm_counter m"
  "tm_install_order (register_chain_key t k m) = tm_install_order m"
  "tm_next_txn_id (register_chain_key t k m) = tm_next_txn_id m"
  by (simp_all add: register_chain_key_def)

lemma install_write_fields [simp]:
  "tm_active (install_write c t k v m) = tm_active m"
  "tm_visible (install_write c t k v m) = tm_visible m"
  "tm_counter (install_write c t k v m) = tm_counter m"
  "tm_install_order (install_write c t k v m) = tm_install_order m"
  "tm_next_txn_id (install_write c t k v m) = tm_next_txn_id m"
  by (simp_all add: install_write_def)

lemma chain_at_install_write:
  "chain_at (install_write c t k v m) vk =
     (if vk = (t, k) then push_version c v (chain_at m vk) else chain_at m vk)"
  by (auto simp: install_write_def chain_at_def)

lemma install_writes_fields [simp]:
  "tm_active (install_writes c t ws m) = tm_active m"
  "tm_visible (install_writes c t ws m) = tm_visible m"
  "tm_counter (install_writes c t ws m) = tm_counter m"
  "tm_install_order (install_writes c t ws m) = tm_install_order m"
  "tm_next_txn_id (install_writes c t ws m) = tm_next_txn_id m"
  by (induction ws arbitrary: m; auto simp: install_writes_def)+

lemma chain_at_install_writes:
  assumes "distinct (map fst ws)"
  shows "chain_at (install_writes c t ws m) vk =
    (if fst vk = t then
       case map_of ws (snd vk) of
         Some v \<Rightarrow> push_version c v (chain_at m vk) | None \<Rightarrow> chain_at m vk
     else chain_at m vk)"
  using assms
proof (induction ws arbitrary: m)
  case Nil
  then show ?case by (simp add: install_writes_def)
next
  case (Cons w ws)
  obtain k v where w: "w = (k, v)" by fastforce
  have step: "install_writes c t (w # ws) m = install_writes c t ws (install_write c t k v m)"
    by (simp add: install_writes_def w)
  have nk: "map_of ws k = None" using Cons.prems by (simp add: w map_of_eq_None_iff)
  have d: "distinct (map fst ws)" using Cons.prems by simp
  show ?case
    unfolding step Cons.IH [OF d]
    using nk by (cases vk) (auto simp: w chain_at_install_write split: option.splits)
qed

lemma rollback_write_fields [simp]:
  "tm_active (rollback_write c t k m) = tm_active m"
  "tm_visible (rollback_write c t k m) = tm_visible m"
  "tm_counter (rollback_write c t k m) = tm_counter m"
  "tm_install_order (rollback_write c t k m) = tm_install_order m"
  "tm_next_txn_id (rollback_write c t k m) = tm_next_txn_id m"
  by (simp_all add: rollback_write_def split: option.split)

lemma rollback_Nil [simp]: "rollback_chain c [] = []"
  by (simp add: rollback_chain_def)

lemma chain_at_rollback_write:
  "chain_at (rollback_write c t k m) vk =
     (if vk = (t, k) then rollback_chain c (chain_at m vk) else chain_at m vk)"
  by (auto simp: rollback_write_def chain_at_def split: option.splits)

lemma rollback_writes_fields [simp]:
  "tm_active (rollback_writes t c ws m) = tm_active m"
  "tm_visible (rollback_writes t c ws m) = tm_visible m"
  "tm_counter (rollback_writes t c ws m) = tm_counter m"
  "tm_install_order (rollback_writes t c ws m) = tm_install_order m"
  "tm_next_txn_id (rollback_writes t c ws m) = tm_next_txn_id m"
  by (induction ws arbitrary: m; auto simp: rollback_writes_def)+

lemma chain_at_rollback_writes:
  assumes "distinct (map fst ws)"
  shows "chain_at (rollback_writes t c ws m) vk =
    (if fst vk = t \<and> snd vk \<in> fst ` set ws then rollback_chain c (chain_at m vk)
     else chain_at m vk)"
  using assms
proof (induction ws arbitrary: m)
  case Nil
  then show ?case by (simp add: rollback_writes_def)
next
  case (Cons w ws)
  obtain k v where w: "w = (k, v)" by fastforce
  have step: "rollback_writes t c (w # ws) m = rollback_writes t c ws (rollback_write c t k m)"
    by (simp add: rollback_writes_def w)
  have nk: "k \<notin> fst ` set ws" and d: "distinct (map fst ws)" using Cons.prems by (simp_all add: w)
  show ?case
    unfolding step Cons.IH [OF d]
    using nk by (cases vk) (auto simp: w chain_at_rollback_write)
qed

lemma sidechannel_fields [simp]:
  "tm_active (fold (apply_sidechannel_mvcc_write c) side m) = tm_active m"
  "tm_visible (fold (apply_sidechannel_mvcc_write c) side m) = tm_visible m"
  "tm_counter (fold (apply_sidechannel_mvcc_write c) side m) = tm_counter m"
  "tm_install_order (fold (apply_sidechannel_mvcc_write c) side m) = tm_install_order m"
  "tm_next_txn_id (fold (apply_sidechannel_mvcc_write c) side m) = tm_next_txn_id m"
  by (induction side arbitrary: m; auto simp: apply_sidechannel_mvcc_write_def)+

text \<open>The target of a side-channel write and its bytes, as an association.\<close>

definition side_assoc :: "SideChannelWrite list \<Rightarrow> (VersionKey \<times> bytes option) list" where
  "side_assoc side = map (\<lambda>sc. ((sc_tenant_id sc, sc_key sc), sc_bytes sc)) side"

lemma chain_at_sidechannel:
  assumes "distinct (map fst (side_assoc side))"
  shows "chain_at (fold (apply_sidechannel_mvcc_write c) side m) vk =
    (case map_of (side_assoc side) vk of
       Some v \<Rightarrow> push_version c v (chain_at m vk) | None \<Rightarrow> chain_at m vk)"
  using assms
proof (induction side arbitrary: m)
  case Nil
  then show ?case by (simp add: side_assoc_def)
next
  case (Cons sc side)
  let ?k = "(sc_tenant_id sc, sc_key sc)"
  have nk: "map_of (side_assoc side) ?k = None" and d: "distinct (map fst (side_assoc side))"
    using Cons.prems by (simp_all add: side_assoc_def map_of_eq_None_iff image_image)
  have "fold (apply_sidechannel_mvcc_write c) (sc # side) m =
      fold (apply_sidechannel_mvcc_write c) side
        (install_write c (sc_tenant_id sc) (sc_key sc) (sc_bytes sc) m)"
    by (simp add: apply_sidechannel_mvcc_write_def)
  then show ?case
    using nk by (auto simp: Cons.IH [OF d] chain_at_install_write side_assoc_def split: option.splits)
qed

lemma gc_Nil [simp]: "gc_chain a [] = []"
  by (simp add: gc_chain_def)

lemma chain_at_gc_sweep: "chain_at (gc_sweep a m) vk = gc_chain a (chain_at m vk)"
  by (auto simp: gc_sweep_def chain_at_def Let_def split: option.splits)

lemma gc_sweep_fields [simp]:
  "tm_active (gc_sweep a m) = tm_active m" "tm_visible (gc_sweep a m) = tm_visible m"
  "tm_counter (gc_sweep a m) = tm_counter m" "tm_install_order (gc_sweep a m) = tm_install_order m"
  "tm_next_txn_id (gc_sweep a m) = tm_next_txn_id m"
  by (simp_all add: gc_sweep_def)

lemma map_of_abort: "map_of (tm_active (abort_txn i m)) = (map_of (tm_active m))(i := None)"
  by (simp add: abort_txn_def delete_conv')

lemma set_abort: "set (tm_active (abort_txn i m)) \<subseteq> set (tm_active m)"
  by (auto simp: abort_txn_def AList.delete_eq)

lemma abort_fields [simp]:
  "tm_versions (abort_txn i m) = tm_versions m" "tm_visible (abort_txn i m) = tm_visible m"
  "tm_counter (abort_txn i m) = tm_counter m" "tm_install_order (abort_txn i m) = tm_install_order m"
  "tm_next_txn_id (abort_txn i m) = tm_next_txn_id m" "chain_at (abort_txn i m) vk = chain_at m vk"
  by (simp_all add: abort_txn_def chain_at_def)

lemma advance_fields [simp]:
  "tm_versions (advance_install_order c m) = tm_versions m"
  "tm_visible (advance_install_order c m) = tm_visible m"
  "tm_active (advance_install_order c m) = tm_active m"
  "tm_counter (advance_install_order c m) = tm_counter m"
  "tm_next_txn_id (advance_install_order c m) = tm_next_txn_id m"
  "chain_at (advance_install_order c m) vk = chain_at m vk"
  "tm_install_order (advance_install_order c m) = max (tm_install_order m) c"
  by (auto simp: advance_install_order_def chain_at_def max_def)

text \<open>The anchor, when no begin is in flight: the least active snapshot, or the watermark.\<close>

lemma active_scan_concrete:
  assumes "\<forall>x \<in> set es. snd x \<noteq> Lsn_MAX"
  shows "\<exists>f. active_scan es fl p = (f, p) \<and>
    (case f of
       None \<Rightarrow> es = [] \<and> fl = None
     | Some a \<Rightarrow> (\<forall>x \<in> set es. a \<le> snd x) \<and> (\<forall>b. fl = Some b \<longrightarrow> a \<le> b) \<and>
                 (a \<in> snd ` set es \<or> fl = Some a))"
  using assms
proof (induction es arbitrary: fl)
  case Nil
  then show ?case by (cases fl) auto
next
  case (Cons e es)
  obtain i s where e: "e = (i, s)" by fastforce
  define g where "g = (case fl of None \<Rightarrow> s | Some f \<Rightarrow> min f s)"
  have "\<forall>x \<in> set es. snd x \<noteq> Lsn_MAX" using Cons.prems by simp
  from Cons.IH [OF this, of "Some g"] obtain fo where
    fo: "active_scan es (Some g) p = (fo, p)"
    "case fo of None \<Rightarrow> es = [] \<and> Some g = None
       | Some a \<Rightarrow> (\<forall>x \<in> set es. a \<le> snd x) \<and> (\<forall>b. Some g = Some b \<longrightarrow> a \<le> b) \<and>
                   (a \<in> snd ` set es \<or> Some g = Some a)"
    by blast
  then obtain a where a: "active_scan es (Some g) p = (Some a, p)" "\<forall>x \<in> set es. a \<le> snd x"
    "a \<le> g" "a \<in> snd ` set es \<or> g = a"
    by (cases fo) simp_all
  have "active_scan (e # es) fl p = (Some a, p)" using a(1) Cons.prems by (simp add: e g_def)
  moreover have "\<forall>x \<in> set (e # es). a \<le> snd x" "\<forall>b. fl = Some b \<longrightarrow> a \<le> b"
    using a(2,3) by (auto simp: e g_def split: option.splits)
  moreover have "a \<in> snd ` set (e # es) \<or> fl = Some a"
    using a(4) by (auto simp: e g_def min_def split: option.splits if_splits)
  ultimately show ?case by auto
qed

lemma anchor_bounds:
  assumes act: "\<forall>x \<in> set (tm_active m). f \<le> snd x \<and> snd x \<le> tm_visible m"
    and vis: "f \<le> tm_visible m" "tm_visible m \<noteq> Lsn_MAX"
  shows "f \<le> oldest_active_snapshot m" "oldest_active_snapshot m \<le> tm_visible m"
    "\<forall>x \<in> set (tm_active m). oldest_active_snapshot m \<le> snd x"
proof -
  have "\<forall>x \<in> set (tm_active m). snd x \<noteq> Lsn_MAX"
  proof
    fix x assume "x \<in> set (tm_active m)"
    with act have "snd x \<le> tm_visible m" by blast
    with vis(2) show "snd x \<noteq> Lsn_MAX" by auto
  qed
  from active_scan_concrete [OF this, of None False] obtain fo where
    scan: "active_scan (tm_active m) None False = (fo, False)"
    and fo: "case fo of None \<Rightarrow> tm_active m = []
      | Some a \<Rightarrow> (\<forall>x \<in> set (tm_active m). a \<le> snd x) \<and> a \<in> snd ` set (tm_active m)"
    by (auto split: option.splits)
  have "f \<le> oldest_active_snapshot m \<and> oldest_active_snapshot m \<le> tm_visible m \<and>
    (\<forall>x \<in> set (tm_active m). oldest_active_snapshot m \<le> snd x)"
  proof (cases fo)
    case None
    with scan fo vis show ?thesis by (simp add: oldest_active_snapshot_def anchor_of_def)
  next
    case (Some a)
    with scan fo act show ?thesis by (auto simp: oldest_active_snapshot_def anchor_of_def)
  qed
  then show "f \<le> oldest_active_snapshot m" "oldest_active_snapshot m \<le> tm_visible m"
    "\<forall>x \<in> set (tm_active m). oldest_active_snapshot m \<le> snd x"
    by blast+
qed

end
