(* ===== verification/Txn_System.thy ===== *)
theory Txn_System
  imports Txn_Manager
begin

text \<open>
  Concurrent transactions over the manager of \<open>Txn_Manager\<close>, as a step relation. A state has the manager, the
  handles of running transactions, the commits between Phase 1 and Phase 3, and the log of
  committed writes per key, which no operation reads: it is the specification. Every step is one
  critical section of the source: a begin, a buffered write, an abort, Phase 1 (installed or
  conflicting), Phase 3 (published or undone), the two halves of an index-page commit, a GC pass. The
  invariant says that every version chain represents the log followed by the pending write of
  the key, above a floor that no active snapshot is below. The properties are snapshot
  isolation, first-committer-wins, rollback, ordered publication, and progress of Phase 3.
\<close>

section \<open>System\<close>

record pending =
  p_txn :: nat
  p_tenant :: TenantId
  p_snapshot :: Lsn
  p_range :: RedoLsnRange
  p_writes :: writes
  p_index :: bool

record sys =
  sy_mgr :: TxnManager
  sy_txns :: "nat \<rightharpoonup> Transaction"
  sy_inflight :: "pending list"
  sy_log :: "VersionKey \<Rightarrow> (Lsn \<times> bytes option) list"

definition p_lsn :: "pending \<Rightarrow> Lsn" where
  "p_lsn p = range_commit_lsn (p_range p)"

text \<open>What a pending commit, all pending commits, and a side-channel list write to a key.\<close>

definition pend_of :: "pending \<Rightarrow> VersionKey \<Rightarrow> (Lsn \<times> bytes option) list" where
  "pend_of p vk =
     (if fst vk = p_tenant p then
        case map_of (p_writes p) (snd vk) of Some v \<Rightarrow> [(p_lsn p, v)] | None \<Rightarrow> []
      else [])"

definition pend :: "pending list \<Rightarrow> VersionKey \<Rightarrow> (Lsn \<times> bytes option) list" where
  "pend ps vk = concat (map (\<lambda>p. pend_of p vk) ps)"

definition side_of :: "Lsn \<Rightarrow> SideChannelWrite list \<Rightarrow> VersionKey \<Rightarrow> (Lsn \<times> bytes option) list" where
  "side_of c side vk = (case map_of (side_assoc side) vk of Some v \<Rightarrow> [(c, v)] | None \<Rightarrow> [])"

text \<open>The gate that callers of side-channel writes hold: one write per key, and no commit in
  flight has a primary write to any of the keys.\<close>

definition side_gate :: "pending list \<Rightarrow> SideChannelWrite list \<Rightarrow> bool" where
  "side_gate ps side \<longleftrightarrow> distinct (map fst (side_assoc side)) \<and>
     (\<forall>vk \<in> fst ` set (side_assoc side). pend ps vk = [])"

definition mk_pending :: "Transaction \<Rightarrow> RedoLsnRange \<Rightarrow> pending" where
  "mk_pending t r = \<lparr> p_txn = tx_txn_id t, p_tenant = tx_tenant_id t, p_snapshot = tx_snapshot t,
     p_range = r, p_writes = tx_writes t, p_index = False \<rparr>"

definition mk_index :: "RedoLsnRange \<Rightarrow> pending" where
  "mk_index r = \<lparr> p_txn = 0, p_tenant = TenantId_SYSTEM, p_snapshot = Lsn_ZERO, p_range = r,
     p_writes = [], p_index = True \<rparr>"

inductive txn_step :: "sys \<Rightarrow> sys \<Rightarrow> bool" where
  begin_txn: "TxnManager_begin tenant (sy_mgr s) = (m, t) \<Longrightarrow>
    txn_step s (s\<lparr>sy_mgr := m, sy_txns := (sy_txns s)(tx_txn_id t \<mapsto> t)\<rparr>)"
| buffer_write: "sy_txns s i = Some t \<Longrightarrow>
    txn_step s (s\<lparr>sy_txns := (sy_txns s)(i \<mapsto> Transaction_write k v t)\<rparr>)"
| buffer_delete: "sy_txns s i = Some t \<Longrightarrow>
    txn_step s (s\<lparr>sy_txns := (sy_txns s)(i \<mapsto> Transaction_delete k t)\<rparr>)"
| finish: "sy_txns s i = Some t \<Longrightarrow>
    txn_step s (s\<lparr>sy_mgr := abort_txn i (sy_mgr s), sy_txns := (sy_txns s)(i := None)\<rparr>)"
| conflict: "sy_txns s i = Some t \<Longrightarrow>
    commit_phase1 (sy_mgr s) n (tx_tenant_id t) (tx_snapshot t) (tx_writes t) = Done (m, Inl e) \<Longrightarrow>
    txn_step s (s\<lparr>sy_mgr := abort_txn i m, sy_txns := (sy_txns s)(i := None)\<rparr>)"
| install: "sy_txns s i = Some t \<Longrightarrow>
    commit_phase1 (sy_mgr s) n (tx_tenant_id t) (tx_snapshot t) (tx_writes t) = Done (m, Inr r) \<Longrightarrow>
    range_commit_lsn r \<noteq> Lsn_MAX \<Longrightarrow>
    txn_step s (s\<lparr>sy_mgr := m, sy_txns := (sy_txns s)(i := None),
                  sy_inflight := sy_inflight s @ [mk_pending t r]\<rparr>)"
| publish: "p \<in> set (sy_inflight s) \<Longrightarrow> \<not> p_index p \<Longrightarrow> install_turn (sy_mgr s) (p_range p) \<Longrightarrow>
    side_gate (sy_inflight s) side \<Longrightarrow>
    txn_step s (s\<lparr>sy_mgr := commit_publish (p_txn p) (p_range p) side (sy_mgr s),
                  sy_inflight := remove1 p (sy_inflight s),
                  sy_log := (\<lambda>vk. sy_log s vk @ pend_of p vk @ side_of (p_lsn p) side vk)\<rparr>)"
| undo: "p \<in> set (sy_inflight s) \<Longrightarrow> \<not> p_index p \<Longrightarrow> install_turn (sy_mgr s) (p_range p) \<Longrightarrow>
    txn_step s (s\<lparr>sy_mgr := commit_undo (p_txn p) (p_tenant p) (p_range p) (p_writes p) (sy_mgr s),
                  sy_inflight := remove1 p (sy_inflight s)\<rparr>)"
| index_start: "index_pages_start (sy_mgr s) False side = Done (m, Inr (Some r)) \<Longrightarrow>
    range_commit_lsn r \<noteq> Lsn_MAX \<Longrightarrow>
    txn_step s (s\<lparr>sy_mgr := m, sy_inflight := sy_inflight s @ [mk_index r]\<rparr>)"
| index_publish: "p \<in> set (sy_inflight s) \<Longrightarrow> p_index p \<Longrightarrow> install_turn (sy_mgr s) (p_range p) \<Longrightarrow>
    side_gate (sy_inflight s) side \<Longrightarrow> index_pages_finish (p_range p) side None (sy_mgr s) = (m, res) \<Longrightarrow>
    txn_step s (s\<lparr>sy_mgr := m, sy_inflight := remove1 p (sy_inflight s),
                  sy_log := (\<lambda>vk. sy_log s vk @ side_of (p_lsn p) side vk)\<rparr>)"
| index_fail: "p \<in> set (sy_inflight s) \<Longrightarrow> p_index p \<Longrightarrow> install_turn (sy_mgr s) (p_range p) \<Longrightarrow>
    index_pages_finish (p_range p) side (Some e) (sy_mgr s) = (m, res) \<Longrightarrow>
    txn_step s (s\<lparr>sy_mgr := m, sy_inflight := remove1 p (sy_inflight s)\<rparr>)"
| reclaim: "txn_step s (s\<lparr>sy_mgr := gc (sy_mgr s)\<rparr>)"

definition sys_init :: "nat \<Rightarrow> sys" where
  "sys_init interval = \<lparr> sy_mgr = with_gc_drive_interval interval TxnManager_new,
     sy_txns = Map.empty, sy_inflight = [], sy_log = (\<lambda>_. []) \<rparr>"

definition reachable :: "sys \<Rightarrow> bool" where
  "reachable s \<longleftrightarrow> (\<exists>interval. txn_step\<^sup>*\<^sup>* (sys_init interval) s)"

section \<open>Invariant\<close>

fun ranges_ok :: "Lsn \<Rightarrow> pending list \<Rightarrow> Lsn \<Rightarrow> bool" where
  "ranges_ok io [] counter \<longleftrightarrow> io = counter"
| "ranges_ok io (p # ps) counter \<longleftrightarrow>
     range_predecessor (p_range p) = io \<and> io < p_lsn p \<and> ranges_ok (p_lsn p) ps counter"

definition order_inv :: "Lsn \<Rightarrow> sys \<Rightarrow> bool" where
  "order_inv f s \<longleftrightarrow>
     ranges_ok (tm_install_order (sy_mgr s)) (sy_inflight s) (tm_counter (sy_mgr s)) \<and>
     tm_counter (sy_mgr s) \<noteq> Lsn_MAX \<and>
     tm_visible (sy_mgr s) \<le> tm_install_order (sy_mgr s) \<and> f \<le> tm_visible (sy_mgr s) \<and>
     (\<forall>x \<in> set (tm_active (sy_mgr s)). f \<le> snd x \<and> snd x \<le> tm_visible (sy_mgr s))"

definition store_inv :: "Lsn \<Rightarrow> sys \<Rightarrow> bool" where
  "store_inv f s \<longleftrightarrow>
     (\<forall>vk. chain_repr f (sy_log s vk @ pend (sy_inflight s) vk) (chain_at (sy_mgr s) vk)) \<and>
     (\<forall>vk. \<forall>x \<in> set (sy_log s vk). fst x \<le> tm_visible (sy_mgr s)) \<and>
     (\<forall>vk. length (pend (sy_inflight s) vk) \<le> 1)"

definition commit_inv :: "sys \<Rightarrow> bool" where
  "commit_inv s \<longleftrightarrow>
     (\<forall>p \<in> set (sy_inflight s). distinct (map fst (p_writes p)) \<and>
        (\<forall>vk. pend_of p vk \<noteq> [] \<longrightarrow> (\<forall>x \<in> set (sy_log s vk). fst x \<le> p_snapshot p)) \<and>
        (\<not> p_index p \<longrightarrow> sy_txns s (p_txn p) = None \<and> p_txn p < tm_next_txn_id (sy_mgr s)) \<and>
        (p_index p \<longrightarrow> p_writes p = []))"

definition txn_inv :: "sys \<Rightarrow> bool" where
  "txn_inv s \<longleftrightarrow>
     (\<forall>i t. sy_txns s i = Some t \<longrightarrow> tx_txn_id t = i \<and> distinct (map fst (tx_writes t)) \<and>
        map_of (tm_active (sy_mgr s)) i = Some (tx_snapshot t) \<and> i < tm_next_txn_id (sy_mgr s))"

definition sys_inv :: "Lsn \<Rightarrow> sys \<Rightarrow> bool" where
  "sys_inv f s \<longleftrightarrow> order_inv f s \<and> store_inv f s \<and> commit_inv s \<and> txn_inv s"

lemmas inv_defs = sys_inv_def order_inv_def store_inv_def commit_inv_def txn_inv_def

lemma pend_Nil [simp]: "pend [] vk = []"
  by (simp add: pend_def)

lemma pend_Cons [simp]: "pend (p # ps) vk = pend_of p vk @ pend ps vk"
  by (simp add: pend_def)

lemma pend_snoc [simp]: "pend (ps @ [p]) vk = pend ps vk @ pend_of p vk"
  by (simp add: pend_def)

lemma pend_of_mem: "x \<in> set (pend_of p vk) \<Longrightarrow> fst x = p_lsn p"
proof -
  assume x: "x \<in> set (pend_of p vk)"
  then have "fst vk = p_tenant p" by (rule contrapos_pp) (simp add: pend_of_def)
  with x show ?thesis by (cases "map_of (p_writes p) (snd vk)") (simp_all add: pend_of_def)
qed

lemma pend_mem: "x \<in> set (pend ps vk) \<Longrightarrow> \<exists>p \<in> set ps. fst x = p_lsn p \<and> x \<in> set (pend_of p vk)"
  by (auto simp: pend_def dest: pend_of_mem)

lemma pend_of_index: "p_writes p = [] \<Longrightarrow> pend_of p vk = []"
  by (simp add: pend_of_def)

text \<open>Order of the commits in flight.\<close>

lemma ranges_bounds:
  "ranges_ok io ps c \<Longrightarrow> io \<le> c \<and> (\<forall>p \<in> set ps. io < p_lsn p \<and> p_lsn p \<le> c \<and>
     io \<le> range_predecessor (p_range p))"
proof (induction ps arbitrary: io)
  case Nil
  then show ?case by simp
next
  case (Cons q ps)
  then have "io < p_lsn q" "ranges_ok (p_lsn q) ps c" "range_predecessor (p_range q) = io"
    by simp_all
  with Cons.IH [of "p_lsn q"] show ?case by auto
qed

lemma ranges_snoc:
  "ranges_ok io ps c \<Longrightarrow> range_predecessor (p_range p) = c \<Longrightarrow> c < p_lsn p \<Longrightarrow>
     ranges_ok io (ps @ [p]) (p_lsn p)"
  by (induction ps arbitrary: io) auto

lemma turn_is_head:
  assumes "ranges_ok io ps c" "p \<in> set ps" "\<not> io < range_predecessor (p_range p)"
  obtains qs where "ps = p # qs" "ranges_ok (p_lsn p) qs c" "io < p_lsn p"
proof (cases ps)
  case Nil
  with assms(2) show thesis by simp
next
  case (Cons q qs)
  have q: "ranges_ok (p_lsn q) qs c" "io < p_lsn q" using assms(1) by (simp_all add: Cons)
  have "p = q"
  proof (rule ccontr)
    assume "p \<noteq> q"
    with assms(2) have "p \<in> set qs" by (simp add: Cons)
    with ranges_bounds [OF q(1)] have "p_lsn q \<le> range_predecessor (p_range p)" by blast
    with q(2) have "io < range_predecessor (p_range p)" by (rule less_le_trans)
    with assms(3) show False by simp
  qed
  with q Cons that show thesis by simp
qed

section \<open>Steps preserve the invariant\<close>

lemma inv_init: "sys_inv Lsn_ZERO (sys_init interval)"
  by (auto simp: inv_defs sys_init_def with_gc_drive_interval_def TxnManager_new_def LsnCounter_new_def
      Lsn_ZERO_def Lsn_MAX_def chain_at_def intro: chain.repr_nil)

lemma inv_begin:
  assumes inv: "sys_inv f s" and b: "TxnManager_begin tenant (sy_mgr s) = (m, t)"
  shows "sys_inv f (s\<lparr>sy_mgr := m, sy_txns := (sy_txns s)(tx_txn_id t \<mapsto> t)\<rparr>)"
proof -
  let ?i = "tm_next_txn_id (sy_mgr s)" and ?v = "tm_visible (sy_mgr s)"
  have m: "tm_versions m = tm_versions (sy_mgr s)" "tm_visible m = ?v"
    "tm_install_order m = tm_install_order (sy_mgr s)" "tm_counter m = tm_counter (sy_mgr s)"
    "tm_next_txn_id m = Suc ?i" "tm_active m = AList.update ?i ?v (AList.update ?i Lsn_MAX (tm_active (sy_mgr s)))"
    and t: "tx_txn_id t = ?i" "tx_snapshot t = ?v" "tx_writes t = []"
    using b by (auto simp: TxnManager_begin_def begin_inner_def begin_bump_def begin_sentinel_def
        begin_publish_def Let_def)
  have chain: "chain_at m vk = chain_at (sy_mgr s) vk" for vk by (simp add: chain_at_def m(1))
  have act: "map_of (tm_active m) = (map_of (tm_active (sy_mgr s)))(?i \<mapsto> ?v)"
    by (simp add: m(6) update_conv')
  have set_act: "x \<in> set (tm_active (sy_mgr s)) \<or> x = (?i, ?v)" if "x \<in> set (tm_active m)" for x
  proof -
    have d: "AList.update ?i ?v (AList.update ?i Lsn_MAX al) = AList.update ?i ?v al" for al
      by (induction al) auto
    have "x \<in> set (AList.update ?i ?v al) \<Longrightarrow> x \<in> set al \<or> x = (?i, ?v)" for al
      by (induction al) (auto split: if_splits)
    with that show ?thesis by (simp add: m(6) d)
  qed
  have "f \<le> ?v" "\<forall>x \<in> set (tm_active (sy_mgr s)). f \<le> snd x \<and> snd x \<le> ?v"
    using inv unfolding inv_defs by blast+
  then have "\<forall>x \<in> set (tm_active m). f \<le> snd x \<and> snd x \<le> ?v"
    using set_act by fastforce
  then show ?thesis
    using inv m(2-5) t act chain unfolding inv_defs by (auto simp: less_Suc_eq)
qed

lemma inv_buffer:
  assumes inv: "sys_inv f s" and t: "sy_txns s i = Some t"
    and u: "tx_txn_id u = tx_txn_id t" "tx_snapshot u = tx_snapshot t" "distinct (map fst (tx_writes u))"
  shows "sys_inv f (s\<lparr>sy_txns := (sy_txns s)(i \<mapsto> u)\<rparr>)"
  using assms unfolding inv_defs by auto

lemma inv_finish:
  assumes inv: "sys_inv f s"
  shows "sys_inv f (s\<lparr>sy_mgr := abort_txn i (sy_mgr s), sy_txns := (sy_txns s)(i := None)\<rparr>)"
proof -
  have "\<forall>x \<in> set (tm_active (abort_txn i (sy_mgr s))). x \<in> set (tm_active (sy_mgr s))"
    using set_abort by blast
  with inv show ?thesis
    unfolding inv_defs by (auto simp: map_of_abort)
qed

lemma inv_gc:
  assumes inv: "sys_inv f s"
  shows "sys_inv (oldest_active_snapshot (sy_mgr s)) (s\<lparr>sy_mgr := gc (sy_mgr s)\<rparr>)"
proof -
  let ?a = "oldest_active_snapshot (sy_mgr s)"
  have o: "order_inv f s" using inv by (simp add: sys_inv_def)
  have "tm_visible (sy_mgr s) \<le> tm_counter (sy_mgr s)" "tm_counter (sy_mgr s) \<noteq> Lsn_MAX"
    using o ranges_bounds unfolding order_inv_def by (blast intro: order_trans)+
  then have vis: "tm_visible (sy_mgr s) \<noteq> Lsn_MAX" by auto
  have a: "f \<le> ?a" "?a \<le> tm_visible (sy_mgr s)" "\<forall>x \<in> set (tm_active (sy_mgr s)). ?a \<le> snd x"
    using anchor_bounds [of "sy_mgr s" f] o vis unfolding order_inv_def by blast+
  then have am: "?a \<noteq> Lsn_MAX" using vis by auto
  have "chain_repr ?a h (chain_at (gc (sy_mgr s)) vk)" if "chain_repr f h (chain_at (sy_mgr s) vk)" for h vk
    using chain.repr_prune [OF that a(1) am] by (simp add: gc_def chain_at_gc_sweep)
  with inv a show ?thesis
    unfolding inv_defs by (auto simp: gc_def)
qed

text \<open>Fields that no invariant mentions.\<close>

lemma inv_mgr_cong:
  assumes "sys_inv f s" "tm_versions m = tm_versions (sy_mgr s)" "tm_active m = tm_active (sy_mgr s)"
    "tm_visible m = tm_visible (sy_mgr s)" "tm_counter m = tm_counter (sy_mgr s)"
    "tm_install_order m = tm_install_order (sy_mgr s)" "tm_next_txn_id m = tm_next_txn_id (sy_mgr s)"
  shows "sys_inv f (s\<lparr>sy_mgr := m\<rparr>)"
proof -
  have "chain_at m vk = chain_at (sy_mgr s) vk" for vk by (simp add: chain_at_def assms(2))
  with assms show ?thesis unfolding inv_defs by simp
qed

lemma inv_maybe_drive_gc:
  assumes inv: "sys_inv f s"
  shows "\<exists>f'. sys_inv f' (s\<lparr>sy_mgr := maybe_drive_gc (sy_mgr s)\<rparr>)"
proof (cases "tm_gc_drive_interval (sy_mgr s) = 0")
  case True
  with inv show ?thesis by (auto simp: maybe_drive_gc_def)
next
  case False
  let ?m0 = "(sy_mgr s)\<lparr>tm_commits_since_gc := 0\<rparr>"
  have "sys_inv f (s\<lparr>sy_mgr := ?m0\<rparr>)" by (rule inv_mgr_cong [OF inv]) simp_all
  from inv_gc [OF this] have
    gc: "sys_inv (oldest_active_snapshot ?m0) (s\<lparr>sy_mgr := gc ?m0\<rparr>)" by simp
  have "sys_inv (oldest_active_snapshot ?m0)
      (s\<lparr>sy_mgr := (gc ?m0)\<lparr>tm_driven_gc_passes := n\<rparr>\<rparr>)" for n
    using inv_mgr_cong [OF gc, of "(gc ?m0)\<lparr>tm_driven_gc_passes := n\<rparr>"] by simp
  moreover have "sys_inv f (s\<lparr>sy_mgr := (sy_mgr s)\<lparr>tm_commits_since_gc := n\<rparr>\<rparr>)" for n
    by (rule inv_mgr_cong [OF inv]) simp_all
  ultimately show ?thesis using False by (auto simp: maybe_drive_gc_def Let_def)
qed

text \<open>Bounds that every invariant proof uses: the watermark is below every pending LSN.\<close>

lemma inv_bounds:
  assumes "sys_inv f s"
  shows "tm_visible (sy_mgr s) \<le> tm_counter (sy_mgr s)" "tm_visible (sy_mgr s) \<noteq> Lsn_MAX"
    "\<forall>p \<in> set (sy_inflight s). tm_visible (sy_mgr s) < p_lsn p \<and> p_lsn p \<le> tm_counter (sy_mgr s)"
    "\<forall>x \<in> set (pend (sy_inflight s) vk). tm_visible (sy_mgr s) < fst x"
proof -
  have o: "order_inv f s" using assms by (simp add: sys_inv_def)
  let ?io = "tm_install_order (sy_mgr s)" and ?c = "tm_counter (sy_mgr s)"
    and ?v = "tm_visible (sy_mgr s)"
  have r: "ranges_ok ?io (sy_inflight s) ?c" and vio: "?v \<le> ?io" and cm: "?c \<noteq> Lsn_MAX"
    using o by (simp_all add: order_inv_def)
  note rb = ranges_bounds [OF r]
  show vc: "?v \<le> ?c" using rb vio by (blast intro: order_trans)
  show "?v \<noteq> Lsn_MAX" using vc cm by auto
  show pl: "\<forall>p \<in> set (sy_inflight s). ?v < p_lsn p \<and> p_lsn p \<le> ?c"
    using rb vio by (blast intro: le_less_trans)
  show "\<forall>x \<in> set (pend (sy_inflight s) vk). ?v < fst x"
    using pl pend_mem by metis
qed

text \<open>A key without a conflict has no pending write, and its log ends at or below the snapshot.\<close>

lemma no_conflict_key:
  assumes inv: "sys_inv f s" and snap: "sn \<le> tm_visible (sy_mgr s)"
    and nc: "\<not> key_conflicts (sy_mgr s) tenant sn key"
  shows "pend (sy_inflight s) (tenant, key) = []"
    "\<forall>x \<in> set (sy_log s (tenant, key)). fst x \<le> sn"
proof -
  let ?vk = "(tenant, key)"
  let ?h = "sy_log s ?vk @ pend (sy_inflight s) ?vk"
  have repr: "chain_repr f ?h (chain_at (sy_mgr s) ?vk)"
    using inv by (simp add: sys_inv_def store_inv_def)
  have newest: "l \<le> sn" if "?h = h @ [(l, v)]" for h l v
    using chain.repr_newest [of f h l v] repr nc that by (auto simp: key_conflicts_newest not_less)
  show pend: "pend (sy_inflight s) ?vk = []"
  proof (rule ccontr)
    assume "pend (sy_inflight s) ?vk \<noteq> []"
    then obtain q l v where q: "pend (sy_inflight s) ?vk = q @ [(l, v)]"
      by (metis rev_exhaust surj_pair)
    then have "l \<le> sn" using newest [of "sy_log s ?vk @ q" l v] by simp
    moreover have "tm_visible (sy_mgr s) < l"
      using inv_bounds(4) [OF inv, of ?vk] q by simp
    ultimately show False using snap by (meson leD order_trans)
  qed
  show "\<forall>x \<in> set (sy_log s ?vk). fst x \<le> sn"
  proof (cases "sy_log s ?vk" rule: rev_cases)
    case (snoc q x)
    obtain l v where x: "x = (l, v)" by fastforce
    have "l \<le> sn" using newest [of q l v] by (simp add: pend snoc x)
    moreover have "history_ok (q @ [(l, v)])"
      using chain.repr_history [OF repr] by (simp add: pend snoc x)
    ultimately show ?thesis by (auto simp: snoc x history_ok_snoc)
  qed simp
qed

lemma inv_repr:
  "sys_inv f s \<Longrightarrow> chain_repr f (sy_log s vk @ pend (sy_inflight s) vk) (chain_at (sy_mgr s) vk)"
  unfolding sys_inv_def store_inv_def by blast

lemma inv_one: "sys_inv f s \<Longrightarrow> length (pend (sy_inflight s) vk) \<le> 1"
  unfolding sys_inv_def store_inv_def by blast

lemma inv_log: "sys_inv f s \<Longrightarrow> x \<in> set (sy_log s vk) \<Longrightarrow> fst x \<le> tm_visible (sy_mgr s)"
  unfolding sys_inv_def store_inv_def by blast

lemma inv_snap:
  "sys_inv f s \<Longrightarrow> p \<in> set (sy_inflight s) \<Longrightarrow> pend_of p vk \<noteq> [] \<Longrightarrow> x \<in> set (sy_log s vk) \<Longrightarrow>
     fst x \<le> p_snapshot p"
  unfolding sys_inv_def commit_inv_def by blast

lemma pend_of_mk:
  "pend_of (mk_pending t r) vk =
     (if fst vk = tx_tenant_id t then
        case map_of (tx_writes t) (snd vk) of Some v \<Rightarrow> [(rg_end r, v)] | None \<Rightarrow> []
      else [])"
  by (simp add: pend_of_def p_lsn_def range_commit_lsn_def mk_pending_def split: option.split)

text \<open>Phase 1 taken apart, and what it found out about the keys it writes.\<close>

lemma phase1_Inr:
  assumes "commit_phase1 m n tenant sn ws = Done (m', Inr r)"
  shows "\<not> occ_conflict m tenant sn ws" "allocate_range (tm_counter m) n = Done (rg_end r, r)"
    "m' = install_writes (rg_end r) tenant ws (m\<lparr>tm_counter := rg_end r\<rparr>)"
    "tm_counter m < rg_end r"
proof -
  show "\<not> occ_conflict m tenant sn ws" and al: "allocate_range (tm_counter m) n = Done (rg_end r, r)"
    and "m' = install_writes (rg_end r) tenant ws (m\<lparr>tm_counter := rg_end r\<rparr>)"
    using assms allocate_range_Done(4)
    by (auto simp: commit_phase1_def bind_run_Done_iff range_commit_lsn_def split: if_splits)
  show "tm_counter m < rg_end r" using allocate_range_Done(2,3) [OF al] by simp
qed

lemma inv_txn:
  assumes "sys_inv f s" "sy_txns s i = Some t"
  shows "tx_txn_id t = i" "distinct (map fst (tx_writes t))" "i < tm_next_txn_id (sy_mgr s)"
    "f \<le> tx_snapshot t" "tx_snapshot t \<le> tm_visible (sy_mgr s)" "tx_snapshot t \<noteq> Lsn_MAX"
proof -
  show "tx_txn_id t = i" "distinct (map fst (tx_writes t))" "i < tm_next_txn_id (sy_mgr s)"
    using assms unfolding inv_defs by blast+
  have "map_of (tm_active (sy_mgr s)) i = Some (tx_snapshot t)"
    using assms unfolding inv_defs by blast
  from map_of_SomeD [OF this] show "f \<le> tx_snapshot t"
    and v: "tx_snapshot t \<le> tm_visible (sy_mgr s)"
    using assms(1) unfolding inv_defs by force+
  show "tx_snapshot t \<noteq> Lsn_MAX" using v inv_bounds(2) [OF assms(1)] by auto
qed

lemma install_key:
  assumes inv: "sys_inv f s" and t: "sy_txns s i = Some t"
    and nc: "\<not> occ_conflict (sy_mgr s) (tx_tenant_id t) (tx_snapshot t) (tx_writes t)"
    and w: "pend_of (mk_pending t r) vk \<noteq> []"
  shows "pend (sy_inflight s) vk = []" "\<forall>x \<in> set (sy_log s vk). fst x \<le> tx_snapshot t"
proof -
  have vk: "fst vk = tx_tenant_id t"
    by (rule ccontr) (use w in \<open>simp add: pend_of_mk\<close>)
  then obtain v where "map_of (tx_writes t) (snd vk) = Some v"
    using w by (cases "map_of (tx_writes t) (snd vk)") (simp_all add: pend_of_mk)
  then have "(snd vk, v) \<in> set (tx_writes t)" by (rule map_of_SomeD)
  with nc have "\<not> key_conflicts (sy_mgr s) (tx_tenant_id t) (tx_snapshot t) (snd vk)"
    by (auto simp: occ_conflict_def list_ex_iff)
  from no_conflict_key [OF inv inv_txn(5) [OF inv t] this] vk
  show "pend (sy_inflight s) vk = []" "\<forall>x \<in> set (sy_log s vk). fst x \<le> tx_snapshot t"
    by (metis prod.collapse)+
qed

lemma install_repr:
  assumes inv: "sys_inv f s" and t: "sy_txns s i = Some t"
    and p1: "commit_phase1 (sy_mgr s) n (tx_tenant_id t) (tx_snapshot t) (tx_writes t) = Done (m, Inr r)"
    and nmax: "range_commit_lsn r \<noteq> Lsn_MAX"
  shows "chain_repr f (sy_log s vk @ pend (sy_inflight s) vk @ pend_of (mk_pending t r) vk) (chain_at m vk)"
proof -
  let ?p = "mk_pending t r"
  note p1 = phase1_Inr [OF p1]
  have chain: "chain_at m vk =
      (case pend_of ?p vk of [] \<Rightarrow> chain_at (sy_mgr s) vk
       | (l, v) # _ \<Rightarrow> push_version l v (chain_at (sy_mgr s) vk))"
    unfolding p1(3) chain_at_install_writes [OF inv_txn(2) [OF inv t]]
    by (simp add: pend_of_mk chain_at_def split: option.split)
  note old = inv_repr [OF inv, of vk]
  show ?thesis
  proof (cases "pend_of ?p vk = []")
    case True
    with old chain show ?thesis by simp
  next
    case False
    then obtain v where v: "pend_of ?p vk = [(rg_end r, v)]"
      by (auto simp: pend_of_mk split: option.splits if_splits)
    have empty: "pend (sy_inflight s) vk = []" by (rule install_key(1) [OF inv t p1(1) False])
    have "tm_visible (sy_mgr s) < rg_end r" by (rule le_less_trans [OF inv_bounds(1) [OF inv] p1(4)])
    then have "\<forall>x \<in> fst ` set (sy_log s vk). x < rg_end r"
      using inv_log [OF inv, where vk = vk] le_less_trans by blast
    then have "history_ok (sy_log s vk @ [(rg_end r, v)])"
      using chain.repr_history [OF old] nmax empty
      by (simp add: history_ok_snoc range_commit_lsn_def)
    with chain.repr_push [OF old [unfolded empty append_Nil2]] chain
    show ?thesis by (simp add: v empty)
  qed
qed

lemma inv_install:
  assumes inv: "sys_inv f s" and t: "sy_txns s i = Some t"
    and p1: "commit_phase1 (sy_mgr s) n (tx_tenant_id t) (tx_snapshot t) (tx_writes t) = Done (m, Inr r)"
    and nmax: "range_commit_lsn r \<noteq> Lsn_MAX"
  shows "sys_inv f (s\<lparr>sy_mgr := m, sy_txns := (sy_txns s)(i := None),
      sy_inflight := sy_inflight s @ [mk_pending t r]\<rparr>)"
proof -
  let ?p = "mk_pending t r" and ?c = "tm_counter (sy_mgr s)"
  note p1' = phase1_Inr [OF p1]
  note a = allocate_range_Done(1) [OF p1'(2)] and txn = inv_txn [OF inv t]
  note key = install_key [OF inv t p1'(1)]
  have pl: "p_lsn ?p = rg_end r" by (simp add: p_lsn_def mk_pending_def range_commit_lsn_def)
  have one: "length (pend (sy_inflight s) vk @ pend_of ?p vk) \<le> 1" for vk
  proof (cases "pend_of ?p vk = []")
    case True
    then show ?thesis using inv_one [OF inv] by simp
  next
    case False
    then show ?thesis
      using key(1) [OF False] by (simp add: pend_of_mk split: option.splits if_splits)
  qed
  have ranges: "ranges_ok (tm_install_order (sy_mgr s)) (sy_inflight s @ [?p]) (rg_end r)"
    using ranges_snoc [of _ _ ?c ?p] inv a p1'(4) pl unfolding inv_defs
    by (simp add: mk_pending_def)
  have ci: "\<forall>p \<in> set (sy_inflight s @ [?p]). distinct (map fst (p_writes p)) \<and>
      (\<forall>vk. pend_of p vk \<noteq> [] \<longrightarrow> (\<forall>x \<in> set (sy_log s vk). fst x \<le> p_snapshot p)) \<and>
      (\<not> p_index p \<longrightarrow> ((sy_txns s)(i := None)) (p_txn p) = None \<and> p_txn p < tm_next_txn_id (sy_mgr s)) \<and>
      (p_index p \<longrightarrow> p_writes p = [])"
    using inv key(2) [where r = r] txn unfolding inv_defs by (auto simp: mk_pending_def)
  show ?thesis
    using inv ranges install_repr [OF inv t p1 nmax] one ci nmax
    unfolding inv_defs by (simp add: p1'(3) range_commit_lsn_def)
qed

text \<open>Phase 3 acts on the oldest commit in flight.\<close>

lemma phase3_head:
  assumes inv: "sys_inv f s" and p: "p \<in> set (sy_inflight s)" "install_turn (sy_mgr s) (p_range p)"
  obtains ps where "sy_inflight s = p # ps" "ranges_ok (p_lsn p) ps (tm_counter (sy_mgr s))"
    "tm_install_order (sy_mgr s) < p_lsn p" "tm_visible (sy_mgr s) < p_lsn p" "f \<le> tm_visible (sy_mgr s)"
    "remove1 p (sy_inflight s) = ps" "tm_counter (sy_mgr s) \<noteq> Lsn_MAX"
proof -
  have r: "ranges_ok (tm_install_order (sy_mgr s)) (sy_inflight s) (tm_counter (sy_mgr s))"
    and fv: "f \<le> tm_visible (sy_mgr s)" and cm: "tm_counter (sy_mgr s) \<noteq> Lsn_MAX"
    using inv by (simp_all add: sys_inv_def order_inv_def)
  have turn: "\<not> tm_install_order (sy_mgr s) < range_predecessor (p_range p)"
    using p(2) by (simp add: install_turn_def)
  obtain ps where ps: "sy_inflight s = p # ps" "ranges_ok (p_lsn p) ps (tm_counter (sy_mgr s))"
    "tm_install_order (sy_mgr s) < p_lsn p"
    using turn_is_head [OF r p(1) turn] by blast
  moreover have "tm_visible (sy_mgr s) < p_lsn p" using inv_bounds(3) [OF inv] p(1) by blast
  moreover have "remove1 p (sy_inflight s) = ps" by (simp add: ps(1))
  ultimately show thesis using fv cm that by blast
qed

text \<open>What both Phase 3 outcomes keep of the bookkeeping.\<close>

lemma phase3_order:
  assumes inv: "sys_inv f s" and ps: "sy_inflight s = p # ps"
    "ranges_ok (p_lsn p) ps (tm_counter (sy_mgr s))" "tm_install_order (sy_mgr s) < p_lsn p"
    and m: "tm_install_order m = max (tm_install_order (sy_mgr s)) (p_lsn p)"
    "tm_counter m = tm_counter (sy_mgr s)" "set (tm_active m) \<subseteq> set (tm_active (sy_mgr s))"
    "tm_visible (sy_mgr s) \<le> tm_visible m" "tm_visible m \<le> p_lsn p"
  shows "order_inv f (s\<lparr>sy_mgr := m, sy_inflight := ps, sy_log := lg\<rparr>)"
proof -
  have o: "order_inv f s" using inv by (simp add: sys_inv_def)
  have io: "tm_install_order m = p_lsn p" using m(1) ps(3) by (simp add: max_absorb2 less_imp_le)
  have act: "\<forall>x \<in> set (tm_active m). f \<le> snd x \<and> snd x \<le> tm_visible m"
    using o m(3,4) unfolding order_inv_def by (blast intro: order_trans)
  have "f \<le> tm_visible m" using o m(4) unfolding order_inv_def by (blast intro: order_trans)
  with o act io ps(2) m(2,5) show ?thesis unfolding order_inv_def by simp
qed

lemma phase3_txns:
  assumes inv: "sys_inv f s" and m: "tm_next_txn_id m = tm_next_txn_id (sy_mgr s)"
    "\<And>i t. sy_txns s i = Some t \<Longrightarrow> map_of (tm_active m) i = map_of (tm_active (sy_mgr s)) i"
  shows "txn_inv (s\<lparr>sy_mgr := m, sy_inflight := ps, sy_log := lg\<rparr>)"
  using inv m unfolding inv_defs by auto

lemma inv_publish_core:
  assumes inv: "sys_inv f s" and p: "p \<in> set (sy_inflight s)" "install_turn (sy_mgr s) (p_range p)"
    and gate: "side_gate (sy_inflight s) side"
    and m: "\<And>vk. chain_at m vk = (case map_of (side_assoc side) vk of
        Some v \<Rightarrow> push_version (p_lsn p) v (chain_at (sy_mgr s) vk) | None \<Rightarrow> chain_at (sy_mgr s) vk)"
    "tm_visible m = p_lsn p" "tm_install_order m = max (tm_install_order (sy_mgr s)) (p_lsn p)"
    "tm_counter m = tm_counter (sy_mgr s)" "tm_next_txn_id m = tm_next_txn_id (sy_mgr s)"
    "set (tm_active m) \<subseteq> set (tm_active (sy_mgr s))"
    "\<And>i t. sy_txns s i = Some t \<Longrightarrow> map_of (tm_active m) i = map_of (tm_active (sy_mgr s)) i"
  shows "sys_inv f (s\<lparr>sy_mgr := m, sy_inflight := remove1 p (sy_inflight s),
      sy_log := (\<lambda>vk. sy_log s vk @ pend_of p vk @ side_of (p_lsn p) side vk)\<rparr>)"
proof -
  obtain ps where ps: "sy_inflight s = p # ps" "ranges_ok (p_lsn p) ps (tm_counter (sy_mgr s))"
    "tm_install_order (sy_mgr s) < p_lsn p" "tm_visible (sy_mgr s) < p_lsn p"
    "f \<le> tm_visible (sy_mgr s)" "remove1 p (sy_inflight s) = ps" "tm_counter (sy_mgr s) \<noteq> Lsn_MAX"
    using phase3_head [OF inv p] by blast
  let ?log = "\<lambda>vk. sy_log s vk @ pend_of p vk @ side_of (p_lsn p) side vk"
  have lm: "p_lsn p \<noteq> Lsn_MAX"
    using inv_bounds(3) [OF inv] p(1) ps(7) by auto
  have side: "pend_of p vk = [] \<and> pend ps vk = []" if "side_of (p_lsn p) side vk \<noteq> []" for vk
  proof -
    from that obtain v where "map_of (side_assoc side) vk = Some v"
      by (cases "map_of (side_assoc side) vk") (simp_all add: side_of_def)
    then have "vk \<in> fst ` set (side_assoc side)" by (force dest: map_of_SomeD)
    with gate ps(1) show ?thesis by (auto simp: side_gate_def)
  qed
  have repr: "chain_repr f (?log vk @ pend ps vk) (chain_at m vk)" for vk
  proof (cases "map_of (side_assoc side) vk")
    case None
    then show ?thesis using inv_repr [OF inv, of vk] m(1) [of vk] by (simp add: ps(1) side_of_def)
  next
    case (Some v)
    then have so: "side_of (p_lsn p) side vk = [(p_lsn p, v)]" by (simp add: side_of_def)
    with side [of vk] have e: "pend_of p vk = []" "pend ps vk = []" by simp_all
    have old: "chain_repr f (sy_log s vk) (chain_at (sy_mgr s) vk)"
      using inv_repr [OF inv, of vk] by (simp add: ps(1) e)
    have "\<forall>x \<in> fst ` set (sy_log s vk). x < p_lsn p"
      using inv_log [OF inv, where vk = vk] ps(4) le_less_trans by blast
    then have "history_ok (sy_log s vk @ [(p_lsn p, v)])"
      using chain.repr_history [OF old] lm by (simp add: history_ok_snoc)
    from chain.repr_push [OF old this] show ?thesis by (simp add: m(1) Some so e)
  qed
  have log: "fst x \<le> p_lsn p" if "x \<in> set (?log vk)" for x vk
  proof -
    have "fst y \<le> p_lsn p" if "y \<in> set (sy_log s vk)" for y
      using inv_log [OF inv that] ps(4) by simp
    moreover have "fst y = p_lsn p" if "y \<in> set (side_of (p_lsn p) side vk)" for y
      using that by (auto simp: side_of_def split: option.splits)
    moreover have "x \<in> set (sy_log s vk) \<or> x \<in> set (pend_of p vk) \<or>
        x \<in> set (side_of (p_lsn p) side vk)"
      using that by simp
    ultimately show ?thesis using pend_of_mem [of x p vk] by (metis order_refl)
  qed
  have one: "length (pend ps vk) \<le> 1" for vk using inv_one [OF inv, of vk] by (simp add: ps(1))
  have snap: "\<forall>x \<in> set (?log vk). fst x \<le> p_snapshot q" if q: "q \<in> set ps" "pend_of q vk \<noteq> []" for q vk
  proof -
    have ne: "pend ps vk \<noteq> []" using q by (auto simp: pend_def)
    then have "pend_of p vk = []" using inv_one [OF inv, of vk] by (cases "pend ps vk") (auto simp: ps(1))
    moreover have "side_of (p_lsn p) side vk = []" using side ne by blast
    moreover have "\<forall>x \<in> set (sy_log s vk). fst x \<le> p_snapshot q"
      using inv_snap [OF inv _ q(2)] q(1) ps(1) by simp
    ultimately show ?thesis by simp
  qed
  have "store_inv f (s\<lparr>sy_mgr := m, sy_inflight := ps, sy_log := ?log\<rparr>)"
    unfolding store_inv_def using repr log one by (simp add: m(2))
  moreover have "commit_inv (s\<lparr>sy_mgr := m, sy_inflight := ps, sy_log := ?log\<rparr>)"
    using inv snap ps(1) m(5) unfolding sys_inv_def commit_inv_def by simp
  moreover have "order_inv f (s\<lparr>sy_mgr := m, sy_inflight := ps, sy_log := ?log\<rparr>)"
    by (rule phase3_order [OF inv ps(1-3)]) (use m ps(4) in simp_all)
  moreover have "txn_inv (s\<lparr>sy_mgr := m, sy_inflight := ps, sy_log := ?log\<rparr>)"
    by (rule phase3_txns [OF inv m(5,7)])
  ultimately show ?thesis by (simp add: sys_inv_def ps(6))
qed

lemma inv_undo_core:
  assumes inv: "sys_inv f s" and p: "p \<in> set (sy_inflight s)" "install_turn (sy_mgr s) (p_range p)"
    and m: "\<And>vk. chain_at m vk = (if pend_of p vk \<noteq> [] then rollback_chain (p_lsn p) (chain_at (sy_mgr s) vk)
        else chain_at (sy_mgr s) vk)"
    "tm_visible m = tm_visible (sy_mgr s)"
    "tm_install_order m = max (tm_install_order (sy_mgr s)) (p_lsn p)"
    "tm_counter m = tm_counter (sy_mgr s)" "tm_next_txn_id m = tm_next_txn_id (sy_mgr s)"
    "set (tm_active m) \<subseteq> set (tm_active (sy_mgr s))"
    "\<And>i t. sy_txns s i = Some t \<Longrightarrow> map_of (tm_active m) i = map_of (tm_active (sy_mgr s)) i"
  shows "sys_inv f (s\<lparr>sy_mgr := m, sy_inflight := remove1 p (sy_inflight s)\<rparr>)"
proof -
  obtain ps where ps: "sy_inflight s = p # ps" "ranges_ok (p_lsn p) ps (tm_counter (sy_mgr s))"
    "tm_install_order (sy_mgr s) < p_lsn p" "tm_visible (sy_mgr s) < p_lsn p"
    "f \<le> tm_visible (sy_mgr s)" "remove1 p (sy_inflight s) = ps"
    using phase3_head [OF inv p] by blast
  have repr: "chain_repr f (sy_log s vk @ pend ps vk) (chain_at m vk)" for vk
  proof (cases "pend_of p vk")
    case Nil
    then show ?thesis using inv_repr [OF inv, of vk] by (simp add: ps(1) m(1))
  next
    case (Cons x xs)
    then have e: "pend ps vk = []" "xs = []" using inv_one [OF inv, of vk] by (simp_all add: ps(1))
    have "fst x = p_lsn p" using pend_of_mem [of x p vk] Cons by simp
    then obtain v where x: "x = (p_lsn p, v)" by (cases x) simp
    have "f < p_lsn p" using ps(4,5) by (rule order_le_less_trans [rotated])
    with inv_repr [OF inv, of vk] show ?thesis
      using chain.repr_pop [of f "sy_log s vk" "p_lsn p" v] by (simp add: ps(1) Cons e x m(1))
  qed
  have one: "length (pend ps vk) \<le> 1" for vk using inv_one [OF inv, of vk] by (simp add: ps(1))
  have "store_inv f (s\<lparr>sy_mgr := m, sy_inflight := ps, sy_log := sy_log s\<rparr>)"
    unfolding store_inv_def using repr one inv_log [OF inv] by (simp add: m(2))
  moreover have "commit_inv (s\<lparr>sy_mgr := m, sy_inflight := ps, sy_log := sy_log s\<rparr>)"
    using inv ps(1) m(5) unfolding sys_inv_def commit_inv_def by simp
  moreover have "order_inv f (s\<lparr>sy_mgr := m, sy_inflight := ps, sy_log := sy_log s\<rparr>)"
    by (rule phase3_order [OF inv ps(1-3)]) (use m ps(4) in simp_all)
  moreover have "txn_inv (s\<lparr>sy_mgr := m, sy_inflight := ps, sy_log := sy_log s\<rparr>)"
    by (rule phase3_txns [OF inv m(5,7)])
  ultimately show ?thesis by (simp add: sys_inv_def ps(6))
qed

lemma active_other:
  assumes inv: "sys_inv f s" and p: "p \<in> set (sy_inflight s)" "\<not> p_index p"
    and t: "sy_txns s i = Some t"
  shows "map_of (tm_active (abort_txn (p_txn p) m)) i = map_of (tm_active m) i"
proof -
  have "sy_txns s (p_txn p) = None" using inv p unfolding sys_inv_def commit_inv_def by blast
  with t have "i \<noteq> p_txn p" by auto
  then show ?thesis by (simp add: map_of_abort)
qed

lemma inv_publish:
  assumes inv: "sys_inv f s" and p: "p \<in> set (sy_inflight s)" "\<not> p_index p"
    "install_turn (sy_mgr s) (p_range p)" and gate: "side_gate (sy_inflight s) side"
  shows "\<exists>f'. sys_inv f' (s\<lparr>sy_mgr := commit_publish (p_txn p) (p_range p) side (sy_mgr s),
      sy_inflight := remove1 p (sy_inflight s),
      sy_log := (\<lambda>vk. sy_log s vk @ pend_of p vk @ side_of (p_lsn p) side vk)\<rparr>)"
proof -
  let ?m1 = "fold (apply_sidechannel_mvcc_write (p_lsn p)) side (sy_mgr s)"
  let ?m = "abort_txn (p_txn p) (advance_install_order (p_lsn p) (?m1\<lparr>tm_visible := p_lsn p\<rparr>))"
  let ?s = "s\<lparr>sy_mgr := ?m, sy_inflight := remove1 p (sy_inflight s),
      sy_log := (\<lambda>vk. sy_log s vk @ pend_of p vk @ side_of (p_lsn p) side vk)\<rparr>"
  have d: "distinct (map fst (side_assoc side))" using gate by (simp add: side_gate_def)
  have chain1: "chain_at (x\<lparr>tm_visible := l\<rparr>) vk = chain_at x vk" for x l vk
    by (simp add: chain_at_def)
  have act: "set (tm_active ?m) \<subseteq> set (tm_active (sy_mgr s))"
    using set_abort [of "p_txn p" "advance_install_order (p_lsn p) (?m1\<lparr>tm_visible := p_lsn p\<rparr>)"]
    by simp
  have "sys_inv f ?s"
    by (rule inv_publish_core [OF inv p(1,3) gate])
      (use act active_other [OF inv p(1,2)] in \<open>simp_all add: chain1 chain_at_sidechannel [OF d]\<close>)
  from inv_maybe_drive_gc [OF this] obtain f' where "sys_inv f' (?s\<lparr>sy_mgr := maybe_drive_gc ?m\<rparr>)"
    by auto
  moreover have "?s\<lparr>sy_mgr := maybe_drive_gc ?m\<rparr> =
      s\<lparr>sy_mgr := commit_publish (p_txn p) (p_range p) side (sy_mgr s),
        sy_inflight := remove1 p (sy_inflight s),
        sy_log := (\<lambda>vk. sy_log s vk @ pend_of p vk @ side_of (p_lsn p) side vk)\<rparr>"
    by (intro sys.equality) (simp_all add: commit_publish_def Let_def p_lsn_def)
  ultimately show ?thesis by metis
qed

lemma inv_undo:
  assumes inv: "sys_inv f s" and p: "p \<in> set (sy_inflight s)" "\<not> p_index p"
    "install_turn (sy_mgr s) (p_range p)"
  shows "sys_inv f (s\<lparr>sy_mgr := commit_undo (p_txn p) (p_tenant p) (p_range p) (p_writes p) (sy_mgr s),
      sy_inflight := remove1 p (sy_inflight s)\<rparr>)"
proof -
  let ?m1 = "advance_install_order (p_lsn p) (rollback_writes (p_tenant p) (p_lsn p) (p_writes p) (sy_mgr s))"
  have d: "distinct (map fst (p_writes p))"
    using inv p(1) unfolding sys_inv_def commit_inv_def by blast
  have written: "pend_of p vk \<noteq> [] \<longleftrightarrow> fst vk = p_tenant p \<and> snd vk \<in> fst ` set (p_writes p)" for vk
    using map_of_eq_None_iff [of "p_writes p" "snd vk"]
    by (cases "map_of (p_writes p) (snd vk)") (simp_all add: pend_of_def)
  have act: "set (tm_active (abort_txn (p_txn p) ?m1)) \<subseteq> set (tm_active (sy_mgr s))"
    using set_abort [of "p_txn p" ?m1] by simp
  have "sys_inv f (s\<lparr>sy_mgr := abort_txn (p_txn p) ?m1, sy_inflight := remove1 p (sy_inflight s)\<rparr>)"
    by (rule inv_undo_core [OF inv p(1,3)])
      (use act active_other [OF inv p(1,2)] in
        \<open>simp_all add: chain_at_rollback_writes [OF d] written\<close>)
  then show ?thesis by (simp add: commit_undo_def Let_def p_lsn_def)
qed

lemma inv_index_start:
  assumes inv: "sys_inv f s" and st: "index_pages_start (sy_mgr s) False side = Done (m, Inr (Some r))"
    and nmax: "range_commit_lsn r \<noteq> Lsn_MAX"
  shows "sys_inv f (s\<lparr>sy_mgr := m, sy_inflight := sy_inflight s @ [mk_index r]\<rparr>)"
proof -
  let ?p = "mk_index r" and ?c = "tm_counter (sy_mgr s)"
  have al: "allocate_range ?c 1 = Done (rg_end r, r)" and m: "m = (sy_mgr s)\<lparr>tm_counter := rg_end r\<rparr>"
    using st allocate_range_Done(4)
    by (auto simp: index_pages_start_def bind_run_Done_iff split: if_splits)
  note a = allocate_range_Done [OF al]
  have L: "?c < rg_end r" using a(2,3) by simp
  have p: "p_lsn ?p = rg_end r" "p_range ?p = r" "p_writes ?p = []" "p_index ?p"
    by (simp_all add: p_lsn_def mk_index_def range_commit_lsn_def)
  have po: "pend_of ?p vk = []" for vk by (rule pend_of_index [OF p(3)])
  have "ranges_ok (tm_install_order (sy_mgr s)) (sy_inflight s @ [?p]) (rg_end r)"
    using ranges_snoc [of _ _ ?c ?p] inv a(1) L p unfolding inv_defs by simp
  moreover have "chain_at m vk = chain_at (sy_mgr s) vk" for vk by (simp add: m chain_at_def)
  ultimately show ?thesis
    using inv po p nmax unfolding inv_defs by (simp add: m range_commit_lsn_def)
qed

lemma index_no_pend:
  "sys_inv f s \<Longrightarrow> p \<in> set (sy_inflight s) \<Longrightarrow> p_index p \<Longrightarrow> pend_of p vk = []"
  unfolding sys_inv_def commit_inv_def by (blast intro: pend_of_index)

lemma inv_index_publish:
  assumes inv: "sys_inv f s" and p: "p \<in> set (sy_inflight s)" "p_index p"
    "install_turn (sy_mgr s) (p_range p)" and gate: "side_gate (sy_inflight s) side"
    and fin: "index_pages_finish (p_range p) side None (sy_mgr s) = (m, res)"
  shows "sys_inv f (s\<lparr>sy_mgr := m, sy_inflight := remove1 p (sy_inflight s),
      sy_log := (\<lambda>vk. sy_log s vk @ side_of (p_lsn p) side vk)\<rparr>)"
proof -
  have d: "distinct (map fst (side_assoc side))" using gate by (simp add: side_gate_def)
  have m: "m = advance_install_order (p_lsn p)
      ((fold (apply_sidechannel_mvcc_write (p_lsn p)) side (sy_mgr s))\<lparr>tm_visible := p_lsn p\<rparr>)"
    using fin by (simp add: index_pages_finish_def Let_def p_lsn_def)
  have chain1: "chain_at (x\<lparr>tm_visible := l\<rparr>) vk = chain_at x vk" for x l vk
    by (simp add: chain_at_def)
  have "sys_inv f (s\<lparr>sy_mgr := m, sy_inflight := remove1 p (sy_inflight s),
      sy_log := (\<lambda>vk. sy_log s vk @ pend_of p vk @ side_of (p_lsn p) side vk)\<rparr>)"
    by (rule inv_publish_core [OF inv p(1,3) gate])
      (simp_all add: m chain1 chain_at_sidechannel [OF d])
  then show ?thesis using index_no_pend [OF inv p(1,2)] by simp
qed

lemma inv_index_fail:
  assumes inv: "sys_inv f s" and p: "p \<in> set (sy_inflight s)" "p_index p"
    "install_turn (sy_mgr s) (p_range p)"
    and fin: "index_pages_finish (p_range p) side (Some e) (sy_mgr s) = (m, res)"
  shows "sys_inv f (s\<lparr>sy_mgr := m, sy_inflight := remove1 p (sy_inflight s)\<rparr>)"
proof -
  have m: "m = advance_install_order (p_lsn p) (sy_mgr s)"
    using fin by (simp add: index_pages_finish_def Let_def p_lsn_def)
  show ?thesis
    by (rule inv_undo_core [OF inv p(1,3)])
      (simp_all add: m index_no_pend [OF inv p(1,2)])
qed

lemma distinct_writes:
  "distinct (map fst (tx_writes t)) \<Longrightarrow> distinct (map fst (tx_writes (Transaction_write k v t)))"
  "distinct (map fst (tx_writes t)) \<Longrightarrow> distinct (map fst (tx_writes (Transaction_delete k t)))"
  by (simp_all add: Transaction_write_def Transaction_delete_def distinct_update)

lemma inv_conflict:
  assumes "sys_inv f s" "commit_phase1 (sy_mgr s) n tenant sn ws = Done (m, Inl e)"
  shows "sys_inv f (s\<lparr>sy_mgr := abort_txn i m, sy_txns := (sy_txns s)(i := None)\<rparr>)"
proof -
  have "m = sy_mgr s"
    using assms(2) by (auto simp: commit_phase1_def bind_run_Done_iff split: if_splits)
  with inv_finish [OF assms(1)] show ?thesis by simp
qed

lemma inv_step: "txn_step s s' \<Longrightarrow> sys_inv f s \<Longrightarrow> \<exists>f'. sys_inv f' s'"
proof (induction rule: txn_step.induct)
  case (buffer_write s i t k v)
  then have "distinct (map fst (tx_writes t))" unfolding sys_inv_def txn_inv_def by blast
  then have "sys_inv f (s\<lparr>sy_txns := (sy_txns s)(i \<mapsto> Transaction_write k v t)\<rparr>)"
    by (intro inv_buffer [OF buffer_write.prems buffer_write.hyps])
      (simp_all add: distinct_writes Transaction_write_def distinct_update)
  then show ?case by blast
next
  case (buffer_delete s i t k)
  then have "distinct (map fst (tx_writes t))" unfolding sys_inv_def txn_inv_def by blast
  then have "sys_inv f (s\<lparr>sy_txns := (sy_txns s)(i \<mapsto> Transaction_delete k t)\<rparr>)"
    by (intro inv_buffer [OF buffer_delete.prems buffer_delete.hyps])
      (simp_all add: distinct_writes Transaction_delete_def distinct_update)
  then show ?case by blast
qed (blast intro: inv_begin inv_finish inv_conflict inv_install inv_publish inv_undo inv_index_start
    inv_index_publish inv_index_fail inv_gc)+

lemma inv_reach: "txn_step\<^sup>*\<^sup>* s s' \<Longrightarrow> sys_inv f s \<Longrightarrow> \<exists>f'. sys_inv f' s'"
  by (induction arbitrary: f rule: converse_rtranclp_induct) (blast dest: inv_step)+

lemma inv_reachable: "reachable s \<Longrightarrow> \<exists>f. sys_inv f s"
  unfolding reachable_def using inv_reach inv_init by blast

lemma reachable_reach: "reachable s \<Longrightarrow> txn_step\<^sup>*\<^sup>* s s' \<Longrightarrow> reachable s'"
  unfolding reachable_def by (meson rtranclp_trans)

end
