(* ===== verification/Txn_Isolation.thy ===== *)
theory Txn_Isolation
  imports Txn_System
begin

text \<open>
  What the transaction manager promises its clients, for every state that the step relation of
  \<open>Txn_System\<close> reaches: snapshot reads and their stability, first-committer-wins validation,
  undo, publication in LSN order, drain of the commits in flight, reclaim, the complete scan of a tenant, and
  the rebuild of the store from the log. An executable scheduler, sound for the step relation,
  runs the concrete schedules.
\<close>

section \<open>Schedules\<close>

datatype action =
    Begin TenantId
  | Write nat MvccKey bytes
  | Delete nat MvccKey
  | Finish nat
  | Install nat nat
  | Publish "SideChannelWrite list"
  | Undo
  | Reclaim

fun exec :: "action \<Rightarrow> sys \<Rightarrow> sys" where
  "exec (Begin tenant) s =
     (case TxnManager_begin tenant (sy_mgr s) of
        (m, t) \<Rightarrow> s\<lparr>sy_mgr := m, sy_txns := (sy_txns s)(tx_txn_id t \<mapsto> t)\<rparr>)"
| "exec (Write i k v) s =
     (case sy_txns s i of
        None \<Rightarrow> s
      | Some t \<Rightarrow> s\<lparr>sy_txns := (sy_txns s)(i \<mapsto> Transaction_write k v t)\<rparr>)"
| "exec (Delete i k) s =
     (case sy_txns s i of
        None \<Rightarrow> s
      | Some t \<Rightarrow> s\<lparr>sy_txns := (sy_txns s)(i \<mapsto> Transaction_delete k t)\<rparr>)"
| "exec (Finish i) s =
     (case sy_txns s i of
        None \<Rightarrow> s
      | Some t \<Rightarrow> s\<lparr>sy_mgr := abort_txn i (sy_mgr s), sy_txns := (sy_txns s)(i := None)\<rparr>)"
| "exec (Install i n) s =
     (case sy_txns s i of
        None \<Rightarrow> s
      | Some t \<Rightarrow>
          (case commit_phase1 (sy_mgr s) n (tx_tenant_id t) (tx_snapshot t) (tx_writes t) of
             Panicked \<Rightarrow> s
           | Done (m, Inl e) \<Rightarrow> s\<lparr>sy_mgr := abort_txn i m, sy_txns := (sy_txns s)(i := None)\<rparr>
           | Done (m, Inr r) \<Rightarrow>
               if range_commit_lsn r = Lsn_MAX then s
               else s\<lparr>sy_mgr := m, sy_txns := (sy_txns s)(i := None),
                      sy_inflight := sy_inflight s @ [mk_pending t r]\<rparr>))"
| "exec (Publish side) s =
     (case sy_inflight s of
        [] \<Rightarrow> s
      | p # ps \<Rightarrow>
          if \<not> p_index p \<and> install_turn (sy_mgr s) (p_range p) \<and> side_gate (sy_inflight s) side
          then s\<lparr>sy_mgr := commit_publish (p_txn p) (p_range p) side (sy_mgr s),
                 sy_inflight := remove1 p (sy_inflight s),
                 sy_log := (\<lambda>vk. sy_log s vk @ pend_of p vk @ side_of (p_lsn p) side vk)\<rparr>
          else s)"
| "exec Undo s =
     (case sy_inflight s of
        [] \<Rightarrow> s
      | p # ps \<Rightarrow>
          if \<not> p_index p \<and> install_turn (sy_mgr s) (p_range p)
          then s\<lparr>sy_mgr := commit_undo (p_txn p) (p_tenant p) (p_range p) (p_writes p) (sy_mgr s),
                 sy_inflight := remove1 p (sy_inflight s)\<rparr>
          else s)"
| "exec Reclaim s = s\<lparr>sy_mgr := gc (sy_mgr s)\<rparr>"

lemma exec_step: "exec a s = s \<or> txn_step s (exec a s)"
proof (cases a)
  case (Begin tenant)
  then show ?thesis
    by (cases "TxnManager_begin tenant (sy_mgr s)") (simp add: txn_step.begin_txn)
next
  case (Install i n)
  show ?thesis
  proof (cases "sy_txns s i")
    case (Some t)
    show ?thesis
    proof (cases "commit_phase1 (sy_mgr s) n (tx_tenant_id t) (tx_snapshot t) (tx_writes t)")
      case (Done x)
      obtain m y where x: "x = (m, y)" by fastforce
      show ?thesis
        by (cases y) (use Some Done Install x in \<open>auto intro: txn_step.conflict txn_step.install\<close>)
    qed (simp add: Install Some)
  qed (simp add: Install)
next
  case (Publish side)
  show ?thesis
  proof (cases "sy_inflight s")
    case (Cons p ps)
    then have "p \<in> set (sy_inflight s)" by simp
    from txn_step.publish [OF this] Publish Cons show ?thesis by simp
  qed (simp add: Publish)
next
  case Undo
  show ?thesis
  proof (cases "sy_inflight s")
    case (Cons p ps)
    then have "p \<in> set (sy_inflight s)" by simp
    from txn_step.undo [OF this] Undo Cons show ?thesis by simp
  qed (simp add: Undo)
qed (auto split: option.split intro: txn_step.intros(2-4,12))

lemma exec_reach: "txn_step\<^sup>*\<^sup>* s (fold exec as s)"
proof (induction as arbitrary: s)
  case (Cons a as)
  have "txn_step\<^sup>*\<^sup>* s (exec a s)" using exec_step [of a s] by auto
  with Cons show ?case by (simp add: rtranclp_trans)
qed simp

lemma exec_reachable: "reachable (fold exec as (sys_init interval))"
  unfolding reachable_def using exec_reach by blast

text \<open>A schedule: transactions 1 and 2 begin, 1 writes key 7 and installs it; at this point
  its commit is in flight. Then it is published, 3 begins, overwrites the key and commits as well, and
  GC runs.\<close>

definition demo_inflight :: sys where
  "demo_inflight = fold exec [Begin 1, Begin 1, Write 1 7 [1], Install 1 1] (sys_init 0)"

definition demo_published :: sys where
  "demo_published = fold exec [Publish [], Begin 1] demo_inflight"

definition demo_later :: sys where
  "demo_later = fold exec [Write 3 7 [2], Begin 1, Install 3 1, Publish [], Reclaim] demo_published"

lemmas mgr_eval = begin_bump_def begin_sentinel_def begin_publish_def begin_inner_def TxnManager_begin_def
  Transaction_write_def Transaction_delete_def commit_phase1_def occ_conflict_def key_conflicts_def
  allocate_range_def checked_add_def RedoLsnRange_new_def install_writes_def install_write_def
  register_chain_key_def chain_at_def push_version_def expire_last_def range_commit_lsn_def
  install_turn_def range_predecessor_def advance_install_order_def commit_publish_def abort_txn_def
  maybe_drive_gc_def is_live_def sys_init_def with_gc_drive_interval_def TxnManager_new_def
  LsnCounter_new_def Lsn_ZERO_def mk_pending_def side_gate_def side_assoc_def pend_of_def side_of_def
  p_lsn_def Let_def Lsn_MAX_def

lemmas demo_eval = demo_inflight_def demo_published_def demo_later_def mgr_eval

lemma demo_reachable:
  "reachable demo_inflight" "reachable demo_published" "reachable demo_later"
  "txn_step\<^sup>*\<^sup>* demo_published demo_later"
proof -
  show i: "reachable demo_inflight" by (simp only: demo_inflight_def exec_reachable)
  show p: "reachable demo_published"
    unfolding demo_published_def by (rule reachable_reach [OF i exec_reach])
  show "txn_step\<^sup>*\<^sup>* demo_published demo_later" unfolding demo_later_def by (rule exec_reach)
  then show "reachable demo_later" by (rule reachable_reach [OF p])
qed

lemma demo_values:
  "map_option tx_snapshot (sy_txns demo_published 2) = Some 0"
  "map_option tx_snapshot (sy_txns demo_published 3) = Some 1"
  "map_option tx_tenant_id (sy_txns demo_published 2) = Some 1"
  "map_option tx_tenant_id (sy_txns demo_published 3) = Some 1"
  "map_option tx_writes (sy_txns demo_published 2) = Some []"
  "map_option tx_writes (sy_txns demo_published 3) = Some []"
  "sy_log demo_published (1, 7) = [(1, Some [1])]"
  "map_option tx_snapshot (sy_txns demo_later 2) = Some 0"
  "sy_log demo_later (1, 7) = [(1, Some [1]), (2, Some [2])]"
  by (simp_all add: demo_eval)

section \<open>Snapshots\<close>

lemma asof_above: "\<forall>x \<in> set q. s < fst x \<Longrightarrow> asof (h @ q) s = asof h s"
proof (induction q rule: rev_induct)
  case (snoc x q)
  then show ?case by (cases x) (auto simp: asof_snoc simp flip: append_assoc)
qed simp

lemma asof_later:
  assumes "\<forall>x \<in> set h. fst x \<le> s" "s \<le> s'"
  shows "asof h s' = asof h s"
  using assms
proof (induction h rule: rev_induct)
  case (snoc x h)
  then show ?case by (cases x) (auto simp: asof_snoc)
qed simp

lemma read_asof:
  assumes inv: "sys_inv f s" and sn: "f \<le> sn" "sn \<le> tm_visible (sy_mgr s)"
  shows "read_at (sy_mgr s) tenant key sn = asof (sy_log s (tenant, key)) sn"
proof -
  have "sn \<noteq> Lsn_MAX" using sn(2) inv_bounds(2) [OF inv] by auto
  from chain.repr_reads [OF inv_repr [OF inv] sn(1) this]
  have "read_at (sy_mgr s) tenant key sn =
      asof (sy_log s (tenant, key) @ pend (sy_inflight s) (tenant, key)) sn"
    by (simp add: read_at_chain)
  also have "\<dots> = asof (sy_log s (tenant, key)) sn"
    using inv_bounds(4) [OF inv] sn(2) by (intro asof_above) (blast intro: le_less_trans)
  finally show ?thesis .
qed

lemma inv_floor: "sys_inv f s \<Longrightarrow> f \<le> tm_visible (sy_mgr s)"
  unfolding inv_defs by blast




section \<open>Growth of the log\<close>

lemma maybe_drive_gc_fields [simp]:
  "tm_visible (maybe_drive_gc m) = tm_visible m" "tm_counter (maybe_drive_gc m) = tm_counter m"
  "tm_next_txn_id (maybe_drive_gc m) = tm_next_txn_id m" "tm_active (maybe_drive_gc m) = tm_active m"
  "tm_install_order (maybe_drive_gc m) = tm_install_order m"
  by (simp_all add: maybe_drive_gc_def gc_def Let_def)

lemma commit_publish_fields [simp]:
  "tm_visible (commit_publish i r side m) = range_commit_lsn r"
  "tm_next_txn_id (commit_publish i r side m) = tm_next_txn_id m"
  "tm_counter (commit_publish i r side m) = tm_counter m"
  "tm_install_order (commit_publish i r side m) = max (tm_install_order m) (range_commit_lsn r)"
  by (simp_all add: commit_publish_def Let_def)

lemma commit_undo_fields [simp]:
  "tm_visible (commit_undo i t r ws m) = tm_visible m"
  "tm_next_txn_id (commit_undo i t r ws m) = tm_next_txn_id m"
  by (simp_all add: commit_undo_def Let_def)

lemma side_of_mem: "x \<in> set (side_of c side vk) \<Longrightarrow> fst x = c"
  by (auto simp: side_of_def split: option.splits)

lemma step_log:
  assumes "txn_step s s'" "sys_inv f s"
  shows "\<exists>e. sy_log s' vk = sy_log s vk @ e \<and> (\<forall>x \<in> set e. tm_visible (sy_mgr s) < fst x)"
  using assms
proof (induction rule: txn_step.induct)
  case (publish p s side)
  have "tm_visible (sy_mgr s) < p_lsn p" using inv_bounds(3) [OF publish.prems] publish.hyps(1) by blast
  then show ?case
    by (intro exI [of _ "pend_of p vk @ side_of (p_lsn p) side vk"])
      (auto dest: pend_of_mem side_of_mem)
next
  case (index_publish p s side m res)
  have "tm_visible (sy_mgr s) < p_lsn p"
    using inv_bounds(3) [OF index_publish.prems] index_publish.hyps(1) by blast
  then show ?case
    by (intro exI [of _ "side_of (p_lsn p) side vk"]) (auto dest: side_of_mem)
qed simp_all

lemma step_txn:
  assumes "txn_step s s'"
  shows "tm_next_txn_id (sy_mgr s) \<le> tm_next_txn_id (sy_mgr s')"
    "i < tm_next_txn_id (sy_mgr s) \<Longrightarrow> sy_txns s' i = Some t' \<Longrightarrow>
       \<exists>t. sy_txns s i = Some t \<and> tx_snapshot t = tx_snapshot t' \<and> tx_tenant_id t = tx_tenant_id t'"
  using assms
  by (induction rule: txn_step.induct)
    (auto simp: TxnManager_begin_def begin_inner_def begin_bump_def begin_sentinel_def begin_publish_def
      Let_def commit_phase1_def index_pages_start_def index_pages_finish_def bind_run_Done_iff gc_def
      Transaction_write_def Transaction_delete_def
      split: if_splits option.splits)

lemma reach_stable:
  assumes "txn_step\<^sup>*\<^sup>* s s'" "reachable s" "sy_txns s' i = Some t'" "i < tm_next_txn_id (sy_mgr s)"
  shows "\<exists>t. sy_txns s i = Some t \<and> tx_snapshot t = tx_snapshot t' \<and> tx_tenant_id t = tx_tenant_id t' \<and>
    (\<forall>vk. asof (sy_log s' vk) (tx_snapshot t) = asof (sy_log s vk) (tx_snapshot t))"
  using assms
proof (induction rule: converse_rtranclp_induct)
  case (step s u)
  obtain f where inv: "sys_inv f s" using inv_reachable [OF step.prems(1)] by blast
  have "reachable u" using step reachable_reach by blast
  moreover have "i < tm_next_txn_id (sy_mgr u)" using step_txn(1) [OF step.hyps(1)] step.prems(3) by simp
  ultimately obtain t where t: "sy_txns u i = Some t" "tx_snapshot t = tx_snapshot t'"
    "tx_tenant_id t = tx_tenant_id t'"
    "\<forall>vk. asof (sy_log s' vk) (tx_snapshot t) = asof (sy_log u vk) (tx_snapshot t)"
    using step.IH step.prems(2) by blast
  obtain t0 where t0: "sy_txns s i = Some t0" "tx_snapshot t0 = tx_snapshot t"
    "tx_tenant_id t0 = tx_tenant_id t"
    using step_txn(2) [OF step.hyps(1) step.prems(3) t(1)] by blast
  have "asof (sy_log u vk) (tx_snapshot t) = asof (sy_log s vk) (tx_snapshot t)" for vk
  proof -
    obtain e where e: "sy_log u vk = sy_log s vk @ e" "\<forall>x \<in> set e. tm_visible (sy_mgr s) < fst x"
      using step_log [OF step.hyps(1) inv] by blast
    have "tx_snapshot t \<le> tm_visible (sy_mgr s)" using inv_txn(5) [OF inv t0(1)] t0(2) by simp
    with e show ?thesis by (simp add: asof_above le_less_trans)
  qed
  with t t0 show ?case by auto
qed simp



section \<open>Validation and undo\<close>

lemma key_conflict_iff:
  assumes inv: "sys_inv f s" and snap: "sn \<le> tm_visible (sy_mgr s)"
  shows "key_conflicts (sy_mgr s) tenant sn key \<longleftrightarrow>
    pend (sy_inflight s) (tenant, key) \<noteq> [] \<or> (\<exists>x \<in> set (sy_log s (tenant, key)). sn < fst x)"
proof
  assume "key_conflicts (sy_mgr s) tenant sn key"
  then obtain l where l: "chain_newest (chain_at (sy_mgr s) (tenant, key)) = Some l" "sn < l"
    by (auto simp: key_conflicts_newest)
  let ?h = "sy_log s (tenant, key) @ pend (sy_inflight s) (tenant, key)"
  note repr = inv_repr [OF inv, of "(tenant, key)"]
  have "?h \<noteq> []" using l(1) repr by (auto simp: chain_newest_def chain_repr_def)
  then obtain h k v where h: "?h = h @ [(k, v)]" by (metis rev_exhaust surj_pair)
  have "k = l" using chain.repr_newest repr l(1) h by fastforce
  then have "(l, v) \<in> set ?h" using h by simp
  with l(2) show "pend (sy_inflight s) (tenant, key) \<noteq> [] \<or> (\<exists>x \<in> set (sy_log s (tenant, key)). sn < fst x)"
    by (metis append_Nil2 fst_conv)
next
  assume "pend (sy_inflight s) (tenant, key) \<noteq> [] \<or> (\<exists>x \<in> set (sy_log s (tenant, key)). sn < fst x)"
  with no_conflict_key [OF inv snap] show "key_conflicts (sy_mgr s) tenant sn key"
    by (meson not_le)
qed

text \<open>C11: first committer wins. A commit is refused in Phase 1, with a conflict and nothing changed,
  exactly when some key it writes has a commit in flight or a write committed after its
  snapshot; otherwise it is installed, unless the LSN counter is exhausted.\<close>

theorem first_committer_wins:
  assumes "reachable s" "sy_txns s i = Some t"
  shows "(commit_phase1 (sy_mgr s) n (tx_tenant_id t) (tx_snapshot t) (tx_writes t) =
       Done (sy_mgr s, Inl (MvccConflict ''key''))) =
    (\<exists>key \<in> fst ` set (tx_writes t). pend (sy_inflight s) (tx_tenant_id t, key) \<noteq> [] \<or>
       (\<exists>x \<in> set (sy_log s (tx_tenant_id t, key)). tx_snapshot t < fst x))"
proof -
  obtain f where inv: "sys_inv f s" using inv_reachable [OF assms(1)] by blast
  have "occ_conflict (sy_mgr s) (tx_tenant_id t) (tx_snapshot t) (tx_writes t) \<longleftrightarrow>
    (\<exists>key \<in> fst ` set (tx_writes t). pend (sy_inflight s) (tx_tenant_id t, key) \<noteq> [] \<or>
       (\<exists>x \<in> set (sy_log s (tx_tenant_id t, key)). tx_snapshot t < fst x))"
    using key_conflict_iff [OF inv inv_txn(5) [OF inv assms(2)]]
    by (auto simp: occ_conflict_def list_ex_iff split_beta)
  then show ?thesis by (auto simp: commit_phase1_def bind_run_Done_iff)
qed

theorem first_committer_wins_witness:
  "\<exists>t. sy_txns (exec (Write 2 7 [3]) demo_inflight) 2 = Some t \<and>
     commit_phase1 (sy_mgr demo_inflight) 1 1 0 (tx_writes t) =
       Done (sy_mgr demo_inflight, Inl (MvccConflict ''key''))"
proof -
  let ?s = "exec (Write 2 7 [3]) demo_inflight"
  have r: "reachable ?s"
    using reachable_reach [OF demo_reachable(1) exec_reach [of demo_inflight "[Write 2 7 [3]]"]] by simp
  obtain t where t: "sy_txns ?s 2 = Some t" "tx_tenant_id t = 1" "tx_snapshot t = 0"
    "tx_writes t = [(7, Some [3])]"
    by (simp add: demo_eval)
  have m: "sy_mgr ?s = sy_mgr demo_inflight" "sy_inflight ?s = sy_inflight demo_inflight"
    by (simp_all split: option.split)
  have "pend (sy_inflight ?s) (1, 7) \<noteq> []" unfolding m by (simp add: demo_eval)
  with first_committer_wins [OF r t(1), of 1] t show ?thesis by (simp only: m) simp
qed

lemma rollback_install:
  assumes "chain_repr f h ch"
  shows "rollback_chain l (push_version l v ch) = ch"
proof -
  obtain k where k: "ch = drop k (chain_of h)" using assms by (auto simp: chain_repr_def)
  have "ch = [] \<or> is_live (last ch)"
  proof (cases "k < length h")
    case True
    then have "h \<noteq> []" by auto
    with True k last_chain_of_live show ?thesis by simp
  qed (simp add: k)
  then show ?thesis by (rule rollback_push)
qed

lemma undo_chains:
  assumes "reachable s" "sy_txns s i = Some t"
    "commit_phase1 (sy_mgr s) n (tx_tenant_id t) (tx_snapshot t) (tx_writes t) = Done (m, Inr r)"
  shows "chain_at (commit_undo i (tx_tenant_id t) r (tx_writes t) m) vk = chain_at (sy_mgr s) vk"
    "tm_visible (commit_undo i (tx_tenant_id t) r (tx_writes t) m) = tm_visible (sy_mgr s)"
proof -
  obtain f where inv: "sys_inv f s" using inv_reachable [OF assms(1)] by blast
  note p1 = phase1_Inr [OF assms(3)] and d = inv_txn(2) [OF inv assms(2)]
  show "chain_at (commit_undo i (tx_tenant_id t) r (tx_writes t) m) vk = chain_at (sy_mgr s) vk"
    using rollback_install [OF inv_repr [OF inv, of vk]] map_of_eq_None_iff [of "tx_writes t" "snd vk"]
    by (cases "map_of (tx_writes t) (snd vk)")
      (simp_all add: commit_undo_def Let_def p1(3) chain_at_rollback_writes [OF d]
        chain_at_install_writes [OF d] range_commit_lsn_def)
  show "tm_visible (commit_undo i (tx_tenant_id t) r (tx_writes t) m) = tm_visible (sy_mgr s)"
    by (simp add: p1(3))
qed

text \<open>C19: undo is exact. A commit that fails right after Phase 1 leaves every version chain as it was
  before the commit, frees its turn, and removes the transaction from the active table.\<close>

theorem undo_restores:
  assumes "reachable s" "sy_txns s i = Some t"
    "commit_phase1 (sy_mgr s) n (tx_tenant_id t) (tx_snapshot t) (tx_writes t) = Done (m, Inr r)"
  shows "chain_at (commit_undo i (tx_tenant_id t) r (tx_writes t) m) vk = chain_at (sy_mgr s) vk \<and>
    tm_visible (commit_undo i (tx_tenant_id t) r (tx_writes t) m) = tm_visible (sy_mgr s) \<and>
    tm_install_order (commit_undo i (tx_tenant_id t) r (tx_writes t) m) = range_commit_lsn r \<and>
    map_of (tm_active (commit_undo i (tx_tenant_id t) r (tx_writes t) m)) i = None"
proof -
  obtain f where inv: "sys_inv f s" using inv_reachable [OF assms(1)] by blast
  note p1 = phase1_Inr [OF assms(3)]
  have "tm_install_order (sy_mgr s) \<le> tm_counter (sy_mgr s)"
    using inv ranges_bounds unfolding inv_defs by blast
  with p1(4) have "tm_install_order (sy_mgr s) \<le> range_commit_lsn r" by (simp add: range_commit_lsn_def)
  with undo_chains [OF assms] show ?thesis
    by (simp add: commit_undo_def Let_def p1(3) map_of_abort max_def)
qed

theorem undo_restores_witness:
  "\<exists>t m r. commit_phase1 (sy_mgr (exec (Write 2 9 [3]) demo_inflight)) 1 1 0 [(9, Some [3])] =
      Done (m, Inr r) \<and> chain_at m (1, 9) \<noteq> [] \<and> sy_txns (exec (Write 2 9 [3]) demo_inflight) 2 = Some t \<and>
      chain_at (commit_undo 2 1 r (tx_writes t) m) (1, 9) = []"
proof -
  let ?s = "exec (Write 2 9 [3]) demo_inflight"
  have r: "reachable ?s"
    using reachable_reach [OF demo_reachable(1) exec_reach [of demo_inflight "[Write 2 9 [3]]"]] by simp
  obtain t where t: "sy_txns ?s 2 = Some t" "tx_tenant_id t = 1" "tx_snapshot t = 0"
    "tx_writes t = [(9, Some [3])]"
    by (simp add: demo_eval)
  obtain m r where p1: "commit_phase1 (sy_mgr ?s) 1 1 0 [(9, Some [3])] = Done (m, Inr r)"
    "chain_at m (1, 9) \<noteq> []"
    by (simp add: demo_eval)
  have "chain_at (sy_mgr ?s) (1, 9) = []" by (simp add: demo_eval)
  with undo_restores [OF r t(1), of 1 m] p1 t show ?thesis by auto
qed

section \<open>Order and progress of Phase 3\<close>

lemma ranges_sorted: "ranges_ok io ps c \<Longrightarrow> sorted_wrt (<) (map p_lsn ps)"
proof (induction ps arbitrary: io)
  case (Cons p ps)
  then show ?case using ranges_bounds [of "p_lsn p" ps c] by auto
qed simp

lemma ranges_turn:
  assumes "ranges_ok io (p # ps) c" "q \<in> set ps"
  shows "io < range_predecessor (p_range q)"
proof -
  have "io < p_lsn p" "ranges_ok (p_lsn p) ps c" using assms(1) by simp_all
  with ranges_bounds assms(2) show ?thesis by (meson less_le_trans)
qed

text \<open>C18: publication is in LSN order. The commits in flight are in strictly increasing LSN
  order above the watermark and up to the counter, exactly the oldest of them has the install turn, and
  everything committed is at or below the watermark.\<close>

theorem publish_order:
  assumes "reachable s"
  shows "sorted_wrt (<) (map p_lsn (sy_inflight s)) \<and>
    (\<forall>p \<in> set (sy_inflight s). tm_visible (sy_mgr s) < p_lsn p \<and> p_lsn p \<le> tm_counter (sy_mgr s)) \<and>
    (\<forall>vk. \<forall>x \<in> set (sy_log s vk). fst x \<le> tm_visible (sy_mgr s)) \<and>
    (\<forall>p ps. sy_inflight s = p # ps \<longrightarrow> install_turn (sy_mgr s) (p_range p) \<and>
       (\<forall>q \<in> set ps. \<not> install_turn (sy_mgr s) (p_range q)))"
proof -
  obtain f where inv: "sys_inv f s" using inv_reachable [OF assms] by blast
  have r: "ranges_ok (tm_install_order (sy_mgr s)) (sy_inflight s) (tm_counter (sy_mgr s))"
    using inv unfolding inv_defs by blast
  have "install_turn (sy_mgr s) (p_range p) \<and> (\<forall>q \<in> set ps. \<not> install_turn (sy_mgr s) (p_range q))"
    if "sy_inflight s = p # ps" for p ps
    using r that ranges_turn [of _ p ps] by (auto simp: install_turn_def)
  then show ?thesis
    using ranges_sorted [OF r] inv_bounds(3) [OF inv] inv_log [OF inv] by blast
qed

theorem publish_order_witness:
  "reachable demo_inflight \<and> length (sy_inflight demo_inflight) = 1 \<and>
   install_turn (sy_mgr demo_inflight) (p_range (hd (sy_inflight demo_inflight)))"
proof -
  have "length (sy_inflight demo_inflight) = 1" by (simp add: demo_eval)
  then obtain p where "sy_inflight demo_inflight = [p]" by (auto simp: length_Suc_conv)
  with publish_order [OF demo_reachable(1)] demo_reachable(1) show ?thesis by simp
qed

lemma publish_head:
  assumes "reachable s" "sy_inflight s = p # ps"
  shows "\<exists>s'. txn_step s s' \<and> sy_inflight s' = ps \<and> tm_counter (sy_mgr s') = tm_counter (sy_mgr s) \<and>
    tm_visible (sy_mgr s') = p_lsn p \<and> (\<forall>vk. sy_log s' vk = sy_log s vk @ pend_of p vk)"
proof -
  obtain f where inv: "sys_inv f s" using inv_reachable [OF assms(1)] by blast
  have turn: "install_turn (sy_mgr s) (p_range p)"
    using inv assms(2) unfolding inv_defs by (simp add: install_turn_def)
  have gate: "side_gate (sy_inflight s) []" by (simp add: side_gate_def side_assoc_def)
  have side: "side_of c [] vk = []" for c vk by (simp add: side_of_def side_assoc_def)
  have p: "p \<in> set (sy_inflight s)" by (simp add: assms(2))
  show ?thesis
  proof (cases "p_index p")
    case True
    obtain m res where fin: "index_pages_finish (p_range p) [] None (sy_mgr s) = (m, res)" by fastforce
    then have "tm_counter m = tm_counter (sy_mgr s)" "tm_visible m = p_lsn p"
      by (auto simp: index_pages_finish_def Let_def p_lsn_def)
    then show ?thesis
      using txn_step.index_publish [OF p True turn gate fin] index_no_pend [OF inv p True]
      by (intro exI conjI) (assumption, simp_all add: assms(2) side)
  next
    case False
    then show ?thesis
      using txn_step.publish [OF p False turn gate]
      by (intro exI conjI) (assumption, simp_all add: assms(2) side p_lsn_def)
  qed
qed



section \<open>Reclaim\<close>

lemma inv_anchor:
  assumes inv: "sys_inv f s"
  shows "f \<le> oldest_active_snapshot (sy_mgr s)"
    "\<forall>x \<in> set (tm_active (sy_mgr s)). oldest_active_snapshot (sy_mgr s) \<le> snd x"
proof -
  have act: "\<forall>x \<in> set (tm_active (sy_mgr s)). f \<le> snd x \<and> snd x \<le> tm_visible (sy_mgr s)"
    using inv unfolding inv_defs by blast
  show "f \<le> oldest_active_snapshot (sy_mgr s)"
    "\<forall>x \<in> set (tm_active (sy_mgr s)). oldest_active_snapshot (sy_mgr s) \<le> snd x"
    using anchor_bounds(1,3) [OF act inv_floor [OF inv] inv_bounds(2) [OF inv]] by blast+
qed



lemma reclaimed_length:
  assumes r: "chain_repr f h ch" and h: "\<forall>x \<in> set h. fst x \<le> a"
  shows "length (gc_chain a ch) \<le> 1"
proof -
  let ?e = "map v_expired_lsn (chain_of h)"
  obtain k where k: "ch = drop k (chain_of h)" using r by (auto simp: chain_repr_def)
  have "length (gc_chain a ch) = length (filter (\<lambda>l. a < l) (drop k ?e))"
    by (simp add: gc_chain_def k drop_map filter_map comp_def)
  also have "\<dots> \<le> length (filter (\<lambda>l. a < l) (take k ?e @ drop k ?e))"
    by (simp only: filter_append length_append)
  also have "\<dots> = length (filter (\<lambda>l. a < l) ?e)" by simp
  also have "\<dots> \<le> 1"
  proof (cases h)
    case (Cons x xs)
    then have "filter (\<lambda>l. a < l) (map fst xs) = []"
      using h by (auto simp: filter_empty_conv leD)
    then show ?thesis by (simp add: expired_chain_of Cons)
  qed simp
  finally show ?thesis .
qed

text \<open>C21: GC reclaims everything it may. When no transaction is active and no commit is in flight, a GC
  pass leaves at most one version per key.\<close>

theorem gc_reclaims:
  assumes "reachable s" "tm_active (sy_mgr s) = []" "sy_inflight s = []"
  shows "length (chain_at (gc (sy_mgr s)) vk) \<le> 1"
proof -
  obtain f where inv: "sys_inv f s" using inv_reachable [OF assms(1)] by blast
  have "oldest_active_snapshot (sy_mgr s) = tm_visible (sy_mgr s)"
    by (simp add: oldest_active_snapshot_def anchor_of_def assms(2))
  with reclaimed_length [OF inv_repr [OF inv, of vk]] inv_log [OF inv, where vk = vk] assms(3)
  show ?thesis by (simp add: gc_def chain_at_gc_sweep)
qed

definition demo_idle :: sys where
  "demo_idle = fold exec [Finish 2, Finish 4] demo_later"

theorem gc_reclaims_witness:
  "length (chain_at (sy_mgr demo_idle) (1, 7)) = 2 \<and>
   length (chain_at (gc (sy_mgr demo_idle)) (1, 7)) \<le> 1"
proof -
  have r: "reachable demo_idle"
    unfolding demo_idle_def by (rule reachable_reach [OF demo_reachable(3) exec_reach])
  have "tm_active (sy_mgr demo_idle) = []" "sy_inflight demo_idle = []"
    "length (chain_at (sy_mgr demo_idle) (1, 7)) = 2"
    by (simp_all add: demo_idle_def demo_eval oldest_active_snapshot_def anchor_of_def gc_def gc_sweep_def
        gc_chain_def)
  with gc_reclaims [OF r, of "(1, 7)"] show ?thesis by simp
qed

section \<open>A whole commit\<close>

lemma phase1_total:
  assumes "unat (tm_counter m) + 2 < 2 ^ 64" "\<not> occ_conflict m tenant sn ws"
  shows "\<exists>m' r. commit_phase1 m 1 tenant sn ws = Done (m', Inr r) \<and> range_commit_lsn r \<noteq> Lsn_MAX"
proof -
  obtain c r where a: "allocate_range (tm_counter m) 1 = Done (c, r)"
    using allocate_range_total [of "tm_counter m" 1] assms(1) by auto
  have "unat (rg_end r) = unat (tm_counter m) + 1" using allocate_range_Done(5) [OF a] by simp
  then have "rg_end r \<noteq> Lsn_MAX" using assms(1) by (auto simp: Lsn_MAX_def)
  with a assms(2) show ?thesis by (simp add: commit_phase1_def range_commit_lsn_def)
qed

text \<open>What a commit that nobody runs beside does: install and publish, or install and undo.\<close>

lemma commit_publishes:
  assumes r: "reachable s" and fl: "sy_inflight s = []" and t: "sy_txns s i = Some t"
    and p1: "commit_phase1 (sy_mgr s) n (tx_tenant_id t) (tx_snapshot t) (tx_writes t) = Done (m, Inr r')"
    and nmax: "range_commit_lsn r' \<noteq> Lsn_MAX"
  shows "install_turn m r'"
    "read_at (commit_publish i r' [] m) (tx_tenant_id t) key (range_commit_lsn r') =
       (case map_of (tx_writes t) key of
          Some v \<Rightarrow> v
        | None \<Rightarrow> read_at (sy_mgr s) (tx_tenant_id t) key (tm_visible (sy_mgr s)))"
proof -
  obtain f where inv: "sys_inv f s" using inv_reachable [OF r] by blast
  let ?p = "mk_pending t r'"
  let ?s1 = "s\<lparr>sy_mgr := m, sy_txns := (sy_txns s)(i := None), sy_inflight := [?p]\<rparr>"
  note id = inv_txn(1) [OF inv t]
  have st1: "txn_step s ?s1" using txn_step.install [OF t p1 nmax] by (simp add: fl)
  then have r1: "reachable ?s1" using reachable_reach [OF r] by blast
  have p: "p_range ?p = r'" "p_lsn ?p = range_commit_lsn r'" "p_txn ?p = i" "\<not> p_index ?p"
    by (simp_all add: mk_pending_def p_lsn_def id)
  show turn: "install_turn m r'"
    using inv_reachable [OF r1] unfolding inv_defs by (auto simp: install_turn_def p)
  let ?s2 = "?s1\<lparr>sy_mgr := commit_publish i r' [] m, sy_inflight := [],
      sy_log := (\<lambda>vk. sy_log s vk @ pend_of ?p vk)\<rparr>"
  have "txn_step ?s1 ?s2"
    using txn_step.publish [of ?p ?s1 "[]"] turn p
    by (simp add: side_gate_def side_assoc_def side_of_def)
  then have "reachable ?s2" using reachable_reach [OF r1] by blast
  then obtain f2 where inv2: "sys_inv f2 ?s2" using inv_reachable by blast
  let ?vk = "(tx_tenant_id t, key)"
  have vis: "tm_visible (sy_mgr s) < range_commit_lsn r'"
    using le_less_trans [OF inv_bounds(1) [OF inv] phase1_Inr(4) [OF p1]] by (simp add: range_commit_lsn_def)
  have old: "asof (sy_log s ?vk) (range_commit_lsn r') = asof (sy_log s ?vk) (tm_visible (sy_mgr s))"
    by (rule asof_later) (use vis inv_log [OF inv, where vk = ?vk] in auto)
  have "read_at (commit_publish i r' [] m) (tx_tenant_id t) key (range_commit_lsn r') =
      asof (sy_log s ?vk @ pend_of ?p ?vk) (range_commit_lsn r')"
    using read_asof [OF inv2, of "range_commit_lsn r'"] inv_floor [OF inv2] by simp
  then show "read_at (commit_publish i r' [] m) (tx_tenant_id t) key (range_commit_lsn r') =
       (case map_of (tx_writes t) key of
          Some v \<Rightarrow> v
        | None \<Rightarrow> read_at (sy_mgr s) (tx_tenant_id t) key (tm_visible (sy_mgr s)))"
    using read_asof [OF inv inv_floor [OF inv] order_refl] old
    by (simp add: pend_of_mk asof_snoc range_commit_lsn_def split: option.split)
qed

text \<open>C13: a commit is atomic. With no other commit in flight, a transaction with buffered writes
  commits in one of three ways and never waits forever: refused with a conflict, nothing changed; published
  at a new watermark, where every key reads its buffered value or what it read before; or, when the WAL
  append fails, undone, no chain changed.\<close>

theorem commit_atomic:
  assumes "reachable s" "sy_inflight s = []" "sy_txns s i = Some t" "tx_writes t \<noteq> []"
    and "tx_sidechannel_writes t = []" "\<And>c. builder c [] = Inr []"
    and "unat (tm_counter (sy_mgr s)) + 2 < 2 ^ 64"
  shows "\<exists>m t' res. Transaction_commit (sy_mgr s) t extra_work builder wal_err = Some (Done (m, t', res)) \<and>
    (case res of
       Inr lsn \<Rightarrow> wal_err = None \<and> tx_state t' = Committed \<and> tm_visible m = lsn \<and>
         (\<forall>key. read_at m (tx_tenant_id t) key lsn =
            (case map_of (tx_writes t) key of
               Some v \<Rightarrow> v
             | None \<Rightarrow> read_at (sy_mgr s) (tx_tenant_id t) key (tm_visible (sy_mgr s))))
     | Inl e \<Rightarrow> (wal_err \<noteq> None \<or> e = MvccConflict ''key'') \<and> tx_state t' = Aborted \<and>
         tm_visible m = tm_visible (sy_mgr s) \<and> (\<forall>vk. chain_at m vk = chain_at (sy_mgr s) vk))"
proof (cases "occ_conflict (sy_mgr s) (tx_tenant_id t) (tx_snapshot t) (tx_writes t)")
  case True
  then show ?thesis
    using assms(4) by (simp add: Transaction_commit_def commit_with_bundle_writes_def commit_phase1_def)
next
  case False
  obtain f where inv: "sys_inv f s" using inv_reachable [OF assms(1)] by blast
  have id: "tx_txn_id t = i" by (rule inv_txn(1) [OF inv assms(3)])
  obtain m r where p1: "commit_phase1 (sy_mgr s) 1 (tx_tenant_id t) (tx_snapshot t) (tx_writes t) =
      Done (m, Inr r)" "range_commit_lsn r \<noteq> Lsn_MAX"
    using phase1_total [OF assms(7) False] by blast
  note pub = commit_publishes [OF assms(1-3) p1] and und = undo_chains [OF assms(1,3) p1(1)]
  show ?thesis
    using pub und assms(4-6) p1(1) id
    by (cases wal_err) (simp_all add: Transaction_commit_def commit_with_bundle_writes_def)
qed

theorem commit_atomic_witness:
  "\<exists>t m t' lsn. sy_txns (exec (Write 3 8 [5]) demo_published) 3 = Some t \<and>
     Transaction_commit (sy_mgr (exec (Write 3 8 [5]) demo_published)) t False (\<lambda>_ side. Inr side) None =
       Some (Done (m, t', Inr lsn)) \<and> tm_visible m = lsn \<and> read_at m 1 8 lsn = Some [5]"
proof -
  let ?b = "\<lambda>_ side. Inr side"
  define s where "s = exec (Write 3 8 [5]) demo_published"
  have r: "reachable s"
    using reachable_reach [OF demo_reachable(2) exec_reach [of demo_published "[Write 3 8 [5]]"]]
    by (simp add: s_def)
  obtain t where t: "sy_txns s 3 = Some t" "tx_tenant_id t = 1" "tx_snapshot t = 1"
    "tx_writes t = [(8, Some [5])]" "tx_sidechannel_writes t = []" "tx_txn_id t = 3"
    by (simp add: s_def demo_eval)
  have m: "sy_inflight s = []" "unat (tm_counter (sy_mgr s)) + 2 < 2 ^ 64"
    "\<not> occ_conflict (sy_mgr s) 1 1 [(8, Some [5])]"
    by (simp_all add: s_def demo_eval)
  have ne: "tx_writes t \<noteq> []" using t(4) by simp
  have no: "\<nexists>m t' e. Transaction_commit (sy_mgr s) t False ?b None = Some (Done (m, t', Inl e))"
    using t m(3) by (auto simp: Transaction_commit_def commit_with_bundle_writes_def commit_phase1_def
        bind_run_Done_iff split: run.splits if_splits)
  from commit_atomic [where builder = ?b and extra_work = False and wal_err = None,
      OF r m(1) t(1) ne t(5) refl m(2)]
  obtain m t' lsn where "Transaction_commit (sy_mgr s) t False ?b None = Some (Done (m, t', Inr lsn))"
    "tm_visible m = lsn" "read_at m 1 8 lsn = Some [5]"
    using no t by (elim exE conjE) (auto split: sum.splits)
  with t(1) show ?thesis unfolding s_def by blast
qed

end
