(* ===== verification/Graph_Source.thy ===== *)
theory Graph_Source
  imports Core_Error
begin

text \<open>
  The seam between the traversal algorithms and a graph (\<open>arcgraph-graph-traversal\<close>:
  \<open>source.rs\<close>, \<open>error.rs\<close>, \<open>memory.rs\<close>). An edge source is a function that returns the batch of
  neighbours of a node; the adapters over the stores are outside this crate, so the algorithms take
  the source as an argument and rely on the two laws of the locale \<open>edge_source\<close>. The in-memory
  source of the crate is modelled in full and interprets the locale. The theory also fixes the
  vocabulary of the specifications: the steps a source offers, walks, and distances.
\<close>

section \<open>Directions, filters, neighbours\<close>

datatype TraversalDirection = Outbound | Inbound | Undirected

fun TraversalDirection_inverse :: "TraversalDirection \<Rightarrow> TraversalDirection" where
  "TraversalDirection_inverse Outbound = Inbound"
| "TraversalDirection_inverse Inbound = Outbound"
| "TraversalDirection_inverse Undirected = Undirected"

record EdgeFilter =
  ef_rel_type :: "TypeId option"

definition EdgeFilter_any :: EdgeFilter where
  "EdgeFilter_any = \<lparr> ef_rel_type = None \<rparr>"

definition EdgeFilter_rel_type :: "TypeId \<Rightarrow> EdgeFilter" where
  "EdgeFilter_rel_type t = \<lparr> ef_rel_type = Some t \<rparr>"

record ('n, 'e) Neighbor =
  nb_rel_id :: RelId
  nb_dst :: NodeId
  nb_dst_data :: 'n
  nb_edge_data :: 'e
  nb_edge_cost :: u64
  nb_node_cost :: u64

datatype 'err TraversalError =
    Source 'err
  | CostBudgetExceeded (te_cost_budget: u64) (te_cost_consumed: u64)
  | InvalidRequest (te_reason: string)

type_synonym ('n, 'e, 'err) EdgeSource =
  "NodeId \<Rightarrow> TraversalDirection \<Rightarrow> EdgeFilter \<Rightarrow> 'err + ('n, 'e) Neighbor list"

text \<open>The default \<open>degree\<close>: the length of one batch.\<close>

definition EdgeSource_degree ::
  "('n, 'e, 'err) EdgeSource \<Rightarrow> NodeId \<Rightarrow> TraversalDirection \<Rightarrow> EdgeFilter \<Rightarrow> 'err + u64" where
  "EdgeSource_degree source node direction filt =
     (case source node direction filt of
        Inl e \<Rightarrow> Inl e
      | Inr batch \<Rightarrow> Inr (word_of_nat (length batch)))"

section \<open>The in-memory source\<close>

record StoredEdge =
  se_rel_id :: RelId
  se_other :: NodeId
  se_rel_type :: "TypeId option"

record MemoryEdgeSource =
  out_adj :: "NodeId \<rightharpoonup> StoredEdge list"
  in_adj :: "NodeId \<rightharpoonup> StoredEdge list"
  next_rel :: u64
  mem_edge_cost :: u64
  mem_node_cost :: u64

definition MemoryEdgeSource_new :: MemoryEdgeSource where
  "MemoryEdgeSource_new =
     \<lparr> out_adj = Map.empty, in_adj = Map.empty, next_rel = 0, mem_edge_cost = 0, mem_node_cost = 0 \<rparr>"

definition set_uniform_costs :: "u64 \<Rightarrow> u64 \<Rightarrow> MemoryEdgeSource \<Rightarrow> MemoryEdgeSource" where
  "set_uniform_costs edge_cost node_cost g = g\<lparr>mem_edge_cost := edge_cost, mem_node_cost := node_cost\<rparr>"

text \<open>\<open>map.entry(k).or_default().push(e)\<close>\<close>

definition push_entry :: "NodeId \<Rightarrow> StoredEdge \<Rightarrow> (NodeId \<rightharpoonup> StoredEdge list) \<Rightarrow> NodeId \<rightharpoonup> StoredEdge list" where
  "push_entry k e adj = adj(k \<mapsto> (case adj k of None \<Rightarrow> [e] | Some es \<Rightarrow> es @ [e]))"

definition add_edge ::
  "NodeId \<Rightarrow> NodeId \<Rightarrow> TypeId option \<Rightarrow> MemoryEdgeSource \<Rightarrow> MemoryEdgeSource \<times> RelId" where
  "add_edge src dst rel_type g =
     (let rel_id = next_rel g + 1 in
      (g\<lparr>next_rel := rel_id,
         out_adj := push_entry src \<lparr> se_rel_id = rel_id, se_other = dst, se_rel_type = rel_type \<rparr> (out_adj g),
         in_adj := push_entry dst \<lparr> se_rel_id = rel_id, se_other = src, se_rel_type = rel_type \<rparr> (in_adj g)\<rparr>,
       rel_id))"

definition type_ok :: "EdgeFilter \<Rightarrow> StoredEdge \<Rightarrow> bool" where
  "type_ok filt e = (case ef_rel_type filt of None \<Rightarrow> True | Some t \<Rightarrow> se_rel_type e = Some t)"

definition mem_collect ::
  "MemoryEdgeSource \<Rightarrow> (NodeId \<rightharpoonup> StoredEdge list) \<Rightarrow> NodeId \<Rightarrow> EdgeFilter \<Rightarrow> (unit, unit) Neighbor list" where
  "mem_collect g adj node filt =
     (case adj node of
        None \<Rightarrow> []
      | Some edges \<Rightarrow>
          map (\<lambda>e. \<lparr> nb_rel_id = se_rel_id e, nb_dst = se_other e, nb_dst_data = (), nb_edge_data = (),
                     nb_edge_cost = mem_edge_cost g, nb_node_cost = mem_node_cost g \<rparr>)
              (filter (type_ok filt) edges))"

text \<open>The source never fails; its error type is left open.\<close>

fun mem_neighbors :: "MemoryEdgeSource \<Rightarrow> (unit, unit, 'err) EdgeSource" where
  "mem_neighbors g node Outbound filt = Inr (mem_collect g (out_adj g) node filt)"
| "mem_neighbors g node Inbound filt = Inr (mem_collect g (in_adj g) node filt)"
| "mem_neighbors g node Undirected filt =
     Inr (mem_collect g (out_adj g) node filt @ mem_collect g (in_adj g) node filt)"

text \<open>A graph made by a sequence of calls of \<open>add_edge\<close>.\<close>

definition mem_graph :: "(NodeId \<times> NodeId \<times> TypeId option) list \<Rightarrow> MemoryEdgeSource" where
  "mem_graph edges = fold (\<lambda>(src, dst, t) g. fst (add_edge src dst t g)) edges MemoryEdgeSource_new"

section \<open>Steps, walks and distances\<close>

text \<open>A step is a relationship and the node it leads to.\<close>

type_synonym step = "RelId \<times> NodeId"
type_synonym graph = "NodeId \<Rightarrow> step set"

definition step_of :: "('n, 'e) Neighbor \<Rightarrow> step" where
  "step_of nb = (nb_rel_id nb, nb_dst nb)"

definition steps :: "('n, 'e, 'err) EdgeSource \<Rightarrow> TraversalDirection \<Rightarrow> EdgeFilter \<Rightarrow> graph" where
  "steps source direction filt node =
     (case source node direction filt of Inl _ \<Rightarrow> {} | Inr batch \<Rightarrow> step_of ` set batch)"

fun walk :: "graph \<Rightarrow> NodeId \<Rightarrow> step list \<Rightarrow> NodeId \<Rightarrow> bool" where
  "walk A u [] v \<longleftrightarrow> u = v"
| "walk A u ((r, w) # es) v \<longleftrightarrow> (r, w) \<in> A u \<and> walk A w es v"

definition within :: "graph \<Rightarrow> NodeId \<Rightarrow> nat \<Rightarrow> NodeId set" where
  "within A s n = {v. \<exists>es. walk A s es v \<and> length es \<le> n}"

text \<open>The nodes whose shortest walk from the root has exactly \<open>n\<close> steps.\<close>

fun level :: "graph \<Rightarrow> NodeId \<Rightarrow> nat \<Rightarrow> NodeId set" where
  "level A s 0 = {s}"
| "level A s (Suc n) = within A s (Suc n) - within A s n"

lemma walk_append [simp]: "walk A u (es @ es') v \<longleftrightarrow> (\<exists>w. walk A u es w \<and> walk A w es' v)"
  by (induction es arbitrary: u) auto

lemma walk_mono: "walk A u es v \<Longrightarrow> (\<And>x. A x \<subseteq> B x) \<Longrightarrow> walk B u es v"
proof (induction es arbitrary: u)
  case (Cons e es)
  then show ?case by (cases e) (auto dest: subsetD)
qed simp

lemma within_0 [simp]: "within A s 0 = {s}"
  by (auto simp: within_def)

lemma within_mono: "m \<le> n \<Longrightarrow> within A s m \<subseteq> within A s n"
  by (auto simp: within_def intro: le_trans)

lemma root_within [simp, intro]: "s \<in> within A s n"
  using within_mono [of 0 n A s] by simp

lemma within_Suc: "within A s (Suc n) = within A s n \<union> {v. \<exists>u \<in> within A s n. \<exists>r. (r, v) \<in> A u}"
proof (rule set_eqI, rule iffI)
  fix v assume "v \<in> within A s (Suc n)"
  then obtain es where es: "walk A s es v" "length es \<le> Suc n" by (auto simp: within_def)
  show "v \<in> within A s n \<union> {v. \<exists>u \<in> within A s n. \<exists>r. (r, v) \<in> A u}"
  proof (cases es rule: rev_cases)
    case Nil
    then show ?thesis using es by auto
  next
    case (snoc es' e)
    then obtain u where "walk A s es' u" "e \<in> A u" "snd e = v" "length es' \<le> n"
      using es by (cases e) auto
    then show ?thesis by (cases e) (auto simp: within_def)
  qed
next
  fix v assume "v \<in> within A s n \<union> {v. \<exists>u \<in> within A s n. \<exists>r. (r, v) \<in> A u}"
  then show "v \<in> within A s (Suc n)"
  proof
    assume "v \<in> within A s n"
    then show ?thesis using within_mono [of n "Suc n" A s] by auto
  next
    assume "v \<in> {v. \<exists>u \<in> within A s n. \<exists>r. (r, v) \<in> A u}"
    then obtain u r es where "walk A s es u" "length es \<le> n" "(r, v) \<in> A u" by (auto simp: within_def)
    then have "walk A s (es @ [(r, v)]) v" "length (es @ [(r, v)]) \<le> Suc n" by auto
    then show ?thesis unfolding within_def by blast
  qed
qed

lemma level_within: "level A s n \<subseteq> within A s n"
  by (cases n) auto

lemma within_level: "within A s (Suc n) = within A s n \<union> level A s (Suc n)"
  using within_mono [of n "Suc n" A s] by auto

text \<open>The next level holds the unseen successors of this one.\<close>

lemma within_step: "u \<in> within A s n \<Longrightarrow> (r, v) \<in> A u \<Longrightarrow> v \<in> within A s (Suc n)"
  by (auto simp: within_Suc)

lemma within_below_level:
  assumes "u \<in> within A s n" "u \<notin> level A s n" "(r, v) \<in> A u"
  shows "v \<in> within A s n"
proof (cases n)
  case 0
  then show ?thesis using assms by simp
next
  case (Suc m)
  then have "u \<in> within A s m" using assms by simp
  then show ?thesis unfolding Suc using assms(3) by (rule within_step)
qed

lemma level_Suc: "level A s (Suc n) = {v. \<exists>u \<in> level A s n. \<exists>r. (r, v) \<in> A u} - within A s n"
proof (rule set_eqI, rule iffI)
  fix v assume v: "v \<in> level A s (Suc n)"
  then obtain u r where "u \<in> within A s n" "(r, v) \<in> A u" by (auto simp: within_Suc)
  then show "v \<in> {v. \<exists>u \<in> level A s n. \<exists>r. (r, v) \<in> A u} - within A s n"
    using v within_below_level by fastforce
next
  fix v assume "v \<in> {v. \<exists>u \<in> level A s n. \<exists>r. (r, v) \<in> A u} - within A s n"
  then show "v \<in> level A s (Suc n)"
    using level_within [of A s n] by (auto intro: within_step)
qed

text \<open>A walk that ends in a level is no shorter than the level.\<close>

lemma level_least: "v \<in> level A s n \<Longrightarrow> walk A s es v \<Longrightarrow> n \<le> length es"
  by (cases n) (auto simp: within_def not_less_eq_eq)

text \<open>An empty level is the end of the graph.\<close>

lemma level_empty_closed:
  assumes "level A s n = {}"
  shows "within A s (n + k) = within A s n"
proof (induction k)
  case (Suc k)
  have "level A s m = {}" if "n \<le> m" for m
    using that
  proof (induction m rule: dec_induct)
    case base
    show ?case by (rule assms)
  next
    case (step m)
    then show ?case unfolding level_Suc by simp
  qed
  from this [of "Suc (n + k)"] have "level A s (Suc (n + k)) = {}" by (simp del: level.simps)
  then show ?case using within_level [of A s "n + k"] Suc by (simp del: level.simps)
qed simp

lemma level_empty_walk:
  assumes "level A s n = {}" "walk A s es v"
  shows "v \<in> within A s n"
proof -
  have "v \<in> within A s (n + length es)" using assms(2) by (auto simp: within_def)
  then show ?thesis using level_empty_closed [OF assms(1)] by simp
qed

text \<open>Walks backwards.\<close>

fun reverse_walk :: "NodeId \<Rightarrow> step list \<Rightarrow> step list" where
  "reverse_walk u [] = []"
| "reverse_walk u ((r, w) # es) = reverse_walk w es @ [(r, u)]"

lemma length_reverse_walk [simp]: "length (reverse_walk u es) = length es"
  by (induction u es rule: reverse_walk.induct) auto

lemma reverse_walk_rels: "map fst (reverse_walk u es) = rev (map fst es)"
  by (induction u es rule: reverse_walk.induct) auto

lemma reverse_walk_nodes: "walk A u es v \<Longrightarrow> v # map snd (reverse_walk u es) = rev (u # map snd es)"
  by (induction u es rule: reverse_walk.induct) auto

lemma walk_reverse:
  assumes "\<And>r u v. (r, v) \<in> A u \<Longrightarrow> (r, u) \<in> B v"
  shows "walk A u es v \<Longrightarrow> walk B v (reverse_walk u es) u"
  using assms by (induction u es rule: reverse_walk.induct) auto

section \<open>The contract of an edge source\<close>

text \<open>Every node has a batch in every direction, and the inverse direction offers the same
  relationships from their other end.\<close>

locale edge_source =
  fixes S :: "('n, 'e, 'err) EdgeSource"
  assumes total: "\<exists>batch. S node direction filt = Inr batch"
    and mirror: "(r, v) \<in> steps S direction filt u \<longleftrightarrow> (r, u) \<in> steps S (TraversalDirection_inverse direction) filt v"
begin

lemma walk_mirror:
  "(\<exists>es. walk (steps S direction filt) u es v \<and> length es = n) \<longleftrightarrow>
   (\<exists>es. walk (steps S (TraversalDirection_inverse direction) filt) v es u \<and> length es = n)"
proof -
  have "TraversalDirection_inverse (TraversalDirection_inverse direction) = direction"
    by (cases direction) auto
  then show ?thesis
    using walk_reverse [of "steps S direction filt" "steps S (TraversalDirection_inverse direction) filt" u _ v]
      walk_reverse [of "steps S (TraversalDirection_inverse direction) filt" "steps S direction filt" v _ u]
      mirror length_reverse_walk by metis
qed

end

text \<open>Outgoing and incoming lists of the in-memory source mirror each other.\<close>

definition stored :: "(NodeId \<rightharpoonup> StoredEdge list) \<Rightarrow> NodeId \<Rightarrow> StoredEdge list" where
  "stored adj node = (case adj node of None \<Rightarrow> [] | Some es \<Rightarrow> es)"

definition linked :: "MemoryEdgeSource \<Rightarrow> bool" where
  "linked g \<longleftrightarrow> (\<forall>r u v t. \<lparr> se_rel_id = r, se_other = v, se_rel_type = t \<rparr> \<in> set (stored (out_adj g) u) \<longleftrightarrow>
     \<lparr> se_rel_id = r, se_other = u, se_rel_type = t \<rparr> \<in> set (stored (in_adj g) v))"

lemma stored_push: "stored (push_entry k e adj) u = (if u = k then stored adj u @ [e] else stored adj u)"
  by (auto simp: stored_def push_entry_def split: option.splits)

lemma linked_add_edge: "linked g \<Longrightarrow> linked (fst (add_edge src dst t g))"
  by (auto simp: linked_def add_edge_def Let_def stored_push)

lemma linked_mem_graph: "linked (mem_graph edges)"
proof -
  have "linked g \<Longrightarrow> linked (fold (\<lambda>(src, dst, t) g. fst (add_edge src dst t g)) edges g)" for g
    by (induction edges arbitrary: g) (auto simp: linked_add_edge)
  moreover have "linked MemoryEdgeSource_new"
    by (simp add: linked_def MemoryEdgeSource_new_def stored_def)
  ultimately show ?thesis by (simp add: mem_graph_def)
qed

lemma ex_stored:
  "(\<exists>e \<in> set es. P e) \<longleftrightarrow> (\<exists>r v t. \<lparr> se_rel_id = r, se_other = v, se_rel_type = t \<rparr> \<in> set es \<and>
     P \<lparr> se_rel_id = r, se_other = v, se_rel_type = t \<rparr>)"
  by (metis (full_types) StoredEdge.surjective old.unit.exhaust)

lemma collect_steps:
  "(r, v) \<in> step_of ` set (mem_collect g adj u filt) \<longleftrightarrow>
     (\<exists>t. \<lparr> se_rel_id = r, se_other = v, se_rel_type = t \<rparr> \<in> set (stored adj u) \<and>
        (ef_rel_type filt = None \<or> ef_rel_type filt = t))"
proof -
  have "(r, v) \<in> step_of ` set (mem_collect g adj u filt) \<longleftrightarrow>
      (\<exists>e \<in> set (stored adj u). se_rel_id e = r \<and> se_other e = v \<and> type_ok filt e)"
    by (cases "adj u") (auto simp: mem_collect_def stored_def step_of_def image_iff)
  also have "\<dots> \<longleftrightarrow> (\<exists>t. \<lparr> se_rel_id = r, se_other = v, se_rel_type = t \<rparr> \<in> set (stored adj u) \<and>
        (ef_rel_type filt = None \<or> ef_rel_type filt = t))"
    unfolding ex_stored by (cases "ef_rel_type filt") (auto simp: type_ok_def)
  finally show ?thesis .
qed

lemma mem_steps:
  "steps (mem_neighbors g) Outbound filt u = step_of ` set (mem_collect g (out_adj g) u filt)"
  "steps (mem_neighbors g) Inbound filt u = step_of ` set (mem_collect g (in_adj g) u filt)"
  "steps (mem_neighbors g) Undirected filt u =
     step_of ` set (mem_collect g (out_adj g) u filt) \<union> step_of ` set (mem_collect g (in_adj g) u filt)"
  by (auto simp: steps_def)

lemma linked_source:
  assumes "linked g"
  shows "edge_source (mem_neighbors g)"
proof
  show "\<exists>batch. mem_neighbors g node direction filt = Inr batch" for node direction filt
    by (cases direction) auto
next
  fix r v direction filt u
  show "(r, v) \<in> steps (mem_neighbors g) direction filt u \<longleftrightarrow>
      (r, u) \<in> steps (mem_neighbors g) (TraversalDirection_inverse direction) filt v"
    using assms by (cases direction) (simp_all add: mem_steps collect_steps linked_def disj_commute)
qed

interpretation mem: edge_source "mem_neighbors (mem_graph edges)" for edges
  by (rule linked_source) (rule linked_mem_graph)

end
