(* ===== verification/Graph_Shortest.thy ===== *)
theory Graph_Shortest
  imports Graph_Source
begin

text \<open>
  Unweighted shortest paths (\<open>arcgraph-graph-traversal/src/shortest.rs\<close>): the search from both ends
  \<open>bidirectional_shortest\<close>, and the one-sided search with banned nodes and relationships
  \<open>constrained_shortest\<close> that the k-shortest-paths routine calls. Following a chain of parents is a
  loop that a cyclic map would never leave, so it is a partial function; the searches return
  \<open>None\<close> when it does not end, and the theorems show that it always ends. The central invariant is
  \<open>side\<close>: after \<open>n\<close> levels a parent map holds exactly the nodes within \<open>n\<close> steps and the frontier the
  nodes at distance \<open>n\<close>.
\<close>

section \<open>Paths and parent maps\<close>

record PathResult =
  pr_nodes :: "NodeId list"
  pr_rels :: "RelId list"

definition hops :: "PathResult \<Rightarrow> nat" where
  "hops p = length (pr_rels p)"

type_synonym ParentMap = "NodeId \<rightharpoonup> (NodeId \<times> RelId) option"

partial_function (option) chain_walk ::
  "ParentMap \<Rightarrow> NodeId \<Rightarrow> NodeId list \<Rightarrow> RelId list \<Rightarrow> (NodeId list \<times> RelId list) option" where
  "chain_walk parents cur nodes rels =
     (case parents cur of
        Some (Some (parent, rel)) \<Rightarrow> chain_walk parents parent (nodes @ [parent]) (rels @ [rel])
      | _ \<Rightarrow> Some (nodes, rels))"

definition chain_to_root :: "ParentMap \<Rightarrow> NodeId \<Rightarrow> (NodeId list \<times> RelId list) option" where
  "chain_to_root parents from = chain_walk parents from [from] []"

definition depth_of :: "ParentMap \<Rightarrow> NodeId \<Rightarrow> nat option" where
  "depth_of parents node = map_option (\<lambda>(nodes, _). length nodes - 1) (chain_to_root parents node)"

section \<open>Search from both ends\<close>

text \<open>The two loops of \<open>expand_level\<close>; the state is the parent map, the meets and the next frontier.\<close>

fun expand_batch ::
  "NodeId \<Rightarrow> ParentMap \<Rightarrow> ('n, 'e) Neighbor list \<Rightarrow> ParentMap \<times> NodeId list \<times> NodeId list \<Rightarrow>
   ParentMap \<times> NodeId list \<times> NodeId list" where
  "expand_batch u other [] st = st"
| "expand_batch u other (nb # batch) (parents, meets, next) =
     (if parents (nb_dst nb) \<noteq> None then expand_batch u other batch (parents, meets, next)
      else expand_batch u other batch
             (parents(nb_dst nb \<mapsto> Some (u, nb_rel_id nb)),
              if other (nb_dst nb) \<noteq> None then meets @ [nb_dst nb] else meets,
              next @ [nb_dst nb]))"

fun expand_level ::
  "('n, 'e, 'err) EdgeSource \<Rightarrow> NodeId list \<Rightarrow> TraversalDirection \<Rightarrow> EdgeFilter \<Rightarrow> ParentMap \<Rightarrow>
   ParentMap \<times> NodeId list \<times> NodeId list \<Rightarrow>
   'err TraversalError + ParentMap \<times> NodeId list \<times> NodeId list" where
  "expand_level source [] direction filt other st = Inr st"
| "expand_level source (u # frontier) direction filt other st =
     (case source u direction filt of
        Inl e \<Rightarrow> Inl (Source e)
      | Inr batch \<Rightarrow> expand_level source frontier direction filt other (expand_batch u other batch st))"

fun meet_totals :: "ParentMap \<Rightarrow> ParentMap \<Rightarrow> NodeId list \<Rightarrow> (nat \<times> NodeId) list option" where
  "meet_totals fwd bwd [] = Some []"
| "meet_totals fwd bwd (m # meets) =
     Option.bind (depth_of fwd m) (\<lambda>f. Option.bind (depth_of bwd m) (\<lambda>b.
       map_option ((#) (f + b, m)) (meet_totals fwd bwd meets)))"

text \<open>\<open>min_by_key\<close> on the pair of total and node id; the first of equal minima stays.\<close>

definition min_meet :: "nat \<times> NodeId \<Rightarrow> nat \<times> NodeId \<Rightarrow> nat \<times> NodeId" where
  "min_meet x best =
     (if fst x < fst best \<or> fst x = fst best \<and> snd x < snd best then x else best)"

definition finish_meets ::
  "u32 \<Rightarrow> ParentMap \<Rightarrow> ParentMap \<Rightarrow> NodeId list \<Rightarrow> ('err TraversalError + PathResult option) option" where
  "finish_meets max_hops fwd bwd meets =
     Option.bind (meet_totals fwd bwd meets) (\<lambda>totals.
       let (total, meet) = fold min_meet (tl totals) (hd totals) in
       if (word_of_nat total :: u32) > max_hops then Some (Inr None)
       else Option.bind (chain_to_root fwd meet) (\<lambda>(f_nodes, f_rels).
              Option.bind (chain_to_root bwd meet) (\<lambda>(b_nodes, b_rels).
                Some (Inr (Some \<lparr> pr_nodes = rev f_nodes @ tl b_nodes, pr_rels = rev f_rels @ b_rels \<rparr>)))))"

text \<open>Every turn counts one more level below \<open>max_hops\<close>.\<close>

lemma unat_next_level: "expanded < (bound :: u32) \<Longrightarrow> unat (expanded + 1) = Suc (unat expanded)"
proof -
  assume "expanded < bound"
  then have "unat expanded < unat bound" by (simp add: word_less_nat_alt)
  moreover have "unat bound < 2 ^ 32" using unsigned_less [of bound, where 'a = nat] by simp
  ultimately show ?thesis by (simp add: unat_word_ariths(1))
qed

function bidirectional_loop ::
  "('n, 'e, 'err) EdgeSource \<Rightarrow> u32 \<Rightarrow> TraversalDirection \<Rightarrow> EdgeFilter \<Rightarrow>
   ParentMap \<Rightarrow> ParentMap \<Rightarrow> NodeId list \<Rightarrow> NodeId list \<Rightarrow> u32 \<Rightarrow>
   ('err TraversalError + PathResult option) option" where
  "bidirectional_loop source max_hops direction filt fwd bwd fwd_frontier bwd_frontier expanded_levels =
     (if fwd_frontier \<noteq> [] \<and> bwd_frontier \<noteq> [] \<and> expanded_levels < max_hops then
        (if length fwd_frontier \<le> length bwd_frontier then
           (case expand_level source fwd_frontier direction filt bwd (fwd, [], []) of
              Inl e \<Rightarrow> Some (Inl e)
            | Inr (fwd, meets, fwd_frontier) \<Rightarrow>
                if meets \<noteq> [] then finish_meets max_hops fwd bwd meets
                else bidirectional_loop source max_hops direction filt fwd bwd fwd_frontier bwd_frontier
                       (expanded_levels + 1))
         else
           (case expand_level source bwd_frontier (TraversalDirection_inverse direction) filt fwd (bwd, [], []) of
              Inl e \<Rightarrow> Some (Inl e)
            | Inr (bwd, meets, bwd_frontier) \<Rightarrow>
                if meets \<noteq> [] then finish_meets max_hops fwd bwd meets
                else bidirectional_loop source max_hops direction filt fwd bwd fwd_frontier bwd_frontier
                       (expanded_levels + 1)))
      else Some (Inr None))"
  by pat_completeness auto

termination
proof (relation "measure (\<lambda>(_, max_hops, _, _, _, _, _, _, expanded). unat max_hops - unat expanded)")
qed (auto simp: unat_next_level word_less_nat_alt intro!: diff_less_mono2)

declare bidirectional_loop.simps [simp del]

definition bidirectional_shortest ::
  "('n, 'e, 'err) EdgeSource \<Rightarrow> NodeId \<Rightarrow> NodeId \<Rightarrow> u32 \<Rightarrow> TraversalDirection \<Rightarrow> EdgeFilter \<Rightarrow>
   ('err TraversalError + PathResult option) option" where
  "bidirectional_shortest source src dst max_hops direction filt =
     (if src = dst then Some (Inr (Some \<lparr> pr_nodes = [src], pr_rels = [] \<rparr>))
      else if max_hops = 0 then Some (Inr None)
      else bidirectional_loop source max_hops direction filt [src \<mapsto> None] [dst \<mapsto> None] [src] [dst] 0)"

section \<open>Search with bans\<close>

text \<open>The loops of \<open>constrained_shortest\<close>; a left result is the early return at the target.\<close>

fun scan_batch ::
  "NodeId set \<Rightarrow> RelId set \<Rightarrow> NodeId \<Rightarrow> NodeId \<Rightarrow> ('n, 'e) Neighbor list \<Rightarrow> ParentMap \<times> NodeId list \<Rightarrow>
   ParentMap + ParentMap \<times> NodeId list" where
  "scan_batch banned_nodes banned_edges dst u [] st = Inr st"
| "scan_batch banned_nodes banned_edges dst u (nb # batch) (parents, next) =
     (if nb_rel_id nb \<in> banned_edges \<or> nb_dst nb \<in> banned_nodes \<or> parents (nb_dst nb) \<noteq> None then
        scan_batch banned_nodes banned_edges dst u batch (parents, next)
      else if nb_dst nb = dst then Inl (parents(nb_dst nb \<mapsto> Some (u, nb_rel_id nb)))
      else scan_batch banned_nodes banned_edges dst u batch
             (parents(nb_dst nb \<mapsto> Some (u, nb_rel_id nb)), next @ [nb_dst nb]))"

fun scan_level ::
  "('n, 'e, 'err) EdgeSource \<Rightarrow> TraversalDirection \<Rightarrow> EdgeFilter \<Rightarrow> NodeId set \<Rightarrow> RelId set \<Rightarrow> NodeId \<Rightarrow>
   NodeId list \<Rightarrow> ParentMap \<times> NodeId list \<Rightarrow>
   'err TraversalError + (ParentMap + ParentMap \<times> NodeId list)" where
  "scan_level source direction filt banned_nodes banned_edges dst [] st = Inr (Inr st)"
| "scan_level source direction filt banned_nodes banned_edges dst (u # frontier) st =
     (case source u direction filt of
        Inl e \<Rightarrow> Inl (Source e)
      | Inr batch \<Rightarrow>
          (case scan_batch banned_nodes banned_edges dst u batch st of
             Inl parents \<Rightarrow> Inr (Inl parents)
           | Inr st \<Rightarrow> scan_level source direction filt banned_nodes banned_edges dst frontier st))"

text \<open>\<open>for _ in 0..max_hops\<close>\<close>

fun constrained_loop ::
  "('n, 'e, 'err) EdgeSource \<Rightarrow> TraversalDirection \<Rightarrow> EdgeFilter \<Rightarrow> NodeId set \<Rightarrow> RelId set \<Rightarrow> NodeId \<Rightarrow>
   nat \<Rightarrow> ParentMap \<Rightarrow> NodeId list \<Rightarrow> ('err TraversalError + PathResult option) option" where
  "constrained_loop source direction filt banned_nodes banned_edges dst 0 parents frontier = Some (Inr None)"
| "constrained_loop source direction filt banned_nodes banned_edges dst (Suc n) parents frontier =
     (if frontier = [] then Some (Inr None)
      else case scan_level source direction filt banned_nodes banned_edges dst frontier (parents, []) of
             Inl e \<Rightarrow> Some (Inl e)
           | Inr (Inl parents) \<Rightarrow>
               map_option (\<lambda>(nodes, rels). Inr (Some \<lparr> pr_nodes = rev nodes, pr_rels = rev rels \<rparr>))
                 (chain_to_root parents dst)
           | Inr (Inr (parents, next)) \<Rightarrow>
               constrained_loop source direction filt banned_nodes banned_edges dst n parents next)"

definition constrained_shortest ::
  "('n, 'e, 'err) EdgeSource \<Rightarrow> NodeId \<Rightarrow> NodeId \<Rightarrow> u32 \<Rightarrow> TraversalDirection \<Rightarrow> EdgeFilter \<Rightarrow>
   NodeId set \<Rightarrow> RelId set \<Rightarrow> ('err TraversalError + PathResult option) option" where
  "constrained_shortest source src dst max_hops direction filt banned_nodes banned_edges =
     (if src \<in> banned_nodes \<or> dst \<in> banned_nodes then Some (Inr None)
      else if src = dst then Some (Inr (Some \<lparr> pr_nodes = [src], pr_rels = [] \<rparr>))
      else constrained_loop source direction filt banned_nodes banned_edges dst (unat max_hops)
             [src \<mapsto> None] [src])"

section \<open>One level of a search\<close>

text \<open>What scanning a list of nodes does to a parent map: the new nodes are the unseen successors,
  each with a parent among the scanned nodes.\<close>

definition grows :: "graph \<Rightarrow> NodeId set \<Rightarrow> ParentMap \<Rightarrow> ParentMap \<Rightarrow> NodeId list \<Rightarrow> bool" where
  "grows A us P P' new \<longleftrightarrow>
     P \<subseteq>\<^sub>m P' \<and> dom P' = dom P \<union> set new \<and> (\<forall>v. v \<in> set new \<longleftrightarrow> (\<exists>u \<in> us. \<exists>r. (r, v) \<in> A u) \<and> v \<notin> dom P) \<and>
     (\<forall>v \<in> set new. \<exists>u \<in> us. \<exists>r. P' v = Some (Some (u, r)) \<and> (r, v) \<in> A u)"

lemma growsI:
  assumes "P \<subseteq>\<^sub>m P'" "dom P' = dom P \<union> set new"
    and "\<And>v. v \<in> set new \<longleftrightarrow> (\<exists>u \<in> us. \<exists>r. (r, v) \<in> A u) \<and> v \<notin> dom P"
    and "\<And>v. v \<in> set new \<Longrightarrow> \<exists>u \<in> us. \<exists>r. P' v = Some (Some (u, r)) \<and> (r, v) \<in> A u"
  shows "grows A us P P' new"
  using assms by (simp add: grows_def)

lemma growsD:
  assumes "grows A us P P' new"
  shows "P \<subseteq>\<^sub>m P'" "dom P' = dom P \<union> set new"
    and "v \<in> set new \<longleftrightarrow> (\<exists>u \<in> us. \<exists>r. (r, v) \<in> A u) \<and> v \<notin> dom P"
    and "v \<in> set new \<Longrightarrow> \<exists>u \<in> us. \<exists>r. P' v = Some (Some (u, r)) \<and> (r, v) \<in> A u"
  using assms unfolding grows_def by (blast, blast, metis, blast)

lemma grows_empty [simp]: "grows A {} P P []"
  by (simp add: grows_def)

lemma grows_trans:
  assumes g1: "grows A us P P1 new1" and g2: "grows A vs P1 P2 new2"
  shows "grows A (us \<union> vs) P P2 (new1 @ new2)"
proof (rule growsI)
  show "P \<subseteq>\<^sub>m P2" by (rule map_le_trans [OF growsD(1) [OF g1] growsD(1) [OF g2]])
  show "dom P2 = dom P \<union> set (new1 @ new2)" using growsD(2) [OF g1] growsD(2) [OF g2] by auto
next
  fix v
  show "v \<in> set (new1 @ new2) \<longleftrightarrow> (\<exists>u \<in> us \<union> vs. \<exists>r. (r, v) \<in> A u) \<and> v \<notin> dom P"
    using growsD(2) [OF g1] growsD(3) [OF g1, of v] growsD(3) [OF g2, of v] by auto
next
  fix v assume "v \<in> set (new1 @ new2)"
  then consider "v \<in> set new1" | "v \<in> set new2" by auto
  then show "\<exists>u \<in> us \<union> vs. \<exists>r. P2 v = Some (Some (u, r)) \<and> (r, v) \<in> A u"
  proof cases
    case 1
    then have "P2 v = P1 v" using growsD(2) [OF g1] growsD(1) [OF g2] by (auto simp: map_le_def)
    then show ?thesis using growsD(4) [OF g1 1] by auto
  next
    case 2
    then show ?thesis using growsD(4) [OF g2 2] by auto
  qed
qed

lemma grows_skip:
  assumes g: "grows A {u} P P' new" and B: "B u = insert (r, v) (A u)" "v \<in> dom P"
  shows "grows B {u} P P' new"
proof (rule growsI [OF growsD(1,2) [OF g]])
  show "w \<in> set new \<longleftrightarrow> (\<exists>u \<in> {u}. \<exists>r. (r, w) \<in> B u) \<and> w \<notin> dom P" for w
    using growsD(3) [OF g, of w] B by auto
  show "\<exists>u \<in> {u}. \<exists>r. P' w = Some (Some (u, r)) \<and> (r, w) \<in> B u" if "w \<in> set new" for w
    using growsD(4) [OF g that] B by auto
qed

lemma grows_add:
  assumes g: "grows A {u} (P(v \<mapsto> Some (u, r))) P' new" and B: "B u = insert (r, v) (A u)" "v \<notin> dom P"
  shows "grows B {u} P P' (v # new)"
proof (rule growsI)
  have "P \<subseteq>\<^sub>m P(v \<mapsto> Some (u, r))" using B by (simp add: map_le_def)
  then show "P \<subseteq>\<^sub>m P'" using growsD(1) [OF g] by (rule map_le_trans)
  show "dom P' = dom P \<union> set (v # new)" using growsD(2) [OF g] by auto
  show "w \<in> set (v # new) \<longleftrightarrow> (\<exists>u \<in> {u}. \<exists>r. (r, w) \<in> B u) \<and> w \<notin> dom P" for w
    using growsD(3) [OF g, of w] B by auto
  have "P' v = Some (Some (u, r))" using growsD(1) [OF g] by (auto simp: map_le_def)
  then show "\<exists>u \<in> {u}. \<exists>r. P' w = Some (Some (u, r)) \<and> (r, w) \<in> B u" if "w \<in> set (v # new)" for w
    using growsD(4) [OF g, of w] that B by auto
qed

lemma grows_cong:
  assumes g: "grows A us P P' new" and B: "\<And>u. u \<in> us \<Longrightarrow> A u = B u"
  shows "grows B us P P' new"
proof (rule growsI [OF growsD(1,2) [OF g]])
  show "v \<in> set new \<longleftrightarrow> (\<exists>u \<in> us. \<exists>r. (r, v) \<in> B u) \<and> v \<notin> dom P" for v
    using growsD(3) [OF g, of v] B by simp
  show "\<exists>u \<in> us. \<exists>r. P' v = Some (Some (u, r)) \<and> (r, v) \<in> B u" if "v \<in> set new" for v
    using growsD(4) [OF g that] B by simp
qed

text \<open>The graph a batch describes, for one node.\<close>

abbreviation batch_graph :: "('n, 'e) Neighbor list \<Rightarrow> graph" where
  "batch_graph batch \<equiv> \<lambda>_. step_of ` set batch"

lemma expand_batch_grows:
  "\<exists>P' new. expand_batch u other batch (P, meets, next) =
     (P', meets @ filter (\<lambda>v. other v \<noteq> None) new, next @ new) \<and> grows (batch_graph batch) {u} P P' new"
proof (induction batch arbitrary: P meets "next")
  case Nil
  then show ?case by (auto simp: grows_def)
next
  case (Cons nb batch)
  show ?case
  proof (cases "P (nb_dst nb)")
    case None
    obtain P' new where e: "expand_batch u other batch (P(nb_dst nb \<mapsto> Some (u, nb_rel_id nb)),
          if other (nb_dst nb) \<noteq> None then meets @ [nb_dst nb] else meets, next @ [nb_dst nb]) =
        (P', (if other (nb_dst nb) \<noteq> None then meets @ [nb_dst nb] else meets) @ filter (\<lambda>v. other v \<noteq> None) new,
         (next @ [nb_dst nb]) @ new)"
      and g: "grows (batch_graph batch) {u} (P(nb_dst nb \<mapsto> Some (u, nb_rel_id nb))) P' new"
      using Cons.IH by blast
    have "grows (batch_graph (nb # batch)) {u} P P' (nb_dst nb # new)"
      by (rule grows_add [OF g]) (auto simp: None step_of_def)
    moreover have "expand_batch u other (nb # batch) (P, meets, next) =
        (P', meets @ filter (\<lambda>v. other v \<noteq> None) (nb_dst nb # new), next @ nb_dst nb # new)"
      using e None by simp
    ultimately show ?thesis by blast
  next
    case (Some y)
    obtain P' new where e: "expand_batch u other batch (P, meets, next) =
        (P', meets @ filter (\<lambda>v. other v \<noteq> None) new, next @ new)"
      and g: "grows (batch_graph batch) {u} P P' new"
      using Cons.IH by blast
    have "grows (batch_graph (nb # batch)) {u} P P' new"
      by (rule grows_skip [OF g]) (auto simp: Some step_of_def)
    moreover have "expand_batch u other (nb # batch) (P, meets, next) = expand_batch u other batch (P, meets, next)"
      using Some by simp
    ultimately show ?thesis using e by metis
  qed
qed

text \<open>A level of the two-sided search.\<close>

lemma expand_level_grows:
  assumes "\<And>node. \<exists>batch. S node direction filt = Inr batch"
  shows "\<exists>P' new. expand_level S us direction filt other (P, meets, next) =
     Inr (P', meets @ filter (\<lambda>v. other v \<noteq> None) new, next @ new) \<and>
     grows (steps S direction filt) (set us) P P' new"
proof (induction us arbitrary: P meets "next")
  case Nil
  then show ?case by auto
next
  case (Cons u us)
  obtain batch where batch: "S u direction filt = Inr batch" using assms by blast
  obtain P1 new1 where e1: "expand_batch u other batch (P, meets, next) =
      (P1, meets @ filter (\<lambda>v. other v \<noteq> None) new1, next @ new1)"
    and g1: "grows (batch_graph batch) {u} P P1 new1"
    using expand_batch_grows by blast
  obtain P2 new2 where
    e2: "expand_level S us direction filt other (P1, meets @ filter (\<lambda>v. other v \<noteq> None) new1, next @ new1) =
      Inr (P2, (meets @ filter (\<lambda>v. other v \<noteq> None) new1) @ filter (\<lambda>v. other v \<noteq> None) new2, (next @ new1) @ new2)"
    and g2: "grows (steps S direction filt) (set us) P1 P2 new2"
    using Cons.IH by blast
  have "grows (steps S direction filt) {u} P P1 new1"
    by (rule grows_cong [OF g1]) (simp add: steps_def batch)
  then have "grows (steps S direction filt) ({u} \<union> set us) P P2 (new1 @ new2)"
    using g2 by (rule grows_trans)
  moreover have "expand_level S (u # us) direction filt other (P, meets, next) =
      Inr (P2, meets @ filter (\<lambda>v. other v \<noteq> None) (new1 @ new2), next @ new1 @ new2)"
    using e1 e2 batch by simp
  ultimately show ?case by auto
qed

section \<open>The state of one side of a search\<close>

definition tree :: "graph \<Rightarrow> NodeId \<Rightarrow> nat \<Rightarrow> ParentMap \<Rightarrow> bool" where
  "tree A s n P \<longleftrightarrow> P s = Some None \<and>
     (\<forall>m < n. \<forall>v \<in> level A s (Suc m). \<exists>u \<in> level A s m. \<exists>r. P v = Some (Some (u, r)) \<and> (r, v) \<in> A u)"

definition side :: "graph \<Rightarrow> NodeId \<Rightarrow> nat \<Rightarrow> ParentMap \<Rightarrow> NodeId list \<Rightarrow> bool" where
  "side A s n P frontier \<longleftrightarrow> tree A s n P \<and> dom P = within A s n \<and> set frontier = level A s n"

lemma side_start: "side A s 0 [s \<mapsto> None] [s]"
  by (simp add: side_def tree_def)

lemma tree_map_le:
  assumes "tree A s n P" "P \<subseteq>\<^sub>m P'"
  shows "tree A s n P'"
proof -
  have "P' v = P v" if "P v = Some x" for v x using that assms(2) by (auto simp: map_le_def dom_def)
  then show ?thesis using assms(1) unfolding tree_def by (metis (no_types, lifting))
qed

lemma side_grows:
  assumes "side A s n P frontier" "grows A (set frontier) P P' new"
  shows "side A s (Suc n) P' new"
proof -
  have d: "dom P = within A s n" and f: "set frontier = level A s n" and t: "tree A s n P"
    using assms(1) by (auto simp: side_def)
  have new: "set new = level A s (Suc n)"
    using growsD(3) [OF assms(2)] unfolding level_Suc d f by blast
  have "dom P' = within A s (Suc n)"
    using growsD(2) [OF assms(2)] new d within_level [of A s n] by (simp del: level.simps)
  moreover have "tree A s (Suc n) P'"
    using tree_map_le [OF t growsD(1) [OF assms(2)]] growsD(4) [OF assms(2)] new f
    unfolding tree_def less_Suc_eq by (metis (no_types, lifting))
  ultimately show ?thesis using new by (simp add: side_def del: level.simps)
qed

lemma within_level_ex: "v \<in> within A s n \<Longrightarrow> \<exists>m \<le> n. v \<in> level A s m"
proof (induction n)
  case (Suc n)
  then show ?case unfolding within_level by (metis UnE le_Suc_eq)
qed simp

lemma chain_extend:
  assumes "walk A s es u" "P v = Some (Some (u, r))"
    and "\<And>nodes rels. chain_walk P u nodes rels = Some (nodes @ tl (rev (s # map snd es)), rels @ rev (map fst es))"
  shows "chain_walk P v nodes rels =
    Some (nodes @ tl (rev (s # map snd (es @ [(r, v)]))), rels @ rev (map fst (es @ [(r, v)])))"
proof -
  have "rev (s # map snd es) = u # tl (rev (s # map snd es))"
    using reverse_walk_nodes [OF assms(1)] by (metis list.sel(3))
  then show ?thesis by (subst chain_walk.simps) (simp add: assms(2,3))
qed

text \<open>In a tree the chain of parents ends at the root and spells a shortest walk.\<close>

lemma tree_chain:
  assumes "tree A s n P" "v \<in> level A s m" "m \<le> n"
  shows "\<exists>es. walk A s es v \<and> length es = m \<and>
     (\<forall>nodes rels. chain_walk P v nodes rels =
        Some (nodes @ tl (rev (s # map snd es)), rels @ rev (map fst es)))"
  using assms(2,3)
proof (induction m arbitrary: v)
  case 0
  then have "v = s" by simp
  then have "chain_walk P v nodes rels = Some (nodes, rels)" for nodes rels
    using assms(1) by (subst chain_walk.simps) (simp add: tree_def)
  then show ?case using \<open>v = s\<close> by (intro exI [of _ "[]"]) simp
next
  case (Suc m)
  then obtain u r where u: "u \<in> level A s m" "P v = Some (Some (u, r))" "(r, v) \<in> A u"
    using assms(1) unfolding tree_def by (metis Suc_le_lessD)
  then obtain es where es: "walk A s es u" "length es = m"
      "\<And>nodes rels. chain_walk P u nodes rels = Some (nodes @ tl (rev (s # map snd es)), rels @ rev (map fst es))"
    using Suc by (metis Suc_leD)
  show ?case using chain_extend [where P = P, OF es(1) u(2) es(3)] es(1,2) u(3) by (intro exI [of _ "es @ [(r, v)]"]) auto
qed

lemma chain_to_rootI:
  assumes "walk A s es v" "\<And>nodes rels. chain_walk P v nodes rels = Some (nodes @ tl (rev (s # map snd es)), rels @ rev (map fst es))"
  shows "chain_to_root P v = Some (rev (s # map snd es), rev (map fst es))"
proof -
  have "rev (s # map snd es) = v # tl (rev (s # map snd es))"
    using reverse_walk_nodes [OF assms(1)] by (metis list.sel(3))
  then show ?thesis using assms(2) [of "[v]" "[]"] by (simp add: chain_to_root_def)
qed

lemma tree_chain_to_root:
  assumes "tree A s n P" "v \<in> level A s m" "m \<le> n"
  shows "\<exists>es. walk A s es v \<and> length es = m \<and>
     chain_to_root P v = Some (rev (s # map snd es), rev (map fst es)) \<and> depth_of P v = Some m"
  using tree_chain [OF assms] chain_to_rootI [of A s _ v P] by (fastforce simp: depth_of_def)

section \<open>Correctness of the search from both ends\<close>

text \<open>What a shortest path query promises: a path from source to target along the steps of the graph,
  no longer than the bound and than any other walk; no answer exactly when every walk is longer than the
  bound.\<close>

definition spells :: "NodeId \<Rightarrow> step list \<Rightarrow> PathResult \<Rightarrow> bool" where
  "spells s es p \<longleftrightarrow> pr_nodes p = s # map snd es \<and> pr_rels p = map fst es"

fun shortest_answer :: "graph \<Rightarrow> NodeId \<Rightarrow> NodeId \<Rightarrow> nat \<Rightarrow> PathResult option \<Rightarrow> bool" where
  "shortest_answer A s t n None \<longleftrightarrow> (\<forall>es. walk A s es t \<longrightarrow> n < length es)"
| "shortest_answer A s t n (Some p) \<longleftrightarrow>
     (\<exists>es. walk A s es t \<and> spells s es p \<and> length es \<le> n \<and> (\<forall>es'. walk A s es' t \<longrightarrow> length es \<le> length es'))"

lemma shortest_answerI:
  "walk A s es t \<Longrightarrow> spells s es p \<Longrightarrow> length es \<le> n \<Longrightarrow>
   (\<And>es'. walk A s es' t \<Longrightarrow> length es \<le> length es') \<Longrightarrow> shortest_answer A s t n (Some p)"
  by auto

declare shortest_answer.simps [simp del]

lemma disjoint_walk_length:
  assumes mirror: "\<And>r u v. (r, v) \<in> A u \<Longrightarrow> (r, u) \<in> B v"
    and disj: "within A s a \<inter> within B t b = {}" and w: "walk A s es t"
  shows "a + b < length es"
proof (rule ccontr)
  assume "\<not> a + b < length es"
  then have l: "length (take a es) \<le> a" "length (drop a es) \<le> b" by auto
  obtain m where m: "walk A s (take a es) m" "walk A m (drop a es) t"
    using w walk_append [of A s "take a es" "drop a es" t] by auto
  have "m \<in> within A s a" using m(1) l(1) by (auto simp: within_def)
  moreover have "m \<in> within B t b"
    using walk_reverse [OF mirror m(2)] l(2) length_reverse_walk [of m "drop a es"]
    unfolding within_def by fastforce
  ultimately show False using disj by blast
qed

lemma fold_min_meet:
  "(\<And>x. x \<in> set (y # ys) \<Longrightarrow> fst x = k \<and> snd x \<in> M) \<Longrightarrow> \<exists>m \<in> M. fold min_meet ys y = (k, m)"
proof (induction ys arbitrary: y)
  case Nil
  then show ?case by (cases y) auto
next
  case (Cons x ys)
  have "\<exists>m \<in> M. fold min_meet ys (min_meet x y) = (k, m)"
    by (rule Cons.IH) (use Cons.prems in \<open>auto simp: min_meet_def split: if_splits\<close>)
  then show ?case by simp
qed

lemma meet_totals_eval:
  "(\<And>m. m \<in> set meets \<Longrightarrow> \<exists>f b. depth_of P m = Some f \<and> depth_of Q m = Some b \<and> f + b = k) \<Longrightarrow>
   meet_totals P Q meets = Some (map (Pair k) meets)"
  by (induction meets) fastforce+

text \<open>When the two sides meet for the first time, every meet lies on a shortest path.\<close>

lemma finish_meets_shortest:
  assumes mirror: "\<And>r u v. (r, v) \<in> A u \<longleftrightarrow> (r, u) \<in> B v"
    and P: "tree A s a P" "dom P = within A s a" and Q: "tree B t b Q" "dom Q = within B t b"
    and far: "\<And>es. walk A s es t \<Longrightarrow> a + b \<le> length es" and n: "a + b \<le> unat max_hops"
    and meets: "meets \<noteq> []" "set meets \<subseteq> dom P \<inter> dom Q"
  shows "\<exists>p. finish_meets max_hops P Q meets = Some (Inr (Some p)) \<and> shortest_answer A s t (unat max_hops) (Some p)"
proof -
  have total: "\<exists>es es'. walk A s es m \<and> walk B t es' m \<and> length es + length es' = a + b \<and>
      chain_to_root P m = Some (rev (s # map snd es), rev (map fst es)) \<and> depth_of P m = Some (length es) \<and>
      chain_to_root Q m = Some (rev (t # map snd es'), rev (map fst es')) \<and> depth_of Q m = Some (length es')"
    if m: "m \<in> set meets" for m
  proof -
    obtain i j where i: "m \<in> level A s i" "i \<le> a" and j: "m \<in> level B t j" "j \<le> b"
      using m meets(2) P(2) Q(2) within_level_ex by blast
    obtain es where es: "walk A s es m" "length es = i" "depth_of P m = Some i"
        "chain_to_root P m = Some (rev (s # map snd es), rev (map fst es))"
      using tree_chain_to_root [OF P(1) i] by blast
    obtain es' where es': "walk B t es' m" "length es' = j" "depth_of Q m = Some j"
        "chain_to_root Q m = Some (rev (t # map snd es'), rev (map fst es'))"
      using tree_chain_to_root [OF Q(1) j] by blast
    have "walk A s (es @ reverse_walk t es') t"
      using es(1) walk_reverse [OF _ es'(1)] mirror by auto
    then have "a + b \<le> i + j" using far es(2) es'(2) by fastforce
    then show ?thesis using es es' i j by (intro exI [of _ es] exI [of _ es']) auto
  qed
  have "meet_totals P Q meets = Some (map (Pair (a + b)) meets)"
    by (rule meet_totals_eval) (use total in blast)
  moreover obtain m0 ms where ms: "meets = m0 # ms" using meets(1) by (cases meets) auto
  moreover have "\<exists>m \<in> set meets. fold min_meet (map (Pair (a + b)) ms) (a + b, m0) = (a + b, m)"
    by (rule fold_min_meet) (auto simp: ms)
  then obtain m where m: "m \<in> set meets" "fold min_meet (map (Pair (a + b)) ms) (a + b, m0) = (a + b, m)"
    by blast
  moreover note m
  moreover obtain es es' where w: "walk A s es m" "walk B t es' m" "length es + length es' = a + b"
      "chain_to_root P m = Some (rev (s # map snd es), rev (map fst es))"
      "chain_to_root Q m = Some (rev (t # map snd es'), rev (map fst es'))"
    using total [OF m(1)] by blast
  moreover have "\<not> (word_of_nat (a + b) :: u32) > max_hops"
    using n by (simp add: word_less_nat_alt unat_of_nat not_less del: of_nat_add)
  ultimately have fin: "finish_meets max_hops P Q meets =
      Some (Inr (Some \<lparr> pr_nodes = s # map snd es @ tl (rev (t # map snd es')), pr_rels = map fst es @ rev (map fst es') \<rparr>))"
    by (simp add: finish_meets_def del: of_nat_add)
  let ?es = "es @ reverse_walk t es'"
  have "rev (t # map snd es') = m # map snd (reverse_walk t es')" using reverse_walk_nodes [OF w(2)] by simp
  then have sp: "spells s ?es \<lparr> pr_nodes = s # map snd es @ tl (rev (t # map snd es')), pr_rels = map fst es @ rev (map fst es') \<rparr>"
    by (simp add: spells_def reverse_walk_rels)
  have "walk A s ?es t" using w(1) walk_reverse [OF _ w(2)] mirror by auto
  then have "shortest_answer A s t (unat max_hops)
      (Some \<lparr> pr_nodes = s # map snd es @ tl (rev (t # map snd es')), pr_rels = map fst es @ rev (map fst es') \<rparr>)"
    using sp by (rule shortest_answerI) (use w(3) far n in simp_all)
  then show ?thesis using fin by blast
qed

text \<open>An exhausted or bounded search has no answer to give.\<close>

lemma no_answer:
  assumes mirror: "\<And>r u v. (r, v) \<in> A u \<longleftrightarrow> (r, u) \<in> B v"
    and disj: "within A s a \<inter> within B t b = {}"
    and stop: "level A s a = {} \<or> level B t b = {} \<or> n \<le> a + b"
  shows "shortest_answer A s t n None"
proof -
  have "n < length es" if w: "walk A s es t" for es
  proof -
    have "walk B t (reverse_walk s es) s" using walk_reverse [OF _ w] mirror by auto
    then have "level A s a \<noteq> {}" "level B t b \<noteq> {}"
      using level_empty_walk [of A s a es t] level_empty_walk [of B t b _ s] w disj by auto
    then show ?thesis using stop disjoint_walk_length [OF _ disj w] mirror by auto
  qed
  then show ?thesis by (simp add: shortest_answer.simps)
qed

text \<open>One turn of the loop, on either side.\<close>

lemma expand_turn:
  assumes tot: "\<And>node. \<exists>batch. S node d f = Inr batch"
    and P: "side (steps S d f) s a P F" and Q: "dom Q = M" and disj: "within (steps S d f) s a \<inter> M = {}"
  shows "\<exists>P' meets new. expand_level S F d f Q (P, [], []) = Inr (P', meets, new) \<and>
     side (steps S d f) s (Suc a) P' new \<and> set meets \<subseteq> dom P' \<inter> dom Q \<and>
     (meets = [] \<longrightarrow> within (steps S d f) s (Suc a) \<inter> M = {})"
proof -
  obtain P' new where e: "expand_level S F d f Q (P, [], []) = Inr (P', filter (\<lambda>v. Q v \<noteq> None) new, new)"
    and g: "grows (steps S d f) (set F) P P' new"
    using expand_level_grows [of S d f F Q P "[]" "[]"] tot by auto
  have side: "side (steps S d f) s (Suc a) P' new" by (rule side_grows [OF P g])
  then have "within (steps S d f) s (Suc a) = dom P'" by (simp add: side_def)
  also have "\<dots> = within (steps S d f) s a \<union> set new" using P growsD(2) [OF g] by (simp add: side_def)
  finally have "within (steps S d f) s (Suc a) \<inter> M = {}" if "filter (\<lambda>v. Q v \<noteq> None) new = []"
    using that disj Q by (auto simp: filter_empty_conv)
  moreover have "set (filter (\<lambda>v. Q v \<noteq> None) new) \<subseteq> dom P' \<inter> dom Q" using growsD(2) [OF g] by auto
  ultimately show ?thesis using e side by blast
qed

context edge_source
begin

lemma loop_shortest:
  assumes "side (steps S d f) s a P F" "side (steps S (TraversalDirection_inverse d) f) t b Q G"
    and "within (steps S d f) s a \<inter> within (steps S (TraversalDirection_inverse d) f) t b = {}"
    and "a + b = unat lv" "lv \<le> max_hops"
  shows "\<exists>r. bidirectional_loop S max_hops d f P Q F G lv = Some (Inr r) \<and>
    shortest_answer (steps S d f) s t (unat max_hops) r"
  using assms
proof (induction "unat max_hops - unat lv" arbitrary: a b P Q F G lv rule: less_induct)
  case less
  let ?A = "steps S d f" and ?B = "steps S (TraversalDirection_inverse d) f"
  note side = less.prems(1,2) and disj = less.prems(3)
  have D: "dom P = within ?A s a" "dom Q = within ?B t b" "set F = level ?A s a" "set G = level ?B t b"
    "tree ?A s a P" "tree ?B t b Q"
    using side by (auto simp: side_def)
  have far: "Suc (a + b) \<le> length es" if "walk ?A s es t" for es
    using disjoint_walk_length [OF _ disj that] mirror by (simp add: Suc_le_eq)
  show ?case
  proof (cases "F \<noteq> [] \<and> G \<noteq> [] \<and> lv < max_hops")
    case False
    then have "level ?A s a = {} \<or> level ?B t b = {} \<or> unat max_hops \<le> a + b"
      using D(3,4) less.prems(4,5) by auto
    from no_answer [OF mirror disj this] show ?thesis
      using False by (subst bidirectional_loop.simps) auto
  next
    case go: True
    then have lv: "unat (lv + 1) = Suc (a + b)" "Suc (a + b) \<le> unat max_hops" "lv + 1 \<le> max_hops"
        "unat max_hops - unat (lv + 1) < unat max_hops - unat lv"
      using less.prems(4) unat_next_level [of lv max_hops] by (auto simp: word_less_nat_alt word_le_nat_alt)
    show ?thesis
    proof (cases "length F \<le> length G")
      case True
      obtain P' meets new where e: "expand_level S F d f Q (P, [], []) = Inr (P', meets, new)"
        and new: "side ?A s (Suc a) P' new" "set meets \<subseteq> dom P' \<inter> dom Q"
          "meets = [] \<longrightarrow> within ?A s (Suc a) \<inter> within ?B t b = {}"
        using expand_turn [OF total side(1) D(2) disj] by blast
      show ?thesis
        using less.hyps [OF lv(4) new(1) side(2)] new lv go True e far D
          finish_meets_shortest [OF mirror, of d f s "Suc a" P' t b Q max_hops meets]
        by (subst bidirectional_loop.simps) (cases "meets = []"; auto simp: side_def)
    next
      case False
      obtain Q' meets new where e: "expand_level S G (TraversalDirection_inverse d) f P (Q, [], []) = Inr (Q', meets, new)"
        and new: "side ?B t (Suc b) Q' new" "set meets \<subseteq> dom Q' \<inter> dom P"
          "meets = [] \<longrightarrow> within ?B t (Suc b) \<inter> within ?A s a = {}"
        using expand_turn [OF total side(2) D(1)] disj by blast
      show ?thesis
        using less.hyps [OF lv(4) side(1) new(1)] new lv go False e far D
          finish_meets_shortest [OF mirror, of d f s a P t "Suc b" Q' max_hops meets]
        by (subst bidirectional_loop.simps) (cases "meets = []"; auto simp: side_def)
    qed
  qed
qed

lemma bidirectional_correct:
  "\<exists>r. bidirectional_shortest S s t max_hops d f = Some (Inr r) \<and> shortest_answer (steps S d f) s t (unat max_hops) r"
proof (cases "s = t")
  case True
  then have "shortest_answer (steps S d f) s t (unat max_hops) (Some \<lparr> pr_nodes = [s], pr_rels = [] \<rparr>)"
    by (intro shortest_answerI [of _ _ "[]"]) (auto simp: spells_def)
  then show ?thesis using True by (simp add: bidirectional_shortest_def)
next
  case False
  note start = loop_shortest [OF side_start side_start, of d f s t 0 max_hops]
  show ?thesis
  proof (cases "max_hops = 0")
    case True
    have "shortest_answer (steps S d f) s t 0 None"
      using no_answer [OF mirror, of d f s 0 t 0 0] False by simp
    then show ?thesis using True False by (simp add: bidirectional_shortest_def)
  next
    case pos: False
    then show ?thesis using start False by (simp add: bidirectional_shortest_def)
  qed
qed

end

section \<open>Correctness of the search with bans\<close>

text \<open>The graph without the banned nodes and relationships.\<close>

definition allowed :: "NodeId set \<Rightarrow> RelId set \<Rightarrow> graph \<Rightarrow> graph" where
  "allowed banned_nodes banned_edges A u = {(r, v) \<in> A u. r \<notin> banned_edges \<and> v \<notin> banned_nodes}"

text \<open>The result of a scan: the new nodes without the target, or a map in which the target has a parent.\<close>

fun scanned :: "graph \<Rightarrow> NodeId set \<Rightarrow> NodeId \<Rightarrow> ParentMap \<Rightarrow> NodeId list \<Rightarrow> ParentMap + ParentMap \<times> NodeId list \<Rightarrow> bool" where
  "scanned A us dst P next (Inl P') \<longleftrightarrow>
     P \<subseteq>\<^sub>m P' \<and> (\<exists>u \<in> us. \<exists>r. P' dst = Some (Some (u, r)) \<and> (r, dst) \<in> A u)"
| "scanned A us dst P next (Inr (P', next')) \<longleftrightarrow>
     (\<exists>new. next' = next @ new \<and> dst \<notin> set new \<and> grows A us P P' new)"

lemma scanned_skip:
  assumes r: "scanned A {u} dst P next res" and B: "B u = insert (r, v) (A u)" "v \<in> dom P"
  shows "scanned B {u} dst P next res"
proof (cases res)
  case (Inl P')
  then show ?thesis using r B by auto
next
  case (Inr st)
  then obtain P' new where "st = (P', next @ new)" "dst \<notin> set new" "grows A {u} P P' new"
    using r by (cases st) auto
  then show ?thesis using Inr grows_skip [of A u P P' new B r v, OF _ B] by auto
qed

lemma scanned_add:
  assumes r: "scanned A {u} dst (P(v \<mapsto> Some (u, r))) (next @ [v]) res"
    and B: "B u = insert (r, v) (A u)" "v \<notin> dom P" and v: "v \<noteq> dst"
  shows "scanned B {u} dst P next res"
proof (cases res)
  case (Inl P')
  have "P \<subseteq>\<^sub>m P(v \<mapsto> Some (u, r))" using B by (auto simp: map_le_def)
  then show ?thesis using Inl r B map_le_trans by auto
next
  case (Inr st)
  then obtain P' new where st: "st = (P', next @ v # new)" "dst \<notin> set new" "grows A {u} (P(v \<mapsto> Some (u, r))) P' new"
    using r by (cases st) auto
  show ?thesis using Inr st v grows_add [of A u P v r P' new B, OF st(3) B] by auto
qed

lemma scan_batch_scanned:
  "dst \<notin> dom P \<Longrightarrow> scanned (allowed bn be (batch_graph batch)) {u} dst P next (scan_batch bn be dst u batch (P, next))"
proof (induction batch arbitrary: P "next")
  case Nil
  then show ?case by (simp add: grows_def allowed_def)
next
  case (Cons nb batch)
  let ?A = "allowed bn be (batch_graph batch)" and ?B = "allowed bn be (batch_graph (nb # batch))"
  show ?case
  proof (cases "nb_rel_id nb \<in> be \<or> nb_dst nb \<in> bn")
    case True
    then have "?B = ?A" by (auto simp: allowed_def step_of_def fun_eq_iff)
    then show ?thesis using Cons True by auto
  next
    case False
    then have B: "?B u = insert (nb_rel_id nb, nb_dst nb) (?A u)" by (auto simp: allowed_def step_of_def)
    consider "P (nb_dst nb) \<noteq> None" | "P (nb_dst nb) = None" "nb_dst nb = dst"
      | "P (nb_dst nb) = None" "nb_dst nb \<noteq> dst" by blast
    then show ?thesis
    proof cases
      case 1
      then show ?thesis
        using scanned_skip [of ?A u dst P "next" _ ?B, OF Cons.IH [OF Cons.prems] B] False by auto
    next
      case 2
      then show ?thesis using False B by (auto simp: map_le_def)
    next
      case 3
      let ?P = "P(nb_dst nb \<mapsto> Some (u, nb_rel_id nb))"
      have d: "dst \<notin> dom ?P" using Cons.prems 3 by auto
      have "nb_dst nb \<notin> dom P" using 3 by auto
      then have "scanned ?B {u} dst P next (scan_batch bn be dst u batch (?P, next @ [nb_dst nb]))"
        by (intro scanned_add [where A = ?A and B = ?B, OF Cons.IH [OF d] B _ 3(2)])
      then show ?thesis using 3 False by (simp del: fun_upd_apply)
    qed
  qed
qed

lemma scanned_trans:
  assumes g: "grows A us P P1 new1" "dst \<notin> set new1" and r: "scanned A vs dst P1 (next @ new1) res"
  shows "scanned A (us \<union> vs) dst P next res"
proof (cases res)
  case (Inl P')
  then show ?thesis using r map_le_trans [OF growsD(1) [OF g(1)]] by auto
next
  case (Inr st)
  then obtain P2 new2 where st: "st = (P2, next @ new1 @ new2)" "dst \<notin> set new2" "grows A vs P1 P2 new2"
    using r by (cases st) auto
  then show ?thesis using Inr grows_trans [OF g(1) st(3)] g(2) by auto
qed

lemma scanned_cong: "scanned A us dst P next res \<Longrightarrow> (\<And>u. u \<in> us \<Longrightarrow> A u = B u) \<Longrightarrow> scanned B us dst P next res"
proof (cases res)
  case (Inr st)
  assume "scanned A us dst P next res" "\<And>u. u \<in> us \<Longrightarrow> A u = B u"
  then show ?thesis using Inr grows_cong [of A us P _ _ B] by (cases st) auto
qed auto

lemma scan_level_scanned:
  assumes "\<And>node. \<exists>batch. S node d f = Inr batch" "dst \<notin> dom P"
  shows "\<exists>res. scan_level S d f bn be dst us (P, next) = Inr res \<and>
    scanned (allowed bn be (steps S d f)) (set us) dst P next res"
  using assms(2)
proof (induction us arbitrary: P "next")
  case Nil
  then show ?case by simp
next
  case (Cons u us)
  let ?A = "allowed bn be (steps S d f)"
  obtain batch where batch: "S u d f = Inr batch" using assms(1) by blast
  define res where "res = scan_batch bn be dst u batch (P, next)"
  have "scanned (allowed bn be (batch_graph batch)) {u} dst P next res"
    unfolding res_def by (rule scan_batch_scanned [OF Cons.prems])
  then have r: "scanned ?A {u} dst P next res"
    by (rule scanned_cong) (simp add: allowed_def steps_def batch)
  show ?case
  proof (cases res)
    case (Inl P')
    then show ?thesis using r batch by (auto simp: res_def [symmetric])
  next
    case (Inr st)
    then obtain P1 new1 where st: "st = (P1, next @ new1)" "dst \<notin> set new1" "grows ?A {u} P P1 new1"
      using r by (cases st) auto
    then have "dst \<notin> dom P1" using growsD(2) [OF st(3)] Cons.prems by auto
    from Cons.IH [OF this] obtain res' where e: "scan_level S d f bn be dst us (P1, next @ new1) = Inr res'"
      and r': "scanned ?A (set us) dst P1 (next @ new1) res'" by blast
    show ?thesis using scanned_trans [OF st(3,2) r'] e batch Inr st(1) by (simp add: res_def [symmetric])
  qed
qed

lemma found_shortest:
  assumes "side A s n P frontier" "t \<notin> within A s n" "scanned A (set frontier) t P next (Inl P')"
  shows "\<exists>es. walk A s es t \<and> length es = Suc n \<and> (\<forall>es'. walk A s es' t \<longrightarrow> length es \<le> length es') \<and>
    chain_to_root P' t = Some (rev (s # map snd es), rev (map fst es))"
proof -
  obtain u r where u: "u \<in> level A s n" "P' t = Some (Some (u, r))" "(r, t) \<in> A u" and le: "P \<subseteq>\<^sub>m P'"
    using assms(1,3) by (auto simp: side_def)
  have "tree A s n P'" using assms(1) le tree_map_le by (auto simp: side_def)
  from tree_chain [OF this u(1) order_refl] obtain es where es: "walk A s es u" "length es = n"
      "\<And>nodes rels. chain_walk P' u nodes rels = Some (nodes @ tl (rev (s # map snd es)), rels @ rev (map fst es))"
    by blast
  have w: "walk A s (es @ [(r, t)]) t" using es(1) u(3) by auto
  note c = chain_to_rootI [OF w chain_extend [where P = P', OF es(1) u(2) es(3)]]
  have "Suc n \<le> length es'" if "walk A s es' t" for es'
    using assms(2) that by (auto simp: within_def not_le)
  then show ?thesis using w c es(2) by (intro exI [of _ "es @ [(r, t)]"]) auto
qed

context edge_source
begin

lemma constrained_loop_shortest:
  assumes "side (allowed bn be (steps S d f)) s n P frontier" "t \<notin> within (allowed bn be (steps S d f)) s n"
  shows "\<exists>r. constrained_loop S d f bn be t k P frontier = Some (Inr r) \<and>
    shortest_answer (allowed bn be (steps S d f)) s t (n + k) r"
  using assms
proof (induction k arbitrary: n P frontier)
  case 0
  then show ?case by (auto simp: shortest_answer.simps within_def not_le)
next
  case (Suc k)
  let ?A = "allowed bn be (steps S d f)"
  have D: "dom P = within ?A s n" "set frontier = level ?A s n" using Suc.prems(1) by (auto simp: side_def)
  show ?case
  proof (cases "frontier = []")
    case True
    then have "\<not> walk ?A s es t" for es using level_empty_walk [of ?A s n es t] D(2) Suc.prems(2) by auto
    then show ?thesis using True by (simp add: shortest_answer.simps)
  next
    case False
    obtain res where e: "scan_level S d f bn be t frontier (P, []) = Inr res"
      and r: "scanned ?A (set frontier) t P [] res"
      using scan_level_scanned [of S d f t P bn be frontier "[]"] total Suc.prems(2) D(1) by blast
    show ?thesis
    proof (cases res)
      case (Inl P')
      obtain es where es: "walk ?A s es t" "length es = Suc n" "\<And>es'. walk ?A s es' t \<Longrightarrow> length es \<le> length es'"
          "chain_to_root P' t = Some (rev (s # map snd es), rev (map fst es))"
        using found_shortest [OF Suc.prems r [unfolded Inl]] by blast
      have "shortest_answer ?A s t (n + Suc k) (Some \<lparr> pr_nodes = s # map snd es, pr_rels = map fst es \<rparr>)"
        by (rule shortest_answerI [OF es(1)]) (use es(2,3) in \<open>auto simp: spells_def\<close>)
      then show ?thesis using False e Inl es(4) by simp
    next
      case (Inr st)
      then obtain P' new where st: "st = (P', new)" "t \<notin> set new" "grows ?A (set frontier) P P' new"
        using r by (cases st) auto
      have side: "side ?A s (Suc n) P' new" by (rule side_grows [OF Suc.prems(1) st(3)])
      then have "t \<notin> within ?A s (Suc n)"
        using growsD(2) [OF st(3)] D(1) Suc.prems(2) st(2) by (auto simp: side_def)
      from Suc.IH [OF side this] show ?thesis using False e Inr st(1) by simp
    qed
  qed
qed

lemma constrained_correct:
  assumes "s \<notin> bn" "t \<notin> bn"
  shows "\<exists>r. constrained_shortest S s t max_hops d f bn be = Some (Inr r) \<and>
    shortest_answer (allowed bn be (steps S d f)) s t (unat max_hops) r"
proof (cases "s = t")
  case True
  have "shortest_answer (allowed bn be (steps S d f)) s t (unat max_hops) (Some \<lparr> pr_nodes = [s], pr_rels = [] \<rparr>)"
    by (rule shortest_answerI [of _ _ "[]"]) (auto simp: spells_def True)
  then show ?thesis using True assms by (simp add: constrained_shortest_def)
next
  case False
  then show ?thesis
    using constrained_loop_shortest [OF side_start, of t bn be d f s "unat max_hops"] assms
    by (simp add: constrained_shortest_def)
qed

end

section \<open>Termination\<close>

text \<open>Whatever the source returns, a parent is recorded before its children, so a chain of parents ends.\<close>

definition rooted :: "ParentMap \<Rightarrow> bool" where
  "rooted P \<longleftrightarrow> (\<exists>rank :: NodeId \<Rightarrow> nat. \<forall>v u r. P v = Some (Some (u, r)) \<longrightarrow> u \<in> dom P \<and> rank u < rank v)"

lemma rooted_start: "rooted [s \<mapsto> None]"
  by (simp add: rooted_def)

lemma rooted_insert:
  assumes "rooted P" "u \<in> dom P" "v \<notin> dom P"
  shows "rooted (P(v \<mapsto> Some (u, r)))"
proof -
  obtain rank :: "NodeId \<Rightarrow> nat" where rank: "\<forall>v u r. P v = Some (Some (u, r)) \<longrightarrow> u \<in> dom P \<and> rank u < rank v"
    using assms(1) unfolding rooted_def by blast
  have "w \<in> dom (P(v \<mapsto> Some (u, r))) \<and> (rank(v := Suc (rank u))) w < (rank(v := Suc (rank u))) x"
    if "(P(v \<mapsto> Some (u, r))) x = Some (Some (w, r'))" for x w r'
    using that rank assms(2,3) by (cases "x = v"; cases "w = v") auto
  then show ?thesis unfolding rooted_def by blast
qed

lemma chain_terminates:
  assumes "rooted P"
  shows "\<exists>nodes' rels'. chain_walk P v nodes rels = Some (nodes', rels')"
proof -
  obtain rank :: "NodeId \<Rightarrow> nat" where rank: "\<And>v u r. P v = Some (Some (u, r)) \<Longrightarrow> rank u < rank v"
    using assms by (auto simp: rooted_def)
  show ?thesis
    by (induction "rank v" arbitrary: v nodes rels rule: less_induct)
      (subst chain_walk.simps, auto split: option.split dest: rank)
qed

lemma chain_to_root_terminates: "rooted P \<Longrightarrow> \<exists>nodes rels. chain_to_root P v = Some (nodes, rels)"
  by (simp add: chain_to_root_def chain_terminates)

definition safe_side :: "ParentMap \<Rightarrow> NodeId list \<Rightarrow> bool" where
  "safe_side P frontier \<longleftrightarrow> rooted P \<and> set frontier \<subseteq> dom P"

lemma safe_side_insert:
  "safe_side P F \<Longrightarrow> u \<in> dom P \<Longrightarrow> v \<notin> dom P \<Longrightarrow> safe_side (P(v \<mapsto> Some (u, r))) (F @ [v])"
  using rooted_insert by (auto simp: safe_side_def)

lemma expand_batch_safe:
  assumes "u \<in> dom P" "safe_side P next" "expand_batch u other batch (P, meets, next) = (P', meets', next')"
  shows "safe_side P' next' \<and> dom P \<subseteq> dom P'"
  using assms
proof (induction batch arbitrary: P meets "next")
  case (Cons nb batch)
  show ?case
  proof (cases "P (nb_dst nb)")
    case None
    define P1 where "P1 = P(nb_dst nb \<mapsto> Some (u, nb_rel_id nb))"
    have "safe_side P1 (next @ [nb_dst nb])" "u \<in> dom P1" "dom P \<subseteq> dom P1"
      unfolding P1_def using Cons.prems None by (auto intro!: safe_side_insert)
    moreover obtain m1 where "expand_batch u other batch (P1, m1, next @ [nb_dst nb]) = (P', meets', next')"
      using Cons.prems(3) None by (simp add: P1_def del: fun_upd_apply)
    ultimately show ?thesis using Cons.IH [of P1 "next @ [nb_dst nb]" m1] by blast
  next
    case Some
    then show ?thesis using Cons by auto
  qed
qed (simp add: safe_side_def)

lemma expand_level_safe:
  assumes "set us \<subseteq> dom P" "safe_side P next" "expand_level S us d f other (P, meets, next) = Inr (P', meets', next')"
  shows "safe_side P' next' \<and> dom P \<subseteq> dom P'"
  using assms
proof (induction us arbitrary: P meets "next")
  case (Cons u us)
  then obtain batch P1 meets1 next1 where b: "S u d f = Inr batch" "expand_batch u other batch (P, meets, next) = (P1, meets1, next1)"
    "expand_level S us d f other (P1, meets1, next1) = Inr (P', meets', next')"
    by (auto split: sum.splits) (metis prod_cases3)
  have "u \<in> dom P" using Cons.prems(1) by simp
  from expand_batch_safe [OF this Cons.prems(2) b(2)] have s1: "safe_side P1 next1" "dom P \<subseteq> dom P1" by auto
  then have "set us \<subseteq> dom P1" using Cons.prems(1) by (metis list.set_intros(2) subset_iff)
  from Cons.IH [OF this s1(1) b(3)] show ?case using s1(2) by blast
qed simp

lemma expand_frontier_safe:
  "safe_side P F \<Longrightarrow> expand_level S F d f other (P, [], []) = Inr (P', meets, next) \<Longrightarrow> safe_side P' next"
  using expand_level_safe [of F P "[]" S d f other "[]" P' meets "next"] by (simp add: safe_side_def)

lemma meet_totals_terminate: "rooted P \<Longrightarrow> rooted Q \<Longrightarrow> \<exists>ts. meet_totals P Q meets = Some ts"
proof (induction meets)
  case (Cons m meets)
  then show ?case
    using chain_to_root_terminates [of P m] chain_to_root_terminates [of Q m] by (auto simp: depth_of_def)
qed simp

lemma finish_meets_terminate:
  assumes "rooted P" "rooted Q"
  shows "finish_meets n P Q meets \<noteq> None"
proof -
  obtain ts where ts: "meet_totals P Q meets = Some ts" using meet_totals_terminate [OF assms] by blast
  obtain total m where best: "fold min_meet (tl ts) (hd ts) = (total, m)" by fastforce
  obtain ns rs where "chain_to_root P m = Some (ns, rs)" using chain_to_root_terminates [OF assms(1)] by blast
  moreover obtain ns' rs' where "chain_to_root Q m = Some (ns', rs')" using chain_to_root_terminates [OF assms(2)] by blast
  ultimately show ?thesis by (simp add: finish_meets_def ts best)
qed

lemma bidirectional_loop_terminates:
  "safe_side P F \<Longrightarrow> safe_side Q G \<Longrightarrow> bidirectional_loop S n d f P Q F G lv \<noteq> None"
proof (induction S n d f P Q F G lv rule: bidirectional_loop.induct)
  case (1 S n d f P Q F G lv)
  show ?case
  proof (cases "F \<noteq> [] \<and> G \<noteq> [] \<and> lv < n")
    case False
    then show ?thesis by (subst bidirectional_loop.simps) auto
  next
    case go: True
    show ?thesis
    proof (cases "length F \<le> length G")
      case True
      show ?thesis
      proof (cases "expand_level S F d f Q (P, [], [])")
        case (Inl e)
        then show ?thesis by (subst bidirectional_loop.simps) (simp add: go True)
      next
        case (Inr st)
        then obtain P' meets new where e: "expand_level S F d f Q (P, [], []) = Inr (P', meets, new)" by (cases st) auto
        note s = expand_frontier_safe [OF "1.prems"(1) e]
        then have "rooted P'" "rooted Q" using "1.prems"(2) by (simp_all add: safe_side_def)
        note fin = finish_meets_terminate [OF this, of n meets]
        show ?thesis
          using "1.IH"(1) [OF go True e refl refl _ s "1.prems"(2)]
          by (subst bidirectional_loop.simps) (simp add: go True e fin del: not_None_eq)
      qed
    next
      case False
      let ?d = "TraversalDirection_inverse d"
      show ?thesis
      proof (cases "expand_level S G ?d f P (Q, [], [])")
        case (Inl e)
        then show ?thesis by (subst bidirectional_loop.simps) (simp add: go False)
      next
        case (Inr st)
        then obtain Q' meets new where e: "expand_level S G ?d f P (Q, [], []) = Inr (Q', meets, new)" by (cases st) auto
        note s = expand_frontier_safe [OF "1.prems"(2) e]
        then have "rooted P" "rooted Q'" using "1.prems"(1) by (simp_all add: safe_side_def)
        note fin = finish_meets_terminate [OF this, of n meets]
        show ?thesis
          using "1.IH"(2) [OF go False e refl refl _ "1.prems"(1) s]
          by (subst bidirectional_loop.simps) (simp add: go False e fin del: not_None_eq)
      qed
    qed
  qed
qed

lemma scan_batch_safe:
  assumes "u \<in> dom P" "safe_side P next"
  shows "case scan_batch bn be dst u batch (P, next) of
      Inl P' \<Rightarrow> rooted P' | Inr (P', next') \<Rightarrow> safe_side P' next' \<and> dom P \<subseteq> dom P'"
  using assms
proof (induction batch arbitrary: P "next")
  case (Cons nb batch)
  show ?case
  proof (cases "nb_rel_id nb \<in> be \<or> nb_dst nb \<in> bn \<or> P (nb_dst nb) \<noteq> None")
    case True
    then show ?thesis using Cons by auto
  next
    case False
    define P1 where "P1 = P(nb_dst nb \<mapsto> Some (u, nb_rel_id nb))"
    have P1: "safe_side P1 (next @ [nb_dst nb])" "u \<in> dom P1" "dom P \<subseteq> dom P1"
      unfolding P1_def using Cons.prems False by (auto intro!: safe_side_insert)
    have e: "scan_batch bn be dst u (nb # batch) (P, next) =
        (if nb_dst nb = dst then Inl P1 else scan_batch bn be dst u batch (P1, next @ [nb_dst nb]))"
      using False by (simp add: P1_def)
    from Cons.IH [OF P1(2,1)] show ?thesis
      unfolding e using P1(1,3) subset_trans [OF P1(3)] by (auto simp: safe_side_def split: sum.splits)
  qed
qed simp

lemma scan_level_safe:
  assumes "set us \<subseteq> dom P" "safe_side P next"
  shows "case scan_level S d f bn be dst us (P, next) of
      Inl e \<Rightarrow> True | Inr (Inl P') \<Rightarrow> rooted P' | Inr (Inr (P', next')) \<Rightarrow> safe_side P' next'"
  using assms
proof (induction us arbitrary: P "next")
  case (Cons u us)
  show ?case
  proof (cases "S u d f")
    case (Inr batch)
    have u: "u \<in> dom P" using Cons.prems(1) by simp
    note b = scan_batch_safe [OF u Cons.prems(2), of bn be dst batch]
    show ?thesis
    proof (cases "scan_batch bn be dst u batch (P, next)")
      case (Inl P')
      then show ?thesis using b Inr by simp
    next
      case r: (Inr st)
      obtain P1 next1 where st: "st = (P1, next1)" by (cases st)
      then have s1: "safe_side P1 next1" "dom P \<subseteq> dom P1" using b r by auto
      have "set us \<subseteq> dom P" using Cons.prems(1) by simp
      from Cons.IH [OF subset_trans [OF this s1(2)] s1(1)] show ?thesis using Inr r st by simp
    qed
  qed simp
qed simp

lemma constrained_loop_terminates:
  "safe_side P F \<Longrightarrow> constrained_loop S d f bn be dst n P F \<noteq> None"
proof (induction n arbitrary: P F)
  case (Suc n)
  have "case scan_level S d f bn be dst F (P, []) of
      Inl e \<Rightarrow> True | Inr (Inl P') \<Rightarrow> rooted P' | Inr (Inr (P', next')) \<Rightarrow> safe_side P' next'"
    using scan_level_safe [of F P "[]" S d f bn be dst] Suc.prems by (simp add: safe_side_def)
  then show ?case
    using Suc.IH chain_to_root_terminates by (auto split: sum.splits)
qed simp

section \<open>The searches\<close>

text \<open>C38: both searches end for every source, also one that fails or breaks its contract: no chain of
  parents they follow has a cycle, and the number of levels is bounded by the hop limit.\<close>

theorem searches_terminate:
  "bidirectional_shortest S src dst max_hops d f \<noteq> None \<and>
   constrained_shortest S src dst max_hops d f banned_nodes banned_edges \<noteq> None"
proof -
  have s: "safe_side [s \<mapsto> None] [s]" for s by (simp add: safe_side_def rooted_start)
  show ?thesis
    using bidirectional_loop_terminates [OF s s, of S max_hops d f src dst 0]
      constrained_loop_terminates [OF s, of S d f banned_nodes banned_edges dst "unat max_hops" src]
    by (simp add: bidirectional_shortest_def constrained_shortest_def)
qed

lemma shortest_answer_found:
  assumes "shortest_answer A s t n r" "walk A s es t" "length es \<le> n"
  shows "\<exists>p. r = Some p \<and> hops p \<le> length es"
proof (cases r)
  case None
  then show ?thesis using assms by (auto simp: shortest_answer.simps)
next
  case (Some p)
  then obtain es' where "walk A s es' t" "spells s es' p" "\<And>es. walk A s es t \<Longrightarrow> length es' \<le> length es"
    using assms(1) by (auto simp: shortest_answer.simps)
  then show ?thesis using Some assms(2) by (simp add: spells_def hops_def)
qed

lemma shortest_answer_walk: "shortest_answer A s t n (Some p) \<Longrightarrow> \<exists>es. walk A s es t \<and> length es = hops p \<and> hops p \<le> n"
  by (auto simp: shortest_answer.simps spells_def hops_def)

lemma shortest_answer_hops:
  assumes r: "shortest_answer A s t n r" "shortest_answer A s t n r'"
  shows "map_option hops r = map_option hops r'"
proof -
  have "\<exists>p'. r' = Some p' \<and> hops p' \<le> hops p" if "r = Some p" for p
    using shortest_answer_walk [of A s t n p] shortest_answer_found [OF r(2)] r(1) that by metis
  moreover have "\<exists>p. r = Some p \<and> hops p \<le> hops p'" if "r' = Some p'" for p'
    using shortest_answer_walk [of A s t n p'] shortest_answer_found [OF r(1)] r(2) that by metis
  ultimately show ?thesis by (cases r; cases r') fastforce+
qed

text \<open>C7: the search from both ends is exact. On a source that keeps its contract it returns a path
  along the requested direction of least length, or nothing exactly when every walk is longer
  than the hop limit; its answer has the length that the one-sided search finds.\<close>

theorem bidirectional_shortest_exact:
  assumes "edge_source S"
  shows "\<exists>r r'. bidirectional_shortest S src dst max_hops d f = Some (Inr r) \<and>
    constrained_shortest S src dst max_hops d f {} {} = Some (Inr r') \<and>
    shortest_answer (steps S d f) src dst (unat max_hops) r \<and> map_option hops r = map_option hops r'"
proof -
  obtain r where r: "bidirectional_shortest S src dst max_hops d f = Some (Inr r)"
      "shortest_answer (steps S d f) src dst (unat max_hops) r"
    using edge_source.bidirectional_correct [OF assms] by blast
  have "allowed {} {} (steps S d f) = steps S d f" by (auto simp: allowed_def fun_eq_iff)
  then obtain r' where r': "constrained_shortest S src dst max_hops d f {} {} = Some (Inr r')"
      "shortest_answer (steps S d f) src dst (unat max_hops) r'"
    using edge_source.constrained_correct [OF assms, of src "{}" dst max_hops d f "{}"] by auto
  show ?thesis using r r' shortest_answer_hops [OF r(2) r'(2)] by blast
qed

definition grid_graph :: MemoryEdgeSource where
  "grid_graph = mem_graph [(1, 2, None), (2, 3, None), (3, 7, None), (1, 4, None), (4, 5, None), (5, 6, None), (6, 7, None)]"

lemma grid_walk:
  "walk (steps (mem_neighbors grid_graph) Outbound EdgeFilter_any) 1 [(1, 2), (2, 3), (3, 7)] 7"
  by (simp add: grid_graph_def mem_graph_def MemoryEdgeSource_new_def add_edge_def push_entry_def Let_def steps_def
      mem_collect_def step_of_def type_ok_def EdgeFilter_any_def)

theorem bidirectional_shortest_exact_witness:
  "edge_source (mem_neighbors grid_graph :: (unit, unit, unit) EdgeSource) \<and>
   (\<exists>p. bidirectional_shortest (mem_neighbors grid_graph :: (unit, unit, unit) EdgeSource) 1 7 10 Outbound EdgeFilter_any =
      Some (Inr (Some p)) \<and> hops p \<le> 3)"
proof -
  let ?S = "mem_neighbors grid_graph :: (unit, unit, unit) EdgeSource"
  have S: "edge_source ?S"
    unfolding grid_graph_def by (rule mem.edge_source_axioms)
  obtain r where r: "bidirectional_shortest ?S 1 7 10 Outbound EdgeFilter_any = Some (Inr r)"
      "shortest_answer (steps ?S Outbound EdgeFilter_any) 1 7 10 r"
    using bidirectional_shortest_exact [OF S, of 1 7 10 Outbound EdgeFilter_any] by auto
  have "\<exists>p. r = Some p \<and> hops p \<le> 3"
    using shortest_answer_found [OF r(2) grid_walk] by (simp add: eval_nat_numeral)
  then show ?thesis using S r(1) by blast
qed

end
