(* ===== verification/Graph_Yen.thy ===== *)
theory Graph_Yen
  imports Graph_Shortest "HOL-Library.List_Lexorder" "HOL-Library.Product_Lexorder"
begin

text \<open>
  The k shortest loopless paths (\<open>arcgraph-graph-traversal/src/yen.rs\<close>). The routine keeps accepted
  paths and a pool of candidates; every accepted path is deviated from at each of its nodes by a search
  with bans. The proofs read a path as the list of its steps. The invariant \<open>pool\<close> says which routes
  have a candidate: every route whose longest common prefix with the accepted routes is not a
  prefix of the route accepted last has one with that prefix that is no longer.
\<close>

section \<open>The routine\<close>

definition path_key :: "PathResult \<Rightarrow> nat \<times> NodeId list" where
  "path_key p = (hops p, pr_nodes p)"

text \<open>The next relationship of every accepted path that shares the root.\<close>

definition spur_bans :: "PathResult list \<Rightarrow> NodeId list \<Rightarrow> nat \<Rightarrow> RelId set" where
  "spur_bans accepted root_nodes spur_idx =
     set (map (\<lambda>p. pr_rels p ! spur_idx)
       (filter (\<lambda>p. spur_idx < length (pr_nodes p) \<and> take (Suc spur_idx) (pr_nodes p) = root_nodes \<and>
                  spur_idx < length (pr_rels p)) accepted))"

definition saturating_sub32 :: "u32 \<Rightarrow> u32 \<Rightarrow> u32" where
  "saturating_sub32 a b = (if b \<le> a then a - b else 0)"

text \<open>One turn of the loop over spur nodes.\<close>

definition spur_step ::
  "('n, 'e, 'err) EdgeSource \<Rightarrow> NodeId \<Rightarrow> u32 \<Rightarrow> TraversalDirection \<Rightarrow> EdgeFilter \<Rightarrow> PathResult list \<Rightarrow>
   PathResult \<Rightarrow> nat \<Rightarrow> PathResult list \<Rightarrow> ('err TraversalError + PathResult list) option" where
  "spur_step source dst max_hops direction filt accepted prev spur_idx candidates =
     (let spur_node = pr_nodes prev ! spur_idx;
          root_nodes = take (Suc spur_idx) (pr_nodes prev);
          root_rels = take spur_idx (pr_rels prev);
          banned_edges = spur_bans accepted root_nodes spur_idx;
          banned_nodes = set (take spur_idx root_nodes);
          remaining_hops = saturating_sub32 max_hops (word_of_nat spur_idx)
      in if remaining_hops = 0 then Some (Inr candidates)
         else case constrained_shortest source spur_node dst remaining_hops direction filt banned_nodes banned_edges of
                None \<Rightarrow> None
              | Some (Inl e) \<Rightarrow> Some (Inl e)
              | Some (Inr None) \<Rightarrow> Some (Inr candidates)
              | Some (Inr (Some spur)) \<Rightarrow>
                  (let cand = \<lparr> pr_nodes = root_nodes @ tl (pr_nodes spur), pr_rels = root_rels @ pr_rels spur \<rparr>;
                       dup = list_ex (\<lambda>p. pr_nodes p = pr_nodes cand) (accepted @ candidates)
                   in Some (Inr (if dup then candidates else candidates @ [cand]))))"

fun spur_loop ::
  "('n, 'e, 'err) EdgeSource \<Rightarrow> NodeId \<Rightarrow> u32 \<Rightarrow> TraversalDirection \<Rightarrow> EdgeFilter \<Rightarrow> PathResult list \<Rightarrow>
   PathResult \<Rightarrow> nat list \<Rightarrow> PathResult list \<Rightarrow> ('err TraversalError + PathResult list) option" where
  "spur_loop source dst max_hops direction filt accepted prev [] candidates = Some (Inr candidates)"
| "spur_loop source dst max_hops direction filt accepted prev (spur_idx # idxs) candidates =
     (case spur_step source dst max_hops direction filt accepted prev spur_idx candidates of
        None \<Rightarrow> None
      | Some (Inl e) \<Rightarrow> Some (Inl e)
      | Some (Inr candidates) \<Rightarrow> spur_loop source dst max_hops direction filt accepted prev idxs candidates)"

function yen_loop ::
  "('n, 'e, 'err) EdgeSource \<Rightarrow> NodeId \<Rightarrow> nat \<Rightarrow> u32 \<Rightarrow> TraversalDirection \<Rightarrow> EdgeFilter \<Rightarrow>
   PathResult list \<Rightarrow> PathResult list \<Rightarrow> ('err TraversalError + PathResult list) option" where
  "yen_loop source dst k max_hops direction filt accepted candidates =
     (if length accepted < k then
        (let prev = last accepted in
         case spur_loop source dst max_hops direction filt accepted prev [0..<length (pr_rels prev)] candidates of
           None \<Rightarrow> None
         | Some (Inl e) \<Rightarrow> Some (Inl e)
         | Some (Inr candidates) \<Rightarrow>
             (case sort_key path_key candidates of
                [] \<Rightarrow> Some (Inr accepted)
              | best # rest \<Rightarrow> yen_loop source dst k max_hops direction filt (accepted @ [best]) rest))
      else Some (Inr accepted))"
  by pat_completeness auto
termination
  by (relation "measure (\<lambda>(_, _, k, _, _, _, accepted, _). k - length accepted)") auto

declare yen_loop.simps [simp del]

definition k_shortest_paths ::
  "('n, 'e, 'err) EdgeSource \<Rightarrow> NodeId \<Rightarrow> NodeId \<Rightarrow> nat \<Rightarrow> u32 \<Rightarrow> TraversalDirection \<Rightarrow> EdgeFilter \<Rightarrow>
   ('err TraversalError + PathResult list) option" where
  "k_shortest_paths source src dst k max_hops direction filt =
     (if k = 0 then Some (Inl (InvalidRequest ''k_shortest_paths requires k >= 1''))
      else case constrained_shortest source src dst max_hops direction filt {} {} of
             None \<Rightarrow> None
           | Some (Inl e) \<Rightarrow> Some (Inl e)
           | Some (Inr None) \<Rightarrow> Some (Inr [])
           | Some (Inr (Some first)) \<Rightarrow> yen_loop source dst k max_hops direction filt [first] [])"

section \<open>Routes\<close>

text \<open>A route is a loopless walk within the hop limit, as the list of its steps.\<close>

definition routes :: "graph \<Rightarrow> NodeId \<Rightarrow> NodeId \<Rightarrow> nat \<Rightarrow> step list set" where
  "routes A s t n = {es. walk A s es t \<and> distinct (s # map snd es) \<and> length es \<le> n}"

definition path_of :: "NodeId \<Rightarrow> step list \<Rightarrow> PathResult" where
  "path_of s es = \<lparr> pr_nodes = s # map snd es, pr_rels = map fst es \<rparr>"

text \<open>No parallel steps, and a relationship joins only its two ends.\<close>

definition simple_graph :: "graph \<Rightarrow> bool" where
  "simple_graph A \<longleftrightarrow>
     (\<forall>u v r r'. (r, v) \<in> A u \<longrightarrow> (r', v) \<in> A u \<longrightarrow> r = r') \<and>
     (\<forall>r u v u' v'. (r, v) \<in> A u \<longrightarrow> (r, v') \<in> A u' \<longrightarrow> u = u' \<and> v = v' \<or> u = v' \<and> v = u')"

lemma spells_path_of: "spells s es p \<longleftrightarrow> p = path_of s es"
  by (auto simp: spells_def path_of_def)

lemma path_of_simps [simp]:
  "pr_nodes (path_of s es) = s # map snd es" "pr_rels (path_of s es) = map fst es" "hops (path_of s es) = length es"
  by (simp_all add: path_of_def hops_def)

text \<open>The node after \<open>i\<close> steps.\<close>

abbreviation node_at :: "NodeId \<Rightarrow> step list \<Rightarrow> nat \<Rightarrow> NodeId" where
  "node_at s es i \<equiv> (s # map snd es) ! i"

lemma walk_split:
  "walk A s es t \<Longrightarrow> i \<le> length es \<Longrightarrow> walk A s (take i es) (node_at s es i) \<and> walk A (node_at s es i) (drop i es) t"
proof (induction es arbitrary: s i)
  case (Cons e es)
  then show ?case by (cases e; cases i) auto
qed simp

lemma walk_last: "walk A s es t \<Longrightarrow> last (s # map snd es) = t"
  by (induction es arbitrary: s) auto

lemma walk_target: "walk A s es t \<Longrightarrow> es \<noteq> [] \<Longrightarrow> t \<in> snd ` set es"
  using walk_last [of A s es t] by (metis last_ConsR last_in_set list.map_disc_iff list.set_map)

text \<open>A shortest walk has no loop.\<close>

lemma walk_cut: "walk A u es t \<Longrightarrow> s \<in> set (u # map snd es) \<Longrightarrow> \<exists>es'. walk A s es' t \<and> length es' \<le> length es"
proof (induction es arbitrary: u)
  case (Cons e es)
  show ?case
  proof (cases "s = u")
    case True
    then show ?thesis using Cons.prems(1) by blast
  next
    case False
    then show ?thesis using Cons.IH [of "snd e"] Cons.prems by (cases e) (auto intro: le_SucI)
  qed
qed auto

lemma shortest_distinct:
  "walk A s es t \<Longrightarrow> (\<And>es'. walk A s es' t \<Longrightarrow> length es \<le> length es') \<Longrightarrow> distinct (s # map snd es)"
proof (induction es arbitrary: s)
  case (Cons e es)
  obtain r w where e: "e = (r, w)" by (cases e)
  have w: "walk A w es t" "(r, w) \<in> A s" using Cons.prems(1) e by auto
  have "length es \<le> length es'" if "walk A w es' t" for es'
    using Cons.prems(2) [of "(r, w) # es'"] that w(2) by simp
  then have "distinct (w # map snd es)" using Cons.IH w(1) by blast
  moreover have "s \<notin> set (w # map snd es)"
    using walk_cut [OF w(1), of s] Cons.prems(2) by (metis length_Cons not_less_eq_eq)
  ultimately show ?case using e by simp
qed simp

text \<open>In a graph without parallel steps the nodes determine the walk.\<close>

lemma simple_walk_unique:
  assumes "simple_graph A" "walk A s es t" "walk A s es' t'" "map snd es = map snd es'"
  shows "es = es'"
  using assms
proof (induction es arbitrary: s es')
  case (Cons e es)
  obtain r v where e: "e = (r, v)" by (cases e)
  obtain r' es'' where es': "es' = (r', v) # es''" using Cons.prems(4) e by (cases es') auto
  have "(r, v) \<in> A s" "(r', v) \<in> A s" using Cons.prems(2,3) e es' by simp_all
  then have "r = r'" using Cons.prems(1) unfolding simple_graph_def by blast
  moreover have "es = es''"
    by (rule Cons.IH [of v]) (use Cons.prems e es' in simp_all)
  ultimately show ?case using e es' by simp
qed simp

text \<open>A route that shares a proper prefix of another goes on from there.\<close>

lemma route_prefix:
  assumes "a \<in> routes A s t n" "q \<in> routes A s t n" "i < length q" "take i a = take i q"
  shows "i < length a"
proof (rule ccontr)
  assume "\<not> i < length a"
  then have "walk A s (take i q) t" using assms(1,4) by (simp add: routes_def)
  moreover have w: "walk A s (take i q) (node_at s q i)" "walk A (node_at s q i) (drop i q) t"
    using walk_split [of A s q t i] assms(2,3) by (simp_all add: routes_def)
  ultimately have t: "node_at s q i = t" by (metis walk_last)
  then have "t \<in> snd ` set (drop i q)" using walk_target [OF w(2)] assms(3) by simp
  then obtain k where k: "k < length (drop i q)" "snd (drop i q ! k) = t" by (auto simp: in_set_conv_nth)
  then have "node_at s q (Suc (i + k)) = node_at s q i" using t by simp
  moreover have "distinct (s # map snd q)" using assms(2) by (simp add: routes_def)
  moreover have "Suc (i + k) < length (s # map snd q)" "i < length (s # map snd q)" using k assms(3) by auto
  ultimately have "Suc (i + k) = i" by (metis nth_eq_iff_index_eq)
  then show False by simp
qed

section \<open>Deviations\<close>

text \<open>Route \<open>q\<close> leaves the accepted routes at index \<open>i\<close>.\<close>

definition deviates :: "step list set \<Rightarrow> step list \<Rightarrow> nat \<Rightarrow> bool" where
  "deviates as q i \<longleftrightarrow> i < length q \<and> (\<exists>a \<in> as. take i a = take i q) \<and>
     (\<forall>a \<in> as. take i a = take i q \<longrightarrow> take (Suc i) a \<noteq> take (Suc i) q)"

lemma deviates_ex:
  assumes "as \<subseteq> routes A s t n" "as \<noteq> {}" "q \<in> routes A s t n" "q \<notin> as"
  shows "\<exists>i. deviates as q i"
proof -
  define M where "M = {i. i \<le> length q \<and> (\<exists>a \<in> as. take i a = take i q)}"
  have fin: "finite M" unfolding M_def by (rule finite_subset [of _ "{..length q}"]) auto
  have "0 \<in> M" using assms(2) by (auto simp: M_def)
  then have mem: "Max M \<in> M" using fin by (intro Max_in) auto
  then obtain a where a: "a \<in> as" "take (Max M) a = take (Max M) q" "Max M \<le> length q" by (auto simp: M_def)
  have "Max M \<noteq> length q"
  proof
    assume l: "Max M = length q"
    have "\<not> length q < length a" using route_prefix [of q A s t n a "length q"] assms(1,3) a l by auto
    then show False using a l assms(4) by (auto simp: not_less)
  qed
  moreover have "Suc (Max M) \<notin> M" using Max_ge [OF fin, of "Suc (Max M)"] by auto
  ultimately have "deviates as q (Max M)" using a by (auto simp: deviates_def M_def)
  then show ?thesis ..
qed

lemma walk_nth: "walk A s es t \<Longrightarrow> j < length es \<Longrightarrow> es ! j \<in> A (node_at s es j)"
proof (induction es arbitrary: s j)
  case (Cons e es)
  then show ?case by (cases e; cases j) auto
qed simp

lemma walk_allowed:
  "walk (allowed bn be A) u es v \<longleftrightarrow> walk A u es v \<and> (\<forall>e \<in> set es. fst e \<notin> be \<and> snd e \<notin> bn)"
proof (induction es arbitrary: u)
  case (Cons e es)
  then show ?case by (cases e) (simp add: allowed_def, blast)
qed simp

lemma take_Suc_nodes: "take (Suc i) (s # map snd es) = s # map snd (take i es)"
  by (simp add: take_map)

lemma node_at_take: "take i a = take i q \<Longrightarrow> i \<le> length a \<Longrightarrow> i \<le> length q \<Longrightarrow> node_at s a i = node_at s q i"
  by (cases i) (simp_all, metis Suc_le_eq lessI nth_take)

text \<open>The search from the spur node of an accepted route: what it starts from and what it bans.\<close>

definition spur_at :: "graph \<Rightarrow> NodeId \<Rightarrow> NodeId \<Rightarrow> nat \<Rightarrow> step list set \<Rightarrow> step list \<Rightarrow> nat \<Rightarrow> bool" where
  "spur_at A s t n as e0 i \<longleftrightarrow> simple_graph A \<and> as \<subseteq> routes A s t n \<and> e0 \<in> as \<and> i < length e0"

definition root_bans :: "NodeId \<Rightarrow> step list \<Rightarrow> nat \<Rightarrow> NodeId set" where
  "root_bans s e0 i = set (take i (s # map snd e0))"

definition next_bans :: "step list set \<Rightarrow> step list \<Rightarrow> nat \<Rightarrow> RelId set" where
  "next_bans as e0 i = {r. \<exists>a \<in> as. take i a = take i e0 \<and> i < length a \<and> fst (a ! i) = r}"

lemma spur_bans_next:
  assumes "spur_at A s t n (set as) e0 i"
  shows "spur_bans (map (path_of s) as) (take (Suc i) (s # map snd e0)) i = next_bans (set as) e0 i"
proof -
  have R: "simple_graph A" "set as \<subseteq> routes A s t n" "walk A s e0 t" "i < length e0"
    using assms by (auto simp: spur_at_def routes_def)
  have same: "take (Suc i) (s # map snd a) = take (Suc i) (s # map snd e0) \<longleftrightarrow> take i a = take i e0"
    if "a \<in> set as" "i < length a" for a
  proof -
    have "walk A s (take i a) (node_at s a i)" "walk A s (take i e0) (node_at s e0 i)"
      using that R walk_split [of A s _ t i] by (auto simp: routes_def)
    then show ?thesis unfolding take_Suc_nodes using simple_walk_unique [OF R(1)] by auto
  qed
  have char: "r \<in> spur_bans (map (path_of s) as) root i \<longleftrightarrow>
      (\<exists>a \<in> set as. i < length a \<and> take (Suc i) (s # map snd a) = root \<and> fst (a ! i) = r)" for root r
    by (auto simp: spur_bans_def filter_map o_def)
  show ?thesis
  proof (rule set_eqI)
    fix r
    show "r \<in> spur_bans (map (path_of s) as) (take (Suc i) (s # map snd e0)) i \<longleftrightarrow> r \<in> next_bans (set as) e0 i"
      unfolding char next_bans_def mem_Collect_eq using same by metis
  qed
qed

lemma route_inj:
  assumes "q \<in> routes A s t n" "node_at s q j = node_at s q k" "j \<le> length q" "k \<le> length q"
  shows "j = k"
proof -
  have "distinct (s # map snd q)" using assms(1) by (simp add: routes_def)
  then show ?thesis using nth_eq_iff_index_eq [of "s # map snd q" j k] assms by simp
qed

lemma route_end: "q \<in> routes A s t n \<Longrightarrow> node_at s q (length q) = t"
  using walk_last [of A s q t] last_conv_nth [of "s # map snd q"] by (simp add: routes_def)

lemma root_bansD: "v \<in> root_bans s e0 i \<Longrightarrow> i \<le> length e0 \<Longrightarrow> \<exists>j < i. node_at s e0 j = v"
  by (auto simp: root_bans_def in_set_conv_nth)

lemma spur_node:
  assumes "spur_at A s t n as e0 i"
  shows "node_at s e0 i \<noteq> t" "node_at s e0 i \<notin> root_bans s e0 i" "t \<notin> root_bans s e0 i"
proof -
  have R: "e0 \<in> routes A s t n" "i < length e0" using assms by (auto simp: spur_at_def)
  have inj: "j = k" if "node_at s e0 j = node_at s e0 k" "j \<le> length e0" "k \<le> length e0" for j k
    by (rule route_inj [OF R(1) that])
  show "node_at s e0 i \<noteq> t" using inj [of i "length e0"] R route_end [OF R(1)] by auto
  show "node_at s e0 i \<notin> root_bans s e0 i" using root_bansD [of _ s e0 i] inj [of _ i] R(2) by fastforce
  show "t \<notin> root_bans s e0 i"
    using root_bansD [of _ s e0 i] inj [of _ "length e0"] R(2) route_end [OF R(1)] by fastforce
qed

text \<open>Every route that deviates here is a walk of the search.\<close>

lemma deviating_rel:
  assumes sp: "spur_at A s t n as e0 i" and q: "q \<in> routes A s t n" "deviates as q i" "take i q = take i e0"
    and j: "i \<le> j" "j < length q"
  shows "fst (q ! j) \<notin> next_bans as e0 i"
proof
  assume "fst (q ! j) \<in> next_bans as e0 i"
  then obtain a where a: "a \<in> as" "take i a = take i e0" "i < length a" "fst (a ! i) = fst (q ! j)"
    by (auto simp: next_bans_def)
  have w: "walk A s q t" "walk A s a t" and simple: "simple_graph A"
    using q(1) a(1) sp by (auto simp: routes_def spur_at_def)
  have "node_at s a i = node_at s q i" using node_at_take [of i a q s] a q(3) j by simp
  then have "a ! i \<in> A (node_at s q i)" using walk_nth [OF w(2) a(3)] by simp
  moreover have "q ! j \<in> A (node_at s q j)" by (rule walk_nth [OF w(1) j(2)])
  ultimately have ends: "node_at s q j = node_at s q i \<and> snd (q ! j) = snd (a ! i) \<or> snd (q ! j) = node_at s q i"
    using simple a(4) unfolding simple_graph_def by (metis prod.collapse)
  have "snd (q ! j) \<noteq> node_at s q i"
  proof
    assume "snd (q ! j) = node_at s q i"
    then have "node_at s q (Suc j) = node_at s q i" using j by simp
    from route_inj [OF q(1) this] show False using j by simp
  qed
  then have n: "node_at s q j = node_at s q i" "snd (q ! j) = snd (a ! i)" using ends by blast+
  from route_inj [OF q(1) n(1)] have "j = i" using j by simp
  then have "a ! i = q ! i" using n(2) a(4) by (simp add: prod_eq_iff)
  then have "take (Suc i) a = take (Suc i) q" using a q(3) j by (simp add: take_Suc_conv_app_nth)
  then show False using q a by (simp add: deviates_def)
qed

lemma deviating_node:
  assumes q: "q \<in> routes A s t n" "take i q = take i e0" "i \<le> length e0" and j: "i \<le> j" "j < length q"
  shows "snd (q ! j) \<notin> root_bans s e0 i"
proof
  assume "snd (q ! j) \<in> root_bans s e0 i"
  then obtain k where k: "k < i" "node_at s e0 k = node_at s q (Suc j)" using root_bansD [OF _ q(3)] j by fastforce
  have "take k e0 = take k (take i e0)" "take k q = take k (take i q)" using k(1) by (simp_all add: min_def)
  then have "take k e0 = take k q" by (simp only: q(2))
  then have "node_at s q k = node_at s q (Suc j)" using node_at_take [of k e0 q s] k q(3) j by simp
  then show False using route_inj [OF q(1), of k "Suc j"] k j by simp
qed

lemma deviating_walk:
  assumes sp: "spur_at A s t n as e0 i" and q: "q \<in> routes A s t n" "deviates as q i" "take i q = take i e0"
  shows "walk (allowed (root_bans s e0 i) (next_bans as e0 i) A) (node_at s e0 i) (drop i q) t"
proof -
  have i: "i < length q" "i < length e0" using sp q(2) unfolding deviates_def spur_at_def by blast+
  have "fst e \<notin> next_bans as e0 i \<and> snd e \<notin> root_bans s e0 i" if "e \<in> set (drop i q)" for e
  proof -
    obtain k where k: "k < length (drop i q)" "drop i q ! k = e"
      using \<open>e \<in> set (drop i q)\<close> by (auto simp: in_set_conv_nth)
    then have "i \<le> i + k" "i + k < length q" "e = q ! (i + k)" by auto
    then show ?thesis using deviating_rel [OF sp q, of "i + k"] deviating_node [OF q(1,3), of "i + k"] i by simp
  qed
  moreover have "walk A (node_at s e0 i) (drop i q) t"
    using walk_split [of A s q t i] q(1) i node_at_take [OF q(3), of s] by (simp add: routes_def)
  ultimately show ?thesis unfolding walk_allowed by blast
qed

text \<open>Conversely a shortest walk of the search extends the root to a new route.\<close>

lemma spur_route:
  assumes sp: "spur_at A s t n as e0 i"
    and w: "walk (allowed (root_bans s e0 i) (next_bans as e0 i) A) (node_at s e0 i) es t"
    and short: "\<And>es'. walk (allowed (root_bans s e0 i) (next_bans as e0 i) A) (node_at s e0 i) es' t \<Longrightarrow> length es \<le> length es'"
    and len: "length es \<le> n - i"
  shows "take i e0 @ es \<in> routes A s t n" "deviates as (take i e0 @ es) i"
proof -
  let ?q = "take i e0 @ es"
  have R: "e0 \<in> routes A s t n" "i < length e0" "as \<subseteq> routes A s t n" "e0 \<in> as" using sp by (auto simp: spur_at_def)
  then have e0: "walk A s e0 t" "distinct (s # map snd e0)" "length e0 \<le> n" by (auto simp: routes_def)
  have es: "walk A (node_at s e0 i) es t" "\<forall>e \<in> set es. fst e \<notin> next_bans as e0 i \<and> snd e \<notin> root_bans s e0 i"
    using w by (auto simp: walk_allowed)
  have "distinct (node_at s e0 i # map snd es)" using shortest_distinct [OF w short] .
  moreover have "distinct (take i (s # map snd e0))" using e0(2) by (rule distinct_take)
  moreover have nodes: "s # map snd ?q = take i (s # map snd e0) @ node_at s e0 i # map snd es"
    using take_Suc_conv_app_nth [of i "s # map snd e0"] R(2) by (simp add: take_map)
  ultimately have "distinct (s # map snd ?q)"
    unfolding nodes using es(2) spur_node(2) [OF sp] by (auto simp: root_bans_def)
  then show q: "?q \<in> routes A s t n"
    using walk_split [OF e0(1), of i] es(1) R(2) e0(3) len by (auto simp: routes_def)
  have ne: "es \<noteq> []" using es(1) spur_node(1) [OF sp] by (cases es) auto
  have "take (Suc i) a \<noteq> take (Suc i) ?q" if a: "a \<in> as" "take i a = take i ?q" for a
  proof
    assume eq: "take (Suc i) a = take (Suc i) ?q"
    have "i < length ?q" using ne R(2) by simp
    then have "i < length a" using route_prefix [of a A s t n ?q i] a R(3) q by blast
    moreover from this have "a ! i = es ! 0" using arg_cong [OF eq, of "\<lambda>x. x ! i"] R(2) ne by (simp add: nth_append)
    ultimately have "fst (es ! 0) \<in> next_bans as e0 i" using a R(2) by (auto simp: next_bans_def)
    then show False using es(2) ne by auto
  qed
  then show "deviates as ?q i" using ne R(2,4) by (auto simp: deviates_def)
qed

section \<open>One round of deviations\<close>

lemma remaining_hops:
  assumes "i < unat (max_hops :: u32)"
  shows "unat (saturating_sub32 max_hops (word_of_nat i)) = unat max_hops - i"
    and "saturating_sub32 max_hops (word_of_nat i) \<noteq> 0"
proof -
  have "unat max_hops < 2 ^ 32" using unsigned_less [of max_hops, where 'a = nat] by simp
  then have i: "unat (word_of_nat i :: u32) = i" using assms by (simp add: unat_of_nat)
  then have "word_of_nat i \<le> max_hops" using assms by (simp add: word_le_nat_alt)
  then show u: "unat (saturating_sub32 max_hops (word_of_nat i)) = unat max_hops - i"
    using i by (simp add: saturating_sub32_def unat_sub)
  show "saturating_sub32 max_hops (word_of_nat i) \<noteq> 0"
  proof
    assume "saturating_sub32 max_hops (word_of_nat i) = 0"
    then show False using u assms by simp
  qed
qed

text \<open>A deviation at index \<open>i\<close> is covered by a candidate with the same root that is no longer.\<close>

definition covered :: "graph \<Rightarrow> NodeId \<Rightarrow> NodeId \<Rightarrow> nat \<Rightarrow> step list set \<Rightarrow> step list \<Rightarrow> step list set \<Rightarrow> nat \<Rightarrow> bool" where
  "covered A s t n as e0 cs i \<longleftrightarrow>
     (\<forall>q \<in> routes A s t n. deviates as q i \<longrightarrow> take i q = take i e0 \<longrightarrow>
        (\<exists>c \<in> cs. take i c = take i q \<and> length c \<le> length q))"

lemma covered_mono: "covered A s t n as e0 cs i \<Longrightarrow> cs \<subseteq> cs' \<Longrightarrow> covered A s t n as e0 cs' i"
  unfolding covered_def by blast

lemma route_path_eq:
  assumes "simple_graph A" "a \<in> routes A s t n" "b \<in> routes A s t n"
  shows "pr_nodes (path_of s a) = pr_nodes (path_of s b) \<longleftrightarrow> a = b"
  using simple_walk_unique [OF assms(1), of s a t b t] assms(2,3) by (auto simp: routes_def)

lemma spur_candidate:
  assumes sp: "spur_at A s t n as e0 i" and cs: "set cs \<subseteq> routes A s t n"
    and r: "shortest_answer (allowed (root_bans s e0 i) (next_bans as e0 i) A) (node_at s e0 i) t (n - i) r"
  shows "case r of
      None \<Rightarrow> covered A s t n as e0 (set cs) i
    | Some p \<Rightarrow> \<exists>es. p = path_of (node_at s e0 i) es \<and> take i e0 @ es \<in> routes A s t n - as \<and>
        covered A s t n as e0 (insert (take i e0 @ es) (set cs)) i"
proof -
  let ?B = "allowed (root_bans s e0 i) (next_bans as e0 i) A" and ?x = "node_at s e0 i"
  have dev: "walk ?B ?x (drop i q) t \<and> length (drop i q) \<le> n - i \<and> length q = i + length (drop i q)"
    if "q \<in> routes A s t n" "deviates as q i" "take i q = take i e0" for q
  proof -
    have "i < length q" "length q \<le> n" using that(1,2) by (simp_all add: routes_def deviates_def)
    then show ?thesis using deviating_walk [OF sp that] by simp
  qed
  show ?thesis
  proof (cases r)
    case None
    have "\<not> (q \<in> routes A s t n \<and> deviates as q i \<and> take i q = take i e0)" for q
    proof
      assume "q \<in> routes A s t n \<and> deviates as q i \<and> take i q = take i e0"
      then have w: "walk ?B ?x (drop i q) t" "length (drop i q) \<le> n - i" using dev by blast+
      have "\<forall>es. walk ?B ?x es t \<longrightarrow> n - i < length es" using r None by (simp add: shortest_answer.simps)
      then have "n - i < length (drop i q)" using w(1) by blast
      then show False using w(2) by linarith
    qed
    then show ?thesis using None by (simp add: covered_def)
  next
    case (Some p)
    then obtain es where es: "walk ?B ?x es t" "p = path_of ?x es" "length es \<le> n - i"
        "\<And>es'. walk ?B ?x es' t \<Longrightarrow> length es \<le> length es'"
      using r by (auto simp: shortest_answer.simps spells_path_of)
    note new = spur_route [OF sp es(1,4,3)]
    have "take i e0 @ es \<notin> as"
      using new(2) unfolding deviates_def by blast
    moreover have "covered A s t n as e0 (insert (take i e0 @ es) (set cs)) i"
      unfolding covered_def
    proof (intro ballI impI)
      fix q assume q: "q \<in> routes A s t n" "deviates as q i" "take i q = take i e0"
      have "length es \<le> length (drop i q)" using dev [OF q] es(4) by blast
      moreover have "length q = i + length (drop i q)" using dev [OF q] by blast
      moreover have "length (take i e0 @ es) \<le> i + length es" by simp
      ultimately have "length (take i e0 @ es) \<le> length q" by linarith
      moreover have "take i (take i e0 @ es) = take i q" using q(3) sp by (simp add: spur_at_def)
      ultimately show "\<exists>c \<in> insert (take i e0 @ es) (set cs). take i c = take i q \<and> length c \<le> length q" by blast
    qed
    ultimately show ?thesis using Some es(2) new(1) by auto
  qed
qed

context edge_source
begin

lemma spur_step_eval:
  assumes sp: "spur_at (steps S d f) s t (unat max_hops) (set as) e0 i"
    and cs: "set cs \<subseteq> routes (steps S d f) s t (unat max_hops)"
  shows "\<exists>new. spur_step S t max_hops d f (map (path_of s) as) (path_of s e0) i (map (path_of s) cs) =
      Some (Inr (map (path_of s) (cs @ new))) \<and>
    set new \<subseteq> routes (steps S d f) s t (unat max_hops) - (set as \<union> set cs) \<and> distinct new \<and>
    covered (steps S d f) s t (unat max_hops) (set as) e0 (set (cs @ new)) i"
proof -
  let ?A = "steps S d f" and ?n = "unat max_hops" and ?x = "node_at s e0 i"
  have R: "simple_graph ?A" "set as \<subseteq> routes ?A s t ?n" "i < length e0" "length e0 \<le> ?n"
    using sp by (auto simp: spur_at_def routes_def)
  then have i: "i < ?n" by linarith
  note rem = remaining_hops [OF i]
  obtain r where r: "constrained_shortest S ?x t (saturating_sub32 max_hops (word_of_nat i)) d f
        (root_bans s e0 i) (next_bans (set as) e0 i) = Some (Inr r)"
      "shortest_answer (allowed (root_bans s e0 i) (next_bans (set as) e0 i) ?A) ?x t (?n - i) r"
    using constrained_correct [OF spur_node(2,3) [OF sp]] rem(1) by metis
  have step: "spur_step S t max_hops d f (map (path_of s) as) (path_of s e0) i (map (path_of s) cs) =
      (case r of
         None \<Rightarrow> Some (Inr (map (path_of s) cs))
       | Some p \<Rightarrow>
          (let cand = \<lparr> pr_nodes = take (Suc i) (s # map snd e0) @ tl (pr_nodes p), pr_rels = take i (map fst e0) @ pr_rels p \<rparr>
           in Some (Inr (if list_ex (\<lambda>p. pr_nodes p = pr_nodes cand) (map (path_of s) as @ map (path_of s) cs)
             then map (path_of s) cs else map (path_of s) cs @ [cand]))))"
    unfolding spur_step_def Let_def path_of_simps spur_bans_next [OF sp] take_take
    using rem(2) r(1) by (simp add: root_bans_def min_def split: option.split)
  note c = spur_candidate [OF sp cs r(2)]
  show ?thesis
  proof (cases r)
    case None
    then show ?thesis using c step by (intro exI [of _ "[]"]) simp
  next
    case (Some p)
    then obtain es where es: "p = path_of ?x es" "take i e0 @ es \<in> routes ?A s t ?n - set as"
        "covered ?A s t ?n (set as) e0 (insert (take i e0 @ es) (set cs)) i"
      using c by auto
    let ?c = "take i e0 @ es"
    have cand: "\<lparr> pr_nodes = take (Suc i) (s # map snd e0) @ tl (pr_nodes p), pr_rels = take i (map fst e0) @ pr_rels p \<rparr> = path_of s ?c"
      by (simp add: es(1) path_of_def take_map)
    have dup: "list_ex (\<lambda>p. pr_nodes p = pr_nodes (path_of s ?c)) (map (path_of s) as @ map (path_of s) cs) \<longleftrightarrow> ?c \<in> set cs"
      using route_path_eq [OF R(1)] es(2) cs R(2) unfolding list_ex_iff set_append set_map by blast
    have "spur_step S t max_hops d f (map (path_of s) as) (path_of s e0) i (map (path_of s) cs) =
        Some (Inr (map (path_of s) (if ?c \<in> set cs then cs else cs @ [?c])))"
      unfolding step Some option.simps(5) Let_def cand dup by simp
    then show ?thesis using es(2,3) by (intro exI [of _ "if ?c \<in> set cs then [] else [?c]"]) (auto simp: insert_absorb)
  qed
qed

lemma spur_loop_eval:
  assumes sp: "\<And>i. i \<in> set idxs \<Longrightarrow> spur_at (steps S d f) s t (unat max_hops) (set as) e0 i"
    and cs: "set cs \<subseteq> routes (steps S d f) s t (unat max_hops) - set as" "distinct cs"
  shows "\<exists>cs'. spur_loop S t max_hops d f (map (path_of s) as) (path_of s e0) idxs (map (path_of s) cs) =
      Some (Inr (map (path_of s) cs')) \<and> set cs \<subseteq> set cs' \<and>
    set cs' \<subseteq> routes (steps S d f) s t (unat max_hops) - set as \<and> distinct cs' \<and>
    (\<forall>i \<in> set idxs. covered (steps S d f) s t (unat max_hops) (set as) e0 (set cs') i)"
  using assms
proof (induction idxs arbitrary: cs)
  case Nil
  then show ?case by (intro exI [of _ cs]) simp
next
  case (Cons i idxs)
  have "set cs \<subseteq> routes (steps S d f) s t (unat max_hops)" using Cons.prems(2) by blast
  from spur_step_eval [OF Cons.prems(1) [of i] this]
  obtain new where e: "spur_step S t max_hops d f (map (path_of s) as) (path_of s e0) i (map (path_of s) cs) =
        Some (Inr (map (path_of s) (cs @ new)))"
      and new: "set new \<subseteq> routes (steps S d f) s t (unat max_hops) - (set as \<union> set cs)" "distinct new"
        "covered (steps S d f) s t (unat max_hops) (set as) e0 (set (cs @ new)) i"
    by auto
  have "set (cs @ new) \<subseteq> routes (steps S d f) s t (unat max_hops) - set as" "distinct (cs @ new)"
    using new(1,2) Cons.prems(2,3) by auto
  from Cons.IH [OF Cons.prems(1) this] obtain cs' where
    cs': "spur_loop S t max_hops d f (map (path_of s) as) (path_of s e0) idxs (map (path_of s) (cs @ new)) =
        Some (Inr (map (path_of s) cs'))" "set (cs @ new) \<subseteq> set cs'"
      "set cs' \<subseteq> routes (steps S d f) s t (unat max_hops) - set as" "distinct cs'"
      "\<forall>i \<in> set idxs. covered (steps S d f) s t (unat max_hops) (set as) e0 (set cs') i"
    by auto
  have "covered (steps S d f) s t (unat max_hops) (set as) e0 (set cs') i" by (rule covered_mono [OF new(3) cs'(2)])
  then show ?case using e cs' by (intro exI [of _ cs']) simp
qed

end

section \<open>The loop over accepted routes\<close>

definition pool :: "graph \<Rightarrow> NodeId \<Rightarrow> NodeId \<Rightarrow> nat \<Rightarrow> step list list \<Rightarrow> step list list \<Rightarrow> bool" where
  "pool A s t n as cs \<longleftrightarrow>
     as \<noteq> [] \<and> set as \<subseteq> routes A s t n \<and> distinct as \<and> sorted (map length as) \<and>
     set cs \<subseteq> routes A s t n - set as \<and> distinct cs \<and>
     (\<forall>a \<in> set as. \<forall>q \<in> routes A s t n - set as. length a \<le> length q) \<and>
     (\<forall>q \<in> routes A s t n. \<forall>i. deviates (set as) q i \<longrightarrow> take i q \<noteq> take i (last as) \<longrightarrow>
        (\<exists>c \<in> set cs. take i c = take i q \<and> length c \<le> length q))"

text \<open>What the routine promises: up to \<open>k\<close> different routes in order of length, none longer than a
  route it leaves out, and all routes when they are fewer than \<open>k\<close>.\<close>

definition k_shortest :: "graph \<Rightarrow> NodeId \<Rightarrow> NodeId \<Rightarrow> nat \<Rightarrow> nat \<Rightarrow> step list list \<Rightarrow> bool" where
  "k_shortest A s t n k ps \<longleftrightarrow>
     set ps \<subseteq> routes A s t n \<and> distinct ps \<and> sorted (map length ps) \<and> length ps \<le> k \<and>
     (\<forall>p \<in> set ps. \<forall>q \<in> routes A s t n - set ps. length p \<le> length q) \<and>
     (length ps < k \<longrightarrow> routes A s t n \<subseteq> set ps)"

text \<open>After a round of deviations every other route has a candidate that is no longer.\<close>

lemma round_covers:
  assumes p: "pool A s t n as cs" and "set cs \<subseteq> set cs'"
    and cov: "\<forall>i \<in> set [0..<length (last as)]. covered A s t n (set as) (last as) (set cs') i"
    and q: "q \<in> routes A s t n" "deviates (set as) q i"
  shows "\<exists>c \<in> set cs'. take i c = take i q \<and> length c \<le> length q"
proof (cases "take i q = take i (last as)")
  case False
  then show ?thesis using p q assms(2) unfolding pool_def by blast
next
  case True
  have "last as \<in> routes A s t n" using p by (auto simp: pool_def)
  moreover have "i < length q" using q(2) by (simp add: deviates_def)
  ultimately have "i < length (last as)" using route_prefix [of "last as" A s t n q i] q(1) True by simp
  then show ?thesis using cov q True by (auto simp: covered_def)
qed

lemma pool_advance:
  assumes p: "pool A s t n as cs"
    and cs': "set cs' \<subseteq> routes A s t n - set as" "distinct cs'" "set cs' = set (best # rest)" "distinct (best # rest)"
    and best: "\<And>c. c \<in> set cs' \<Longrightarrow> length best \<le> length c"
    and cov: "\<And>q i. q \<in> routes A s t n \<Longrightarrow> deviates (set as) q i \<Longrightarrow>
      \<exists>c \<in> set cs'. take i c = take i q \<and> length c \<le> length q"
  shows "pool A s t n (as @ [best]) rest"
proof -
  have as: "as \<noteq> []" "set as \<subseteq> routes A s t n" "distinct as" "sorted (map length as)"
      "\<And>a q. a \<in> set as \<Longrightarrow> q \<in> routes A s t n - set as \<Longrightarrow> length a \<le> length q"
    using p unfolding pool_def by blast+
  have b: "best \<in> routes A s t n - set as" using cs' by auto
  have "length best \<le> length q" if q: "q \<in> routes A s t n - set (as @ [best])" for q
  proof -
    obtain i where "deviates (set as) q i" using deviates_ex [OF as(2)] as(1) q by auto
    then obtain c where "c \<in> set cs'" "length c \<le> length q" using cov q by blast
    then show ?thesis using best le_trans by blast
  qed
  then have opt: "\<forall>a \<in> set (as @ [best]). \<forall>q \<in> routes A s t n - set (as @ [best]). length a \<le> length q"
    using as(5) by auto
  have dev: "\<exists>c \<in> set rest. take i c = take i q \<and> length c \<le> length q"
    if q: "q \<in> routes A s t n" "deviates (set (as @ [best])) q i" "take i q \<noteq> take i best" for q i
  proof -
    have "deviates (set as) q i" using q(2,3) unfolding deviates_def by auto
    then obtain c where c: "c \<in> set cs'" "take i c = take i q" "length c \<le> length q" using cov q(1) by blast
    then have "c \<noteq> best" using q(3) by auto
    then show ?thesis using c cs'(3) by auto
  qed
  have "sorted (map length (as @ [best]))" using as(4,5) b by (auto simp: sorted_append)
  then show ?thesis
    unfolding pool_def using as b cs' opt dev by auto
qed

lemma sort_key_map: "sort_key k (map f xs) = map f (sort_key (k \<circ> f) xs)"
proof -
  have "insort_key k (f x) (map f ys) = map f (insort_key (k \<circ> f) x ys)" for x ys
    by (induction ys) auto
  then show ?thesis by (induction xs) auto
qed

lemma sort_key_best:
  assumes "sort_key (path_key \<circ> path_of s) cs = best # rest" "c \<in> set cs"
  shows "length best \<le> length c"
proof -
  let ?k = "path_key \<circ> path_of s"
  have "sorted (map ?k (best # rest))" using sorted_sort_key [of ?k cs] assms(1) by simp
  moreover have "c \<in> set (best # rest)" using assms set_sort [of ?k cs] by simp
  ultimately have "?k best \<le> ?k c" by auto
  then show ?thesis by (auto simp: path_key_def less_eq_prod_def)
qed

context edge_source
begin

lemma yen_loop_exact:
  assumes simple: "simple_graph (steps S d f)" and "pool (steps S d f) s t (unat max_hops) as cs" "length as \<le> k"
  shows "\<exists>ps. yen_loop S t k max_hops d f (map (path_of s) as) (map (path_of s) cs) = Some (Inr (map (path_of s) ps)) \<and>
    k_shortest (steps S d f) s t (unat max_hops) k ps"
  using assms(2,3)
proof (induction "k - length as" arbitrary: as cs rule: less_induct)
  case less
  let ?A = "steps S d f" and ?n = "unat max_hops"
  note pool = less.prems(1)
  have as: "as \<noteq> []" "set as \<subseteq> routes ?A s t ?n" "set cs \<subseteq> routes ?A s t ?n - set as" "distinct cs"
    using pool unfolding pool_def by blast+
  show ?case
  proof (cases "length as < k")
    case False
    then have "k_shortest ?A s t ?n k as" using pool less.prems(2) unfolding pool_def k_shortest_def by auto
    then show ?thesis using False by (subst yen_loop.simps) auto
  next
    case True
    have "spur_at ?A s t ?n (set as) (last as) i" if "i \<in> set [0..<length (last as)]" for i
      using that simple as(1,2) by (simp add: spur_at_def)
    from spur_loop_eval [where idxs = "[0..<length (last as)]", OF this as(3,4)] obtain cs' where
      loop: "spur_loop S t max_hops d f (map (path_of s) as) (path_of s (last as)) [0..<length (last as)] (map (path_of s) cs) =
          Some (Inr (map (path_of s) cs'))"
        and cs': "set cs \<subseteq> set cs'" "set cs' \<subseteq> routes ?A s t ?n - set as" "distinct cs'"
          "\<forall>i \<in> set [0..<length (last as)]. covered ?A s t ?n (set as) (last as) (set cs') i"
      by blast
    note cov = round_covers [OF pool cs'(1,4)]
    have unfold: "yen_loop S t k max_hops d f (map (path_of s) as) (map (path_of s) cs) =
        (case sort_key (path_key \<circ> path_of s) cs' of
           [] \<Rightarrow> Some (Inr (map (path_of s) as))
         | best # rest \<Rightarrow> yen_loop S t k max_hops d f (map (path_of s) (as @ [best])) (map (path_of s) rest))"
      using True loop as(1)
      by (subst yen_loop.simps) (simp add: Let_def last_map sort_key_map split: list.split)
    show ?thesis
    proof (cases "sort_key (path_key \<circ> path_of s) cs'")
      case Nil
      then have "cs' = []" by (metis set_empty set_sort)
      then have "routes ?A s t ?n \<subseteq> set as" using deviates_ex [OF as(2)] as(1) cov by fastforce
      then have "k_shortest ?A s t ?n k as" using pool less.prems(2) unfolding pool_def k_shortest_def by auto
      then show ?thesis using unfold Nil by auto
    next
      case (Cons best rest)
      have "set cs' = set (best # rest)" "distinct (best # rest)"
        using Cons cs'(3) by (metis set_sort, metis distinct_sort)
      from pool_advance [OF pool cs'(2,3) this sort_key_best [OF Cons] cov]
      have "pool ?A s t ?n (as @ [best]) rest" .
      from less.hyps [OF _ this] show ?thesis using unfold Cons True by simp
    qed
  qed
qed

lemma k_shortest_paths_correct:
  assumes simple: "simple_graph (steps S d f)" and k: "0 < k"
  shows "\<exists>ps. k_shortest_paths S s t k max_hops d f = Some (Inr (map (path_of s) ps)) \<and>
    k_shortest (steps S d f) s t (unat max_hops) k ps"
proof -
  let ?A = "steps S d f" and ?n = "unat max_hops"
  have "allowed {} {} ?A = ?A" by (auto simp: allowed_def fun_eq_iff)
  then obtain r where r: "constrained_shortest S s t max_hops d f {} {} = Some (Inr r)" "shortest_answer ?A s t ?n r"
    using constrained_correct [of s "{}" t max_hops d f "{}"] by auto
  show ?thesis
  proof (cases r)
    case None
    then have "routes ?A s t ?n = {}" using r(2) by (auto simp: shortest_answer.simps routes_def not_le [symmetric])
    then show ?thesis using r(1) None k by (intro exI [of _ "[]"]) (simp add: k_shortest_paths_def k_shortest_def)
  next
    case (Some p)
    then obtain es where es: "walk ?A s es t" "p = path_of s es" "length es \<le> ?n"
        "\<And>es'. walk ?A s es' t \<Longrightarrow> length es \<le> length es'"
      using r(2) by (auto simp: shortest_answer.simps spells_path_of)
    have "es \<in> routes ?A s t ?n" using es(1,3) shortest_distinct [OF es(1,4)] by (simp add: routes_def)
    moreover have "length es \<le> length q" if "q \<in> routes ?A s t ?n" for q using that es(4) by (simp add: routes_def)
    ultimately have "pool ?A s t ?n [es] []" by (auto simp: pool_def deviates_def)
    from yen_loop_exact [OF simple this, of k] show ?thesis
      using r(1) Some es(2) k by (simp add: k_shortest_paths_def)
  qed
qed

end

section \<open>The k shortest paths\<close>

text \<open>C6: on a source that keeps its contract and a graph without parallel relationships, the routine
  returns the \<open>k\<close> shortest loopless paths within the hop limit: different paths in order of length,
  none longer than a loopless path it leaves out, and all of them when there are fewer than \<open>k\<close>.\<close>

theorem k_shortest_paths_exact:
  assumes "edge_source S" "simple_graph (steps S d f)" "0 < k"
  shows "\<exists>ps. k_shortest_paths S src dst k max_hops d f = Some (Inr (map (path_of src) ps)) \<and>
    k_shortest (steps S d f) src dst (unat max_hops) k ps"
  by (rule edge_source.k_shortest_paths_correct [OF assms])

text \<open>The in-memory source has no parallel steps when no two edges join the same pair of nodes.\<close>

definition two_routes :: MemoryEdgeSource where
  "two_routes = mem_graph [(1, 2, None), (2, 5, None), (1, 3, None), (3, 5, None)]"

abbreviation plain_neighbor :: "RelId \<Rightarrow> NodeId \<Rightarrow> (unit, unit) Neighbor" where
  "plain_neighbor r v \<equiv> \<lparr> nb_rel_id = r, nb_dst = v, nb_dst_data = (), nb_edge_data = (), nb_edge_cost = 0, nb_node_cost = 0 \<rparr>"

lemma two_routes_collect:
  "mem_collect two_routes (out_adj two_routes) u EdgeFilter_any =
     (if u = 1 then [plain_neighbor 1 2, plain_neighbor 3 3]
      else if u = 2 then [plain_neighbor 2 5] else if u = 3 then [plain_neighbor 4 5] else [])"
  by (simp add: two_routes_def mem_graph_def MemoryEdgeSource_new_def add_edge_def push_entry_def Let_def
      mem_collect_def type_ok_def EdgeFilter_any_def)

lemma two_routes_steps:
  "steps (mem_neighbors two_routes) Outbound EdgeFilter_any u =
     (if u = 1 then {(1, 2), (3, 3)} else if u = 2 then {(2, 5)} else if u = 3 then {(4, 5)} else {})"
  by (simp add: mem_steps two_routes_collect step_of_def)

theorem k_shortest_paths_exact_witness:
  "edge_source (mem_neighbors two_routes :: (unit, unit, unit) EdgeSource) \<and>
   (\<exists>ps. k_shortest_paths (mem_neighbors two_routes :: (unit, unit, unit) EdgeSource) 1 5 2 10 Outbound EdgeFilter_any =
      Some (Inr (map (path_of 1) ps)) \<and>
      k_shortest (steps (mem_neighbors two_routes :: (unit, unit, unit) EdgeSource) Outbound EdgeFilter_any) 1 5 10 2 ps)"
proof -
  let ?S = "mem_neighbors two_routes :: (unit, unit, unit) EdgeSource"
  have S: "edge_source ?S" unfolding two_routes_def by (rule mem.edge_source_axioms)
  have "simple_graph (steps ?S Outbound EdgeFilter_any)"
    unfolding simple_graph_def two_routes_steps by (auto split: if_splits)
  then show ?thesis
    using S k_shortest_paths_exact [OF S, of Outbound EdgeFilter_any 2 1 5 10]
    by (simp add: two_routes_steps)
qed

text \<open>Two relationships between the same nodes: of the loopless paths from 1 to 5 the second leads over 3 and 4.\<close>

definition parallel_graph :: MemoryEdgeSource where
  "parallel_graph = mem_graph [(1, 2, None), (1, 2, None), (2, 5, None), (1, 3, None), (3, 4, None), (4, 5, None)]"

lemma parallel_collect:
  "mem_collect parallel_graph (out_adj parallel_graph) u EdgeFilter_any =
     (if u = 1 then [plain_neighbor 1 2, plain_neighbor 2 2, plain_neighbor 4 3]
      else if u = 2 then [plain_neighbor 3 5] else if u = 3 then [plain_neighbor 5 4]
      else if u = 4 then [plain_neighbor 6 5] else [])"
  by (simp add: parallel_graph_def mem_graph_def MemoryEdgeSource_new_def add_edge_def push_entry_def Let_def
      mem_collect_def type_ok_def EdgeFilter_any_def)

lemma chain_walk_root: "P v = Some None \<Longrightarrow> chain_walk P v nodes rels = Some (nodes, rels)"
  by (subst chain_walk.simps) simp

lemma chain_walk_parent:
  "P v = Some (Some (u, r)) \<Longrightarrow> chain_walk P v nodes rels = chain_walk P u (nodes @ [u]) (rels @ [r])"
  by (subst chain_walk.simps) simp

lemmas constrained_loop_numeral = constrained_loop.simps(2) [where n = "pred_numeral k" for k, folded numeral_eq_Suc]

lemmas search_eval = constrained_shortest_def parallel_collect chain_to_root_def chain_walk_root chain_walk_parent
  constrained_loop_numeral

text \<open>C39: with parallel relationships the routine can leave out paths. On this graph it returns one path
  for \<open>k = 2\<close> although a second loopless path within the limit exists: the deviation over the parallel
  relationship repeats the nodes of the first path, is dropped as a duplicate, and hides the longer
  deviation from the same node.\<close>

theorem k_shortest_paths_parallel:
  "k_shortest_paths (mem_neighbors parallel_graph) 1 5 2 3 Outbound EdgeFilter_any =
     Some (Inr [path_of 1 [(1, 2), (3, 5)]]) \<and>
   [(4, 3), (5, 4), (6, 5)] \<in> routes (steps (mem_neighbors parallel_graph) Outbound EdgeFilter_any) 1 5 3"
proof
  show "[(4, 3), (5, 4), (6, 5)] \<in> routes (steps (mem_neighbors parallel_graph) Outbound EdgeFilter_any) 1 5 3"
    by (simp add: routes_def mem_steps parallel_collect step_of_def)
  let ?S = "mem_neighbors parallel_graph" and ?p = "path_of 1 [(1, 2), (3, 5)]"
  have first: "constrained_shortest ?S 1 5 3 Outbound EdgeFilter_any {} {} = Some (Inr (Some ?p))"
    by (simp add: search_eval path_of_def)
  have spur0: "spur_step ?S 5 3 Outbound EdgeFilter_any [?p] ?p 0 [] = Some (Inr [])"
    by (simp add: spur_step_def Let_def spur_bans_def saturating_sub32_def search_eval path_of_def)
  have spur1: "spur_step ?S 5 3 Outbound EdgeFilter_any [?p] ?p 1 [] = Some (Inr [])"
    by (simp add: spur_step_def Let_def spur_bans_def saturating_sub32_def search_eval path_of_def)
  show "k_shortest_paths ?S 1 5 2 3 Outbound EdgeFilter_any = Some (Inr [?p])"
    by (simp add: k_shortest_paths_def first yen_loop.simps upt_rec spur0 spur1 [simplified])
qed

end
