(* ===== verification/Graph_Khop.thy ===== *)
theory Graph_Khop
  imports Graph_Shortest
begin

text \<open>
  Bounded expansion around a node (\<open>arcgraph-graph-traversal/src/khop.rs\<close>) with its two strategies, breadth
  first and per-hop weighted sampling (\<open>rng.rs\<close>). The sampling keys are floating point logarithms; the
  model takes the key of a draw as a parameter with values in a linear order. The reservoir's heap is
  a list; of several entries with the least key it drops the oldest. Creating a reservoir panics when
  its buffer would exceed the address space, so expansion returns a \<open>run\<close>; the size of an entry in bytes
  is a parameter.
\<close>

section \<open>Requests and results\<close>

datatype SamplingStrategy = Bfs | ReservoirVitterL

definition usize_MAX :: nat where
  "usize_MAX = 2 ^ 64 - 1"

record KHopRequest =
  kr_k :: u32
  kr_direction :: TraversalDirection
  kr_filter :: EdgeFilter
  kr_limit :: nat
  kr_cost_budget :: "u64 option"
  kr_per_hop_frontier_cap :: "nat option"
  kr_sampling :: SamplingStrategy
  kr_seed :: u64

definition KHopRequest_new :: "u32 \<Rightarrow> TraversalDirection \<Rightarrow> KHopRequest" where
  "KHopRequest_new k direction =
     \<lparr> kr_k = k, kr_direction = direction, kr_filter = EdgeFilter_any, kr_limit = usize_MAX,
       kr_cost_budget = None, kr_per_hop_frontier_cap = None, kr_sampling = Bfs, kr_seed = 0 \<rparr>"

record 'n KHopNode =
  kn_node :: NodeId
  kn_depth :: u32
  kn_data :: 'n

record 'e KHopEdge =
  ke_rel_id :: RelId
  ke_src :: NodeId
  ke_dst :: NodeId
  ke_data :: 'e

datatype Truncation = NoTruncation | LimitReached | FrontierCapped

record ('n, 'e) KHopResult =
  kh_nodes :: "'n KHopNode list"
  kh_edges :: "'e KHopEdge list"
  kh_truncation :: Truncation
  kh_cost_consumed :: u64

definition saturating_add64 :: "u64 \<Rightarrow> u64 \<Rightarrow> u64" where
  "saturating_add64 a b = (if a \<le> a + b then a + b else - 1)"

definition charge :: "u64 \<Rightarrow> u64 \<Rightarrow> u64 option \<Rightarrow> 'err TraversalError + u64" where
  "charge cost add budget =
     (let cost = saturating_add64 cost add in
      case budget of
        None \<Rightarrow> Inr cost
      | Some b \<Rightarrow> if cost > b then Inl (CostBudgetExceeded b cost) else Inr cost)"

text \<open>The two recording steps that both strategies make: a relationship at its first sight, and a node.\<close>

definition record_edge ::
  "u64 option \<Rightarrow> NodeId \<Rightarrow> ('n, 'e) Neighbor \<Rightarrow> ('n, 'e) KHopResult \<times> RelId set \<Rightarrow>
   'err TraversalError + ('n, 'e) KHopResult \<times> RelId set" where
  "record_edge budget src nb = (\<lambda>(out, seen_edges).
     if nb_rel_id nb \<in> seen_edges then Inr (out, seen_edges)
     else bind_res (charge (kh_cost_consumed out) (nb_edge_cost nb) budget) (\<lambda>cost.
       Inr (out\<lparr>kh_cost_consumed := cost,
                kh_edges := kh_edges out @ [\<lparr> ke_rel_id = nb_rel_id nb, ke_src = src, ke_dst = nb_dst nb,
                                             ke_data = nb_edge_data nb \<rparr>]\<rparr>,
            insert (nb_rel_id nb) seen_edges)))"

definition retain_node ::
  "u64 option \<Rightarrow> u32 \<Rightarrow> ('n, 'e) Neighbor \<Rightarrow> ('n, 'e) KHopResult \<Rightarrow> 'err TraversalError + ('n, 'e) KHopResult" where
  "retain_node budget depth nb out =
     bind_res (charge (kh_cost_consumed out) (nb_node_cost nb) budget) (\<lambda>cost.
       Inr (out\<lparr>kh_cost_consumed := cost,
                kh_nodes := kh_nodes out @ [\<lparr> kn_node = nb_dst nb, kn_depth = depth, kn_data = nb_dst_data nb \<rparr>]\<rparr>))"

section \<open>Breadth-first expansion\<close>

record ('n, 'e) bfs_state =
  bs_out :: "('n, 'e) KHopResult"
  bs_seen_nodes :: "NodeId set"
  bs_seen_edges :: "RelId set"
  bs_queue :: "(NodeId \<times> u32) list"
  bs_per_hop_new :: "nat list"

text \<open>The loop over a batch; a result with \<open>False\<close> is the early return at the limit.\<close>

fun bfs_batch ::
  "KHopRequest \<Rightarrow> NodeId \<Rightarrow> u32 \<Rightarrow> ('n, 'e) Neighbor list \<Rightarrow> ('n, 'e) bfs_state \<Rightarrow>
   'err TraversalError + bool \<times> ('n, 'e) bfs_state" where
  "bfs_batch req cur dst_depth [] st = Inr (True, st)"
| "bfs_batch req cur dst_depth (nb # batch) st =
     (let is_new = nb_dst nb \<notin> bs_seen_nodes st;
          capped = (case kr_per_hop_frontier_cap req of
                      None \<Rightarrow> False
                    | Some cap \<Rightarrow> bs_per_hop_new st ! unat dst_depth \<ge> cap)
      in if is_new \<and> capped then
           bfs_batch req cur dst_depth batch (st\<lparr>bs_out := (bs_out st)\<lparr>kh_truncation := FrontierCapped\<rparr>\<rparr>)
         else if is_new \<and> length (kh_nodes (bs_out st)) \<ge> kr_limit req then
           Inr (False, st\<lparr>bs_out := (bs_out st)\<lparr>kh_truncation := LimitReached\<rparr>\<rparr>)
         else
           bind_res (record_edge (kr_cost_budget req) cur nb (bs_out st, bs_seen_edges st)) (\<lambda>(out, seen_edges).
             let st = st\<lparr>bs_out := out, bs_seen_edges := seen_edges\<rparr> in
             if \<not> is_new then bfs_batch req cur dst_depth batch st
             else bind_res (retain_node (kr_cost_budget req) dst_depth nb out) (\<lambda>out.
                    bfs_batch req cur dst_depth batch
                      (st\<lparr>bs_out := out, bs_seen_nodes := insert (nb_dst nb) (bs_seen_nodes st),
                          bs_per_hop_new := (bs_per_hop_new st)[unat dst_depth := Suc (bs_per_hop_new st ! unat dst_depth)],
                          bs_queue := (if dst_depth < kr_k req then bs_queue st @ [(nb_dst nb, dst_depth)]
                                       else bs_queue st)\<rparr>))))"

text \<open>Whatever is queued is a node that was not seen before.\<close>

lemma record_edge_out:
  "record_edge budget src nb (out, se) = Inr (out', se') \<Longrightarrow> kh_nodes out' = kh_nodes out"
  by (auto simp: record_edge_def bind_res_Inr_iff split: if_splits)

lemma bfs_batch_seen:
  "bfs_batch req cur depth batch st = Inr (go, st') \<Longrightarrow>
     bs_seen_nodes st \<subseteq> bs_seen_nodes st' \<and>
     (bs_seen_nodes st' = bs_seen_nodes st \<longrightarrow> bs_queue st' = bs_queue st)"
proof (induction batch arbitrary: st)
  case (Cons nb batch)
  then show ?case
    by (fastforce simp: Let_def bind_res_Inr_iff split: if_splits)
qed simp

text \<open>For the termination of the loop: a turn sees a new node or shortens the queue.\<close>

lemma bfs_turn_decreases:
  assumes "bs_queue st = entry # queue" "bfs_batch req cur depth batch (st\<lparr>bs_queue := queue\<rparr>) = Inr (go, st')"
  shows "card (- bs_seen_nodes st') < card (- bs_seen_nodes st) \<or>
    bs_seen_nodes st' = bs_seen_nodes st \<and> length (bs_queue st') < length (bs_queue st)"
proof -
  have s: "bs_seen_nodes st \<subseteq> bs_seen_nodes st'" "bs_seen_nodes st' = bs_seen_nodes st \<longrightarrow> bs_queue st' = queue"
    using bfs_batch_seen [OF assms(2)] by auto
  show ?thesis
  proof (cases "bs_seen_nodes st' = bs_seen_nodes st")
    case True
    then show ?thesis using s(2) assms(1) by simp
  next
    case False
    then have "- bs_seen_nodes st' \<subset> - bs_seen_nodes st" using s(1) by blast
    then show ?thesis by (simp add: psubset_card_mono)
  qed
qed

function bfs_loop ::
  "('n, 'e, 'err) EdgeSource \<Rightarrow> KHopRequest \<Rightarrow> ('n, 'e) bfs_state \<Rightarrow> 'err TraversalError + ('n, 'e) bfs_state" where
  "bfs_loop source req st =
     (case bs_queue st of
        [] \<Rightarrow> Inr st
      | (cur, cur_depth) # queue \<Rightarrow>
          if cur_depth \<ge> kr_k req then bfs_loop source req (st\<lparr>bs_queue := queue\<rparr>)
          else
            (case source cur (kr_direction req) (kr_filter req) of
               Inl e \<Rightarrow> Inl (Source e)
             | Inr batch \<Rightarrow>
                 (case bfs_batch req cur (cur_depth + 1) batch (st\<lparr>bs_queue := queue\<rparr>) of
                    Inl e \<Rightarrow> Inl e
                  | Inr (go, st) \<Rightarrow> if go then bfs_loop source req st else Inr st)))"
  by pat_completeness auto
termination
  by (relation "measures [\<lambda>(_, _, st). card (- bs_seen_nodes st), \<lambda>(_, _, st). length (bs_queue st)]")
    (simp_all, metis bfs_turn_decreases length_Cons)

declare bfs_loop.simps [simp del]

definition khop_bfs ::
  "('n, 'e, 'err) EdgeSource \<Rightarrow> NodeId \<Rightarrow> KHopRequest \<Rightarrow> ('n, 'e) KHopResult \<Rightarrow> 'err TraversalError + ('n, 'e) KHopResult" where
  "khop_bfs source anchor req out =
     bind_res (bfs_loop source req
       \<lparr> bs_out = out, bs_seen_nodes = {anchor}, bs_seen_edges = {}, bs_queue = [(anchor, 0)],
         bs_per_hop_new = replicate (unat (kr_k req) + 1) 0 \<rparr>) (\<lambda>st. Inr (bs_out st))"

section \<open>Sampled expansion\<close>

definition SplitMix64_next :: "u64 \<Rightarrow> u64 \<times> u64" where
  "SplitMix64_next state =
     (let state = state + 0x9E3779B97F4A7C15;
          z = state;
          z = (z XOR drop_bit 30 z) * 0xBF58476D1CE4E5B9;
          z = (z XOR drop_bit 27 z) * 0x94D049BB133111EB
      in (state, z XOR drop_bit 31 z))"

text \<open>The bits of a draw, \<open>next_u64() >> 11\<close>, and the length of the batch determine the key.\<close>

type_synonym 'k ln_key = "u64 \<Rightarrow> nat \<Rightarrow> 'k"

fun heap_pop :: "('k::linorder \<times> 'i) list \<Rightarrow> ('k \<times> 'i) list" where
  "heap_pop [] = []"
| "heap_pop (x # xs) = (if list_all (\<lambda>y. fst x \<le> fst y) xs then xs else x # heap_pop xs)"

definition reservoir_offer ::
  "'k::linorder ln_key \<Rightarrow> nat \<Rightarrow> 'i \<Rightarrow> nat \<Rightarrow> u64 \<times> ('k \<times> 'i) list \<Rightarrow> u64 \<times> ('k \<times> 'i) list" where
  "reservoir_offer key capacity i degree = (\<lambda>(rng, heap).
     let (rng, z) = SplitMix64_next rng;
         ln_key = key (drop_bit 11 z) degree
     in (rng, if length heap < capacity then heap @ [(ln_key, i)]
              else if heap \<noteq> [] \<and> list_ex (\<lambda>y. fst y < ln_key) heap then heap_pop heap @ [(ln_key, i)]
              else heap))"

text \<open>\<open>BinaryHeap::with_capacity\<close> panics when the buffer would exceed \<open>isize::MAX\<close> bytes.\<close>

definition WeightedReservoir_new :: "nat \<Rightarrow> nat \<Rightarrow> unit run" where
  "WeightedReservoir_new entry_bytes capacity =
     (if min (capacity + 1) usize_MAX * entry_bytes > 2 ^ 63 - 1 then Panicked else Done ())"

type_synonym ('n, 'e) SampledCandidate = "nat \<times> NodeId \<times> ('n, 'e) Neighbor"

record ('k, 'n, 'e) hop_state =
  hs_out :: "('n, 'e) KHopResult"
  hs_seen_edges :: "RelId set"
  hs_sampler :: "u64 \<times> ('k \<times> ('n, 'e) SampledCandidate) list"
  hs_offered_new :: nat
  hs_stream_pos :: nat

fun sample_batch ::
  "'k::linorder ln_key \<Rightarrow> KHopRequest \<Rightarrow> NodeId set \<Rightarrow> nat \<Rightarrow> NodeId \<Rightarrow> nat \<Rightarrow> ('n, 'e) Neighbor list \<Rightarrow>
   ('k, 'n, 'e) hop_state \<Rightarrow> 'err TraversalError + ('k, 'n, 'e) hop_state" where
  "sample_batch key req seen_nodes capacity u degree [] st = Inr st"
| "sample_batch key req seen_nodes capacity u degree (nb # batch) st =
     (if nb_dst nb \<in> seen_nodes then
        bind_res (record_edge (kr_cost_budget req) u nb (hs_out st, hs_seen_edges st)) (\<lambda>(out, seen_edges).
          sample_batch key req seen_nodes capacity u degree batch (st\<lparr>hs_out := out, hs_seen_edges := seen_edges\<rparr>))
      else if capacity = 0 then
        sample_batch key req seen_nodes capacity u degree batch
          (st\<lparr>hs_out := (hs_out st)\<lparr>kh_truncation := LimitReached\<rparr>\<rparr>)
      else
        sample_batch key req seen_nodes capacity u degree batch
          (st\<lparr>hs_offered_new := hs_offered_new st + 1,
              hs_sampler := reservoir_offer key (max capacity 1) (hs_stream_pos st, u, nb) degree (hs_sampler st),
              hs_stream_pos := hs_stream_pos st + 1\<rparr>))"

fun sample_frontier ::
  "'k::linorder ln_key \<Rightarrow> ('n, 'e, 'err) EdgeSource \<Rightarrow> KHopRequest \<Rightarrow> NodeId set \<Rightarrow> nat \<Rightarrow> NodeId list \<Rightarrow>
   ('k, 'n, 'e) hop_state \<Rightarrow> 'err TraversalError + ('k, 'n, 'e) hop_state" where
  "sample_frontier key source req seen_nodes capacity [] st = Inr st"
| "sample_frontier key source req seen_nodes capacity (u # frontier) st =
     (case source u (kr_direction req) (kr_filter req) of
        Inl e \<Rightarrow> Inl (Source e)
      | Inr batch \<Rightarrow>
          bind_res (sample_batch key req seen_nodes capacity u (max (length batch) 1) batch st) (\<lambda>st.
            sample_frontier key source req seen_nodes capacity frontier st))"

text \<open>Retention of the winners in stream order; the state is the result, the seen sets and the next frontier.\<close>

fun retain_winners ::
  "KHopRequest \<Rightarrow> u32 \<Rightarrow> ('n, 'e) SampledCandidate list \<Rightarrow>
   ('n, 'e) KHopResult \<times> NodeId set \<times> RelId set \<times> NodeId list \<Rightarrow>
   'err TraversalError + ('n, 'e) KHopResult \<times> NodeId set \<times> RelId set \<times> NodeId list" where
  "retain_winners req depth [] st = Inr st"
| "retain_winners req depth ((_, src, nb) # winners) (out, seen_nodes, seen_edges, next_frontier) =
     bind_res (record_edge (kr_cost_budget req) src nb (out, seen_edges)) (\<lambda>(out, seen_edges).
       if nb_dst nb \<in> seen_nodes then retain_winners req depth winners (out, seen_nodes, seen_edges, next_frontier)
       else bind_res (retain_node (kr_cost_budget req) depth nb out) (\<lambda>out.
              retain_winners req depth winners
                (out, insert (nb_dst nb) seen_nodes, seen_edges,
                 if depth < kr_k req then next_frontier @ [nb_dst nb] else next_frontier)))"

definition hop_truncation :: "nat \<Rightarrow> nat \<Rightarrow> nat \<Rightarrow> ('k, 'n, 'e) hop_state \<Rightarrow> ('n, 'e) KHopResult" where
  "hop_truncation cap remaining_limit capacity st =
     (if hs_offered_new st > length (snd (hs_sampler st)) then
        (hs_out st)\<lparr>kh_truncation :=
           if capacity = remaining_limit \<and> remaining_limit < cap then LimitReached else FrontierCapped\<rparr>
      else hs_out st)"

text \<open>\<open>for depth in 1..=req.k\<close>, by the number of hops left.\<close>

fun reservoir_loop ::
  "'k::linorder ln_key \<Rightarrow> nat \<Rightarrow> ('n, 'e, 'err) EdgeSource \<Rightarrow> KHopRequest \<Rightarrow> nat \<Rightarrow>
   ('n, 'e) KHopResult \<times> NodeId set \<times> RelId set \<times> NodeId list \<Rightarrow>
   ('err TraversalError + ('n, 'e) KHopResult) run" where
  "reservoir_loop key entry_bytes source req 0 (out, _) = Done (Inr out)"
| "reservoir_loop key entry_bytes source req (Suc left) (out, seen_nodes, seen_edges, frontier) =
     (if frontier = [] then Done (Inr out)
      else
        let depth = kr_k req - word_of_nat left;
            remaining_limit = kr_limit req - length (kh_nodes out);
            cap = (case kr_per_hop_frontier_cap req of None \<Rightarrow> usize_MAX | Some cap \<Rightarrow> cap);
            capacity = min cap remaining_limit;
            rng = kr_seed req XOR (ucast depth * 0x9E3779B97F4A7C15)
        in bind_run (WeightedReservoir_new entry_bytes (max capacity 1)) (\<lambda>_.
             case sample_frontier key source req seen_nodes capacity frontier
                    \<lparr> hs_out = out, hs_seen_edges = seen_edges, hs_sampler = (rng, []), hs_offered_new = 0,
                      hs_stream_pos = 0 \<rparr> of
               Inl e \<Rightarrow> Done (Inl e)
             | Inr st \<Rightarrow>
                 if capacity = 0 then Done (Inr (hs_out st))
                 else
                   (case retain_winners req depth (sort_key fst (map snd (snd (hs_sampler st))))
                           (hop_truncation cap remaining_limit capacity st, seen_nodes, hs_seen_edges st, []) of
                      Inl e \<Rightarrow> Done (Inl e)
                    | Inr st \<Rightarrow> reservoir_loop key entry_bytes source req left st)))"

definition khop_reservoir ::
  "'k::linorder ln_key \<Rightarrow> nat \<Rightarrow> ('n, 'e, 'err) EdgeSource \<Rightarrow> NodeId \<Rightarrow> KHopRequest \<Rightarrow> ('n, 'e) KHopResult \<Rightarrow>
   ('err TraversalError + ('n, 'e) KHopResult) run" where
  "khop_reservoir key entry_bytes source anchor req out =
     reservoir_loop key entry_bytes source req (unat (kr_k req)) (out, {anchor}, {}, [anchor])"

section \<open>The entry point\<close>

definition k_hop ::
  "'k::linorder ln_key \<Rightarrow> nat \<Rightarrow> ('n, 'e, 'err) EdgeSource \<Rightarrow> NodeId \<Rightarrow> 'n \<Rightarrow> u64 \<Rightarrow> KHopRequest \<Rightarrow>
   ('err TraversalError + ('n, 'e) KHopResult) run" where
  "k_hop key entry_bytes source anchor anchor_data anchor_cost req =
     (if kr_limit req = 0 then
        Done (Inl (InvalidRequest ''k_hop limit must retain at least the anchor (limit >= 1)''))
      else if kr_per_hop_frontier_cap req = Some 0 then
        Done (Inl (InvalidRequest
          ''per_hop_frontier_cap of 0 forbids all expansion; omit the cap or use k = 0''))
      else
        case charge 0 anchor_cost (kr_cost_budget req) of
          Inl e \<Rightarrow> Done (Inl e)
        | Inr cost \<Rightarrow>
            let out = \<lparr> kh_nodes = [\<lparr> kn_node = anchor, kn_depth = 0, kn_data = anchor_data \<rparr>], kh_edges = [],
                        kh_truncation = NoTruncation, kh_cost_consumed = cost \<rparr>
            in case kr_sampling req of
                 Bfs \<Rightarrow> Done (khop_bfs source anchor req out)
               | ReservoirVitterL \<Rightarrow> khop_reservoir key entry_bytes source anchor req out)"

section \<open>What every expansion keeps\<close>

definition hop_count :: "u32 \<Rightarrow> 'n KHopNode list \<Rightarrow> nat" where
  "hop_count d nodes = length (filter (\<lambda>nd. kn_depth nd = d) nodes)"

text \<open>The nodes: the anchor first, different nodes, within the limit, the depth and the cap per hop, and
  each but the anchor reached by a step from a node one hop nearer.\<close>

definition nodes_ok :: "graph \<Rightarrow> KHopRequest \<Rightarrow> NodeId \<Rightarrow> 'n KHopNode list \<Rightarrow> bool" where
  "nodes_ok A req anchor nodes \<longleftrightarrow>
     nodes \<noteq> [] \<and> kn_node (hd nodes) = anchor \<and> kn_depth (hd nodes) = 0 \<and>
     distinct (map kn_node nodes) \<and> length nodes \<le> kr_limit req \<and>
     (\<forall>nd \<in> set nodes. kn_depth nd \<le> kr_k req) \<and>
     (\<forall>nd \<in> set (tl nodes). \<exists>nd' \<in> set nodes. \<exists>r. (r, kn_node nd) \<in> A (kn_node nd') \<and>
        unat (kn_depth nd) = Suc (unat (kn_depth nd'))) \<and>
     (\<forall>cap d. kr_per_hop_frontier_cap req = Some cap \<longrightarrow> 0 < d \<longrightarrow> hop_count d nodes \<le> cap)"

text \<open>The relationships: each at most once, a step of the graph between retained nodes.\<close>

definition edges_ok :: "graph \<Rightarrow> NodeId set \<Rightarrow> 'e KHopEdge list \<Rightarrow> RelId set \<Rightarrow> bool" where
  "edges_ok A N edges seen \<longleftrightarrow>
     distinct (map ke_rel_id edges) \<and> seen = ke_rel_id ` set edges \<and>
     (\<forall>e \<in> set edges. ke_src e \<in> N \<and> ke_dst e \<in> N \<and> (ke_rel_id e, ke_dst e) \<in> A (ke_src e))"

definition cost_ok :: "KHopRequest \<Rightarrow> u64 \<Rightarrow> bool" where
  "cost_ok req cost \<longleftrightarrow> (\<forall>b. kr_cost_budget req = Some b \<longrightarrow> cost \<le> b)"

definition node_ids :: "('n, 'e) KHopResult \<Rightarrow> NodeId set" where
  "node_ids out = kn_node ` set (kh_nodes out)"

definition khop_ok :: "graph \<Rightarrow> KHopRequest \<Rightarrow> NodeId \<Rightarrow> ('n, 'e) KHopResult \<Rightarrow> RelId set \<Rightarrow> bool" where
  "khop_ok A req anchor out seen \<longleftrightarrow>
     nodes_ok A req anchor (kh_nodes out) \<and> edges_ok A (node_ids out) (kh_edges out) seen \<and>
     cost_ok req (kh_cost_consumed out)"

lemma khop_ok_truncation [simp]: "khop_ok A req anchor (out\<lparr>kh_truncation := t\<rparr>) seen = khop_ok A req anchor out seen"
  by (simp add: khop_ok_def node_ids_def)

lemma charge_ok: "charge cost add (kr_cost_budget req) = Inr cost' \<Longrightarrow> cost_ok req cost'"
  by (auto simp: charge_def cost_ok_def Let_def split: option.splits if_splits)

lemma edges_ok_mono: "edges_ok A N edges se \<Longrightarrow> N \<subseteq> N' \<Longrightarrow> edges_ok A N' edges se"
  by (auto simp: edges_ok_def)

lemma record_edge_ok:
  assumes "record_edge (kr_cost_budget req) src nb (out, se) = Inr (out', se')"
    and "edges_ok A N (kh_edges out) se" "cost_ok req (kh_cost_consumed out)"
    and "src \<in> N" "step_of nb \<in> A src" "nb_dst nb \<in> N"
  shows "edges_ok A N (kh_edges out') se' \<and> cost_ok req (kh_cost_consumed out') \<and> kh_nodes out' = kh_nodes out"
  using assms
  by (auto simp: record_edge_def bind_res_Inr_iff edges_ok_def step_of_def split: if_splits dest!: charge_ok [of _ _ req])

lemma khop_ok_edge:
  assumes "record_edge (kr_cost_budget req) src nb (out, se) = Inr (out', se')" "khop_ok A req anchor out se"
    and "src \<in> node_ids out" "step_of nb \<in> A src" "nb_dst nb \<in> node_ids out"
  shows "khop_ok A req anchor out' se' \<and> kh_nodes out' = kh_nodes out"
  using record_edge_ok [OF assms(1), of A "node_ids out"] assms(2-5)
  by (simp add: khop_ok_def node_ids_def)

lemma hop_count_snoc: "hop_count d (nodes @ [nd]) = (if kn_depth nd = d then Suc (hop_count d nodes) else hop_count d nodes)"
  by (simp add: hop_count_def)

lemma nodes_ok_snoc:
  assumes ok: "nodes_ok A req anchor nodes" and nd: "kn_node nd \<notin> kn_node ` set nodes"
    and len: "length nodes < kr_limit req" and d: "kn_depth nd \<le> kr_k req"
    and parent: "nd' \<in> set nodes" "(r, kn_node nd) \<in> A (kn_node nd')" "unat (kn_depth nd) = Suc (unat (kn_depth nd'))"
    and cap: "\<And>cap. kr_per_hop_frontier_cap req = Some cap \<Longrightarrow> hop_count (kn_depth nd) nodes < cap"
  shows "nodes_ok A req anchor (nodes @ [nd])"
proof -
  have "\<exists>nd' \<in> set nodes. \<exists>r. (r, kn_node x) \<in> A (kn_node nd') \<and> unat (kn_depth x) = Suc (unat (kn_depth nd'))"
    if "x = nd \<or> x \<in> set (tl nodes)" for x
    using that ok parent unfolding nodes_ok_def by blast
  moreover have "hop_count e (nodes @ [nd]) \<le> c" if "kr_per_hop_frontier_cap req = Some c" "0 < e" for e c
    using that ok cap [of c] by (auto simp: nodes_ok_def hop_count_snoc Suc_le_eq)
  ultimately show ?thesis using ok nd len d by (auto simp: nodes_ok_def)
qed

text \<open>A new node with the relationship that leads to it.\<close>

lemma khop_ok_node:
  assumes e: "record_edge (kr_cost_budget req) src nb (out, se) = Inr (out1, se')"
    and n: "retain_node (kr_cost_budget req) depth nb out1 = Inr out'"
    and ok: "khop_ok A req anchor out se"
    and src: "nd' \<in> set (kh_nodes out)" "kn_node nd' = src" "unat depth = Suc (unat (kn_depth nd'))" "step_of nb \<in> A src"
    and new: "nb_dst nb \<notin> node_ids out" "length (kh_nodes out) < kr_limit req" "depth \<le> kr_k req"
    and cap: "\<And>cap. kr_per_hop_frontier_cap req = Some cap \<Longrightarrow> hop_count depth (kh_nodes out) < cap"
  shows "khop_ok A req anchor out' se' \<and>
    kh_nodes out' = kh_nodes out @ [\<lparr> kn_node = nb_dst nb, kn_depth = depth, kn_data = nb_dst_data nb \<rparr>]"
proof -
  let ?nd = "\<lparr> kn_node = nb_dst nb, kn_depth = depth, kn_data = nb_dst_data nb \<rparr>"
  obtain cost where cost: "charge (kh_cost_consumed out1) (nb_node_cost nb) (kr_cost_budget req) = (Inr cost :: 'd TraversalError + u64)"
    and out': "out' = out1\<lparr>kh_cost_consumed := cost, kh_nodes := kh_nodes out1 @ [?nd]\<rparr>"
    using n by (auto simp: retain_node_def bind_res_Inr_iff)
  have r: "edges_ok A (insert (nb_dst nb) (node_ids out)) (kh_edges out1) se'" "kh_nodes out1 = kh_nodes out"
    using record_edge_ok [OF e, of A "insert (nb_dst nb) (node_ids out)"] edges_ok_mono [of A "node_ids out" "kh_edges out" se] ok src
    by (auto simp: khop_ok_def node_ids_def)
  have "nodes_ok A req anchor (kh_nodes out @ [?nd])"
    using nodes_ok_snoc [of A req anchor "kh_nodes out" ?nd nd' "nb_rel_id nb"] ok src new cap
    by (simp add: khop_ok_def node_ids_def step_of_def)
  then show ?thesis using out' r charge_ok [OF cost] by (simp add: khop_ok_def node_ids_def)
qed

section \<open>Breadth-first expansion keeps it\<close>

abbreviation places :: "'n KHopNode list \<Rightarrow> (NodeId \<times> u32) set" where
  "places nodes \<equiv> (\<lambda>nd. (kn_node nd, kn_depth nd)) ` set nodes"

definition bfs_ok :: "graph \<Rightarrow> KHopRequest \<Rightarrow> NodeId \<Rightarrow> ('n, 'e) bfs_state \<Rightarrow> bool" where
  "bfs_ok A req anchor st \<longleftrightarrow>
     khop_ok A req anchor (bs_out st) (bs_seen_edges st) \<and> bs_seen_nodes st = node_ids (bs_out st) \<and>
     set (bs_queue st) \<subseteq> places (kh_nodes (bs_out st)) \<and>
     length (bs_per_hop_new st) = Suc (unat (kr_k req)) \<and>
     (\<forall>d. 0 < d \<longrightarrow> d \<le> kr_k req \<longrightarrow> bs_per_hop_new st ! unat d = hop_count d (kh_nodes (bs_out st)))"

lemma bfs_ok_edge:
  assumes ok: "bfs_ok A req anchor st"
    and e: "record_edge (kr_cost_budget req) cur nb (bs_out st, bs_seen_edges st) = Inr (out, se)"
    and cur: "cur \<in> node_ids (bs_out st)" "step_of nb \<in> A cur" and old: "nb_dst nb \<in> bs_seen_nodes st"
  shows "bfs_ok A req anchor (st\<lparr>bs_out := out, bs_seen_edges := se\<rparr>) \<and> kh_nodes out = kh_nodes (bs_out st)"
  using khop_ok_edge [OF e, of A anchor] ok cur old by (simp add: bfs_ok_def node_ids_def)

lemma bfs_ok_node:
  fixes st :: "('n, 'e) bfs_state"
  assumes ok: "bfs_ok A req anchor st"
    and e: "record_edge (kr_cost_budget req) cur nb (bs_out st, bs_seen_edges st) = (Inr (out1, se) :: 'err TraversalError + _)"
    and n: "retain_node (kr_cost_budget req) depth nb out1 = (Inr out :: 'err TraversalError + _)"
    and cur: "nd' \<in> set (kh_nodes (bs_out st))" "kn_node nd' = cur" "unat depth = Suc (unat (kn_depth nd'))" "step_of nb \<in> A cur"
    and new: "nb_dst nb \<notin> bs_seen_nodes st" "length (kh_nodes (bs_out st)) < kr_limit req" "depth \<le> kr_k req"
    and cap: "\<And>cap. kr_per_hop_frontier_cap req = Some cap \<Longrightarrow> bs_per_hop_new st ! unat depth < cap"
    and queue: "queue = bs_queue st \<or> queue = bs_queue st @ [(nb_dst nb, depth)]"
  shows "bfs_ok A req anchor (st\<lparr>bs_seen_edges := se, bs_out := out, bs_seen_nodes := insert (nb_dst nb) (bs_seen_nodes st),
      bs_per_hop_new := (bs_per_hop_new st)[unat depth := Suc (bs_per_hop_new st ! unat depth)], bs_queue := queue\<rparr>) \<and>
    kh_nodes out = kh_nodes (bs_out st) @ [\<lparr> kn_node = nb_dst nb, kn_depth = depth, kn_data = nb_dst_data nb \<rparr>]"
proof -
  have pos: "0 < depth" using cur(3) by (simp add: word_less_nat_alt)
  have count: "bs_per_hop_new st ! unat d = hop_count d (kh_nodes (bs_out st))" if "0 < d" "d \<le> kr_k req" for d
    using ok that by (simp add: bfs_ok_def)
  have len: "unat depth < length (bs_per_hop_new st)" using ok new(3) by (simp add: bfs_ok_def word_le_nat_alt)
  have "khop_ok A req anchor out se \<and>
      kh_nodes out = kh_nodes (bs_out st) @ [\<lparr> kn_node = nb_dst nb, kn_depth = depth, kn_data = nb_dst_data nb \<rparr>]"
    by (rule khop_ok_node [where A = A, OF e n _ cur _ new(2,3)])
      (use ok new(1) cap count [OF pos new(3)] in \<open>auto simp: bfs_ok_def\<close>)
  moreover have "(bs_per_hop_new st)[unat depth := Suc (bs_per_hop_new st ! unat depth)] ! unat d =
      hop_count d (kh_nodes (bs_out st) @ [\<lparr> kn_node = nb_dst nb, kn_depth = depth, kn_data = nb_dst_data nb \<rparr>])"
    if "0 < d" "d \<le> kr_k req" for d
    using count [OF that] len by (auto simp: hop_count_snoc nth_list_update word_unat_eq_iff)
  ultimately show ?thesis
    using ok queue by (auto simp: bfs_ok_def node_ids_def)
qed

lemma bfs_batch_ok:
  fixes st :: "('n, 'e) bfs_state"
  assumes "bfs_batch req cur depth batch st = (Inr (go, st') :: 'err TraversalError + _)" "bfs_ok A req anchor st"
    and "nd' \<in> set (kh_nodes (bs_out st))" "kn_node nd' = cur" "unat depth = Suc (unat (kn_depth nd'))"
    and "step_of ` set batch \<subseteq> A cur" "depth \<le> kr_k req"
  shows "bfs_ok A req anchor st'"
  using assms
proof (induction batch arbitrary: st)
  case (Cons nb batch)
  define capped where "capped = (case kr_per_hop_frontier_cap req of None \<Rightarrow> False | Some cap \<Rightarrow> bs_per_hop_new st ! unat depth \<ge> cap)"
  have A: "step_of nb \<in> A cur" "step_of ` set batch \<subseteq> A cur" using Cons.prems(6) by auto
  have cur: "cur \<in> node_ids (bs_out st)" using Cons.prems(3,4) by (auto simp: node_ids_def)
  have trunc: "bfs_ok A req anchor (st\<lparr>bs_out := (bs_out st)\<lparr>kh_truncation := t\<rparr>\<rparr>)" for t
    using Cons.prems(2) by (simp add: bfs_ok_def node_ids_def)
  note IH = Cons.IH [OF _ _ _ Cons.prems(4,5) A(2) Cons.prems(7)]
  consider (capped) "nb_dst nb \<notin> bs_seen_nodes st" "capped"
    | (limit) "nb_dst nb \<notin> bs_seen_nodes st" "\<not> capped" "length (kh_nodes (bs_out st)) \<ge> kr_limit req"
    | (old) "nb_dst nb \<in> bs_seen_nodes st"
    | (new) "nb_dst nb \<notin> bs_seen_nodes st" "\<not> capped" "length (kh_nodes (bs_out st)) < kr_limit req" by linarith
  then show ?case
  proof cases
    case capped
    then show ?thesis using Cons.prems(1,3) IH [OF _ trunc] by (simp add: capped_def [symmetric])
  next
    case limit
    then show ?thesis using Cons.prems(1) trunc by (auto simp: capped_def [symmetric])
  next
    case old
    then obtain out se where e: "record_edge (kr_cost_budget req) cur nb (bs_out st, bs_seen_edges st) = (Inr (out, se) :: 'err TraversalError + _)"
      and b: "bfs_batch req cur depth batch (st\<lparr>bs_out := out, bs_seen_edges := se\<rparr>) = (Inr (go, st') :: 'err TraversalError + _)"
      using Cons.prems(1) by (auto simp: bind_res_Inr_iff Let_def)
    then show ?thesis using bfs_ok_edge [OF Cons.prems(2) e cur A(1) old] IH [OF b] Cons.prems(3) by simp
  next
    case new
    define queue where "queue = (if depth < kr_k req then bs_queue st @ [(nb_dst nb, depth)] else bs_queue st)"
    obtain out1 se out where e: "record_edge (kr_cost_budget req) cur nb (bs_out st, bs_seen_edges st) = (Inr (out1, se) :: 'err TraversalError + _)"
      and n: "retain_node (kr_cost_budget req) depth nb out1 = (Inr out :: 'err TraversalError + _)"
      and b': "bfs_batch req cur depth batch ((st\<lparr>bs_out := out1, bs_seen_edges := se\<rparr>)\<lparr>bs_out := out,
          bs_seen_nodes := insert (nb_dst nb) (bs_seen_nodes st),
          bs_per_hop_new := (bs_per_hop_new st)[unat depth := Suc (bs_per_hop_new st ! unat depth)], bs_queue := queue\<rparr>) =
          (Inr (go, st') :: 'err TraversalError + _)"
      using Cons.prems(1) new unfolding queue_def
      by (auto simp: bind_res_Inr_iff Let_def capped_def [symmetric] cong: if_cong)
    have b: "bfs_batch req cur depth batch (st\<lparr>bs_seen_edges := se, bs_out := out, bs_seen_nodes := insert (nb_dst nb) (bs_seen_nodes st),
          bs_per_hop_new := (bs_per_hop_new st)[unat depth := Suc (bs_per_hop_new st ! unat depth)], bs_queue := queue\<rparr>) =
          (Inr (go, st') :: 'err TraversalError + _)"
      using b' by simp
    note ok = bfs_ok_node [OF Cons.prems(2) e n Cons.prems(3-5) A(1) new(1,3) Cons.prems(7), of queue]
    show ?thesis
      using ok IH [OF b] new(2) Cons.prems(3) by (auto simp: capped_def queue_def split: option.splits)
  qed
qed simp

lemma bfs_loop_ok:
  fixes S :: "('n, 'e, 'err) EdgeSource"
  assumes "bfs_loop S req st = Inr st'" "bfs_ok (steps S (kr_direction req) (kr_filter req)) req anchor st"
  shows "bfs_ok (steps S (kr_direction req) (kr_filter req)) req anchor st'"
  using assms
proof (induction S req st rule: bfs_loop.induct)
  case (1 S req st)
  let ?A = "steps S (kr_direction req) (kr_filter req)"
  show ?case
  proof (cases "bs_queue st")
    case Nil
    then show ?thesis using "1.prems" by (simp add: bfs_loop.simps [of S])
  next
    case (Cons entry queue)
    obtain cur d where entry: "entry = (cur, d)" by (cases entry)
    have ok: "bfs_ok ?A req anchor (st\<lparr>bs_queue := queue\<rparr>)"
      using "1.prems"(2) Cons by (auto simp: bfs_ok_def)
    show ?thesis
    proof (cases "kr_k req \<le> d")
      case True
      then show ?thesis using "1.IH"(1) [OF Cons entry [symmetric]] "1.prems"(1) ok Cons entry
        by (subst (asm) (2) bfs_loop.simps) (simp)
    next
      case False
      obtain batch where batch: "S cur (kr_direction req) (kr_filter req) = Inr batch"
        using "1.prems"(1) Cons entry False by (subst (asm) bfs_loop.simps) (auto split: sum.splits)
      obtain go st1 where b: "bfs_batch req cur (d + 1) batch (st\<lparr>bs_queue := queue\<rparr>) = (Inr (go, st1) :: 'err TraversalError + _)"
        using "1.prems"(1) Cons entry False batch by (subst (asm) bfs_loop.simps) (auto split: sum.splits)
      obtain nd' where nd': "nd' \<in> set (kh_nodes (bs_out st))" "kn_node nd' = cur" "kn_depth nd' = d"
        using "1.prems"(2) Cons entry by (fastforce simp: bfs_ok_def)
      have d: "unat (d + 1) = Suc (unat d)" "d + 1 \<le> kr_k req"
        using False unat_next_level [of d "kr_k req"] by (auto simp: word_le_nat_alt word_less_nat_alt not_le)
      have "bfs_ok ?A req anchor st1"
        by (rule bfs_batch_ok [OF b ok _ nd'(2)]) (use nd' d batch in \<open>auto simp: steps_def\<close>)
      then show ?thesis
        using "1.IH"(2) [OF Cons entry [symmetric] False batch b refl] "1.prems"(1) Cons entry False batch b
        by (subst (asm) (2) bfs_loop.simps) (auto split: if_splits)
    qed
  qed
qed

section \<open>Sampled expansion keeps it\<close>

lemma heap_pop_props: "length (heap_pop h) = length h - 1 \<and> set (heap_pop h) \<subseteq> set h"
proof (induction h)
  case (Cons x h)
  have "h \<noteq> []" if "\<not> list_all (\<lambda>y. fst x \<le> fst y) h" using that by (cases h) auto
  then show ?case using Cons by (cases h) auto
qed simp

lemma reservoir_offer_props:
  assumes "reservoir_offer key capacity i degree (rng, heap) = (rng', heap')" "length heap \<le> capacity" "0 < capacity"
  shows "length heap' \<le> capacity \<and> snd ` set heap' \<subseteq> insert i (snd ` set heap)"
  using assms heap_pop_props [of heap]
  by (auto simp: reservoir_offer_def Let_def split: prod.splits if_splits)

text \<open>The candidates of a hop: steps from the frontier to nodes not seen yet.\<close>

definition candidates_ok :: "graph \<Rightarrow> NodeId set \<Rightarrow> NodeId set \<Rightarrow> ('n, 'e) SampledCandidate set \<Rightarrow> bool" where
  "candidates_ok A F N cs \<longleftrightarrow> (\<forall>(_, src, nb) \<in> cs. src \<in> F \<and> step_of nb \<in> A src \<and> nb_dst nb \<notin> N)"

definition hop_ok ::
  "graph \<Rightarrow> KHopRequest \<Rightarrow> NodeId \<Rightarrow> NodeId set \<Rightarrow> 'n KHopNode list \<Rightarrow> nat \<Rightarrow> ('k, 'n, 'e) hop_state \<Rightarrow> bool" where
  "hop_ok A req anchor F nodes capacity st \<longleftrightarrow>
     khop_ok A req anchor (hs_out st) (hs_seen_edges st) \<and> kh_nodes (hs_out st) = nodes \<and>
     length (snd (hs_sampler st)) \<le> capacity \<and>
     candidates_ok A F (kn_node ` set nodes) (snd ` set (snd (hs_sampler st)))"

lemma sample_batch_ok:
  assumes "sample_batch key req (kn_node ` set nodes) capacity u degree batch st = (Inr st' :: 'err TraversalError + _)"
    and "hop_ok A req anchor F nodes capacity st" "u \<in> F" "F \<subseteq> kn_node ` set nodes" "step_of ` set batch \<subseteq> A u"
  shows "hop_ok A req anchor F nodes capacity st'"
  using assms
proof (induction batch arbitrary: st)
  case (Cons nb batch)
  have A: "step_of nb \<in> A u" "step_of ` set batch \<subseteq> A u" using Cons.prems(5) by auto
  note IH = Cons.IH [OF _ _ Cons.prems(3,4) A(2)]
  consider "nb_dst nb \<in> kn_node ` set nodes" | "nb_dst nb \<notin> kn_node ` set nodes" "capacity = 0"
    | "nb_dst nb \<notin> kn_node ` set nodes" "capacity \<noteq> 0" by blast
  then show ?case
  proof cases
    case 1
    then obtain out se where
      e: "record_edge (kr_cost_budget req) u nb (hs_out st, hs_seen_edges st) = (Inr (out, se) :: 'err TraversalError + _)"
      and b: "sample_batch key req (kn_node ` set nodes) capacity u degree batch (st\<lparr>hs_out := out, hs_seen_edges := se\<rparr>) =
        (Inr st' :: 'err TraversalError + _)"
      using Cons.prems(1) by (auto simp: bind_res_Inr_iff)
    have "khop_ok A req anchor out se \<and> kh_nodes out = kh_nodes (hs_out st)"
      using khop_ok_edge [OF e, of A anchor] Cons.prems(2-4) A(1) 1 by (auto simp: hop_ok_def node_ids_def)
    then show ?thesis using IH [OF b] Cons.prems(2) by (simp add: hop_ok_def)
  next
    case 2
    have "hop_ok A req anchor F nodes capacity (st\<lparr>hs_out := (hs_out st)\<lparr>kh_truncation := LimitReached\<rparr>\<rparr>)"
      using Cons.prems(2) by (simp add: hop_ok_def)
    from IH [OF _ this] show ?thesis using Cons.prems(1) 2 by simp
  next
    case 3
    let ?i = "(hs_stream_pos st, u, nb)"
    obtain rng heap where h: "hs_sampler st = (rng, heap)" by (cases "hs_sampler st")
    obtain rng' heap' where h': "reservoir_offer key capacity ?i degree (rng, heap) = (rng', heap')" by fastforce
    have "length heap' \<le> capacity \<and> snd ` set heap' \<subseteq> insert ?i (snd ` set heap)"
      using reservoir_offer_props [OF h'] Cons.prems(2) 3 h by (simp add: hop_ok_def)
    then have "hop_ok A req anchor F nodes capacity
        (st\<lparr>hs_offered_new := hs_offered_new st + 1, hs_sampler := (rng', heap'), hs_stream_pos := hs_stream_pos st + 1\<rparr>)"
      using Cons.prems(2,3) A(1) 3 h unfolding hop_ok_def candidates_ok_def by fastforce
    moreover have "max capacity 1 = capacity" using 3 by simp
    ultimately show ?thesis using Cons.prems(1) IH 3 h h' by simp
  qed
qed simp

lemma sample_frontier_ok:
  fixes S :: "('n, 'e, 'err) EdgeSource"
  assumes "sample_frontier key S req (kn_node ` set nodes) capacity frontier st = Inr st'"
    and "hop_ok (steps S (kr_direction req) (kr_filter req)) req anchor F nodes capacity st"
    and "set frontier \<subseteq> F" "F \<subseteq> kn_node ` set nodes"
  shows "hop_ok (steps S (kr_direction req) (kr_filter req)) req anchor F nodes capacity st'"
  using assms
proof (induction frontier arbitrary: st)
  case (Cons u frontier)
  then obtain batch where batch: "S u (kr_direction req) (kr_filter req) = Inr batch" by (auto split: sum.splits)
  then obtain st1 where b: "sample_batch key req (kn_node ` set nodes) capacity u (max (length batch) 1) batch st = (Inr st1 :: 'err TraversalError + _)"
    "sample_frontier key S req (kn_node ` set nodes) capacity frontier st1 = Inr st'"
    using Cons.prems(1) by (auto simp: bind_res_Inr_iff)
  have "step_of ` set batch \<subseteq> steps S (kr_direction req) (kr_filter req) u" using batch by (simp add: steps_def)
  from sample_batch_ok [OF b(1) Cons.prems(2) _ Cons.prems(4) this] show ?case
    using Cons.IH [OF b(2)] Cons.prems(3,4) by simp
qed simp

text \<open>Retention: every winner adds at most one node, at the depth of the hop.\<close>

definition winners_ok :: "graph \<Rightarrow> u32 \<Rightarrow> 'n KHopNode list \<Rightarrow> ('n, 'e) SampledCandidate list \<Rightarrow> bool" where
  "winners_ok A depth nodes winners \<longleftrightarrow>
     (\<forall>(_, src, nb) \<in> set winners. step_of nb \<in> A src \<and>
        (\<exists>nd \<in> set nodes. kn_node nd = src \<and> unat depth = Suc (unat (kn_depth nd))))"

lemma winners_ok_mono: "winners_ok A depth nodes winners \<Longrightarrow> set nodes \<subseteq> set nodes' \<Longrightarrow> winners_ok A depth nodes' winners"
  unfolding winners_ok_def by fastforce

lemma retain_winners_ok:
  fixes out :: "('n, 'e) KHopResult"
  assumes "retain_winners req depth winners (out, node_ids out, se, nf) = (Inr (out', sn', se', nf') :: 'err TraversalError + _)"
    and "khop_ok A req anchor out se" "winners_ok A depth (kh_nodes out) winners" "depth \<le> kr_k req"
    and "length (kh_nodes out) + length winners \<le> kr_limit req"
    and "\<And>cap. kr_per_hop_frontier_cap req = Some cap \<Longrightarrow> hop_count depth (kh_nodes out) + length winners \<le> cap"
    and "\<And>v. v \<in> set nf \<Longrightarrow> (v, depth) \<in> places (kh_nodes out)"
    and "\<And>nd. nd \<in> set (kh_nodes out) \<Longrightarrow> kn_depth nd \<le> depth"
  shows "khop_ok A req anchor out' se' \<and> sn' = node_ids out' \<and> (\<forall>v \<in> set nf'. (v, depth) \<in> places (kh_nodes out')) \<and>
    (\<forall>nd \<in> set (kh_nodes out'). kn_depth nd \<le> depth)"
  using assms
proof (induction winners arbitrary: out se nf)
  case Nil
  then show ?case by auto
next
  case (Cons w winners)
  obtain p src nb where w: "w = (p, src, nb)" by (cases w)
  obtain nd where nd: "nd \<in> set (kh_nodes out)" "kn_node nd = src" "unat depth = Suc (unat (kn_depth nd))"
    and A: "step_of nb \<in> A src" and ws: "winners_ok A depth (kh_nodes out) winners"
    using Cons.prems(3) w by (auto simp: winners_ok_def)
  obtain out1 se1 where e: "record_edge (kr_cost_budget req) src nb (out, se) = (Inr (out1, se1) :: 'err TraversalError + _)"
    using Cons.prems(1) w by (auto simp: bind_res_Inr_iff)
  show ?case
  proof (cases "nb_dst nb \<in> node_ids out")
    case True
    have ok: "khop_ok A req anchor out1 se1" "kh_nodes out1 = kh_nodes out"
      using khop_ok_edge [OF e Cons.prems(2) _ A True] nd by (auto simp: node_ids_def)
    have r: "retain_winners req depth winners (out1, node_ids out1, se1, nf) = (Inr (out', sn', se', nf') :: 'err TraversalError + _)"
      using Cons.prems(1) w e True ok(2) by (simp add: node_ids_def)
    show ?thesis
      by (rule Cons.IH [OF r ok(1)])
        (use ok(2) ws Cons.prems(4-8) in \<open>auto simp: add_Suc_right dest: Suc_leD\<close>)
  next
    case False
    obtain out2 where n: "retain_node (kr_cost_budget req) depth nb out1 = (Inr out2 :: 'err TraversalError + _)"
      using Cons.prems(1) w e False by (auto simp: bind_res_Inr_iff)
    let ?nd = "\<lparr> kn_node = nb_dst nb, kn_depth = depth, kn_data = nb_dst_data nb \<rparr>"
    have ok: "khop_ok A req anchor out2 se1" "kh_nodes out2 = kh_nodes out @ [?nd]"
      using khop_ok_node [OF e n Cons.prems(2) nd A False _ Cons.prems(4)] Cons.prems(5,6) by fastforce+
    let ?nf = "if depth < kr_k req then nf @ [nb_dst nb] else nf"
    have r: "retain_winners req depth winners (out2, node_ids out2, se1, ?nf) = (Inr (out', sn', se', nf') :: 'err TraversalError + _)"
      using Cons.prems(1) w e n False ok(2) by (simp add: node_ids_def insert_commute)
    have "winners_ok A depth (kh_nodes out2) winners" by (rule winners_ok_mono [OF ws]) (auto simp: ok(2))
    then show ?thesis
      by (rule Cons.IH [OF r ok(1) _ Cons.prems(4)])
        (use ok(2) Cons.prems(5-8) in \<open>auto simp: hop_count_snoc split: if_splits\<close>)
  qed
qed

lemma hop_depth:
  assumes "left < unat (k :: u32)"
  shows "unat (k - word_of_nat left) = unat k - left" "k - word_of_nat left \<le> k"
proof -
  have "unat k < 2 ^ 32" using unsigned_less [of k, where 'a = nat] by simp
  then have left: "unat (word_of_nat left :: u32) = left" using assms by (simp add: unat_of_nat)
  then have "word_of_nat left \<le> k" using assms by (simp add: word_le_nat_alt)
  then show "unat (k - word_of_nat left) = unat k - left" using left by (simp add: unat_sub)
  then show "k - word_of_nat left \<le> k" by (simp add: word_le_nat_alt)
qed

text \<open>The end of a hop: the candidates that the sampler kept become nodes.\<close>

lemma hop_retained:
  fixes out :: "('n, 'e) KHopResult"
  assumes hop: "hop_ok A req anchor F (kh_nodes out) capacity st"
    and r: "retain_winners req depth (sort_key fst (map snd (snd (hs_sampler st)))) (out, node_ids out, hs_seen_edges st, []) =
      (Inr (out1, sn1, se1, nf1) :: 'err TraversalError + _)"
    and out: "khop_ok A req anchor out (hs_seen_edges st)"
    and F: "\<And>v. v \<in> F \<Longrightarrow> \<exists>nd \<in> set (kh_nodes out). kn_node nd = v \<and> unat depth = Suc (unat (kn_depth nd))"
    and low: "\<And>nd. nd \<in> set (kh_nodes out) \<Longrightarrow> unat (kn_depth nd) < unat depth"
    and cap: "capacity \<le> kr_limit req - length (kh_nodes out)" "\<And>c. kr_per_hop_frontier_cap req = Some c \<Longrightarrow> capacity \<le> c"
    and depth: "depth \<le> kr_k req"
  shows "khop_ok A req anchor out1 se1 \<and> sn1 = node_ids out1 \<and> (\<forall>v \<in> set nf1. (v, depth) \<in> places (kh_nodes out1)) \<and>
    (\<forall>nd \<in> set (kh_nodes out1). kn_depth nd \<le> depth)"
proof -
  let ?ws = "sort_key fst (map snd (snd (hs_sampler st)))"
  have "hop_count depth (kh_nodes out) = 0" using low by (fastforce simp: hop_count_def filter_empty_conv)
  moreover have "length ?ws \<le> capacity" using hop by (simp add: hop_ok_def)
  moreover have "length (kh_nodes out) \<le> kr_limit req" using out by (simp add: khop_ok_def nodes_ok_def)
  moreover have "winners_ok A depth (kh_nodes out) ?ws"
    unfolding winners_ok_def using hop F by (fastforce simp: hop_ok_def candidates_ok_def)
  moreover have "kn_depth nd \<le> depth" if "nd \<in> set (kh_nodes out)" for nd
    using low [OF that] by (simp add: word_le_nat_alt)
  ultimately show ?thesis
    using cap by (intro retain_winners_ok [OF r out _ depth]) fastforce+
qed

lemma reservoir_loop_ok:
  fixes S :: "('n, 'e, 'err) EdgeSource"
  assumes "reservoir_loop key bytes S req left (out, node_ids out, se, frontier) = Done (Inr out')"
    and "khop_ok (steps S (kr_direction req) (kr_filter req)) req anchor out se"
    and "left \<le> unat (kr_k req)"
    and "\<And>v. v \<in> set frontier \<Longrightarrow> \<exists>nd \<in> set (kh_nodes out). kn_node nd = v \<and> unat (kn_depth nd) = unat (kr_k req) - left"
    and "\<And>nd. nd \<in> set (kh_nodes out) \<Longrightarrow> unat (kn_depth nd) \<le> unat (kr_k req) - left"
  shows "\<exists>se'. khop_ok (steps S (kr_direction req) (kr_filter req)) req anchor out' se'"
  using assms
proof (induction left arbitrary: out se frontier)
  case 0
  then show ?case by auto
next
  case (Suc left)
  let ?A = "steps S (kr_direction req) (kr_filter req)"
  define depth where "depth = kr_k req - word_of_nat left"
  define remaining where "remaining = kr_limit req - length (kh_nodes out)"
  define cap where "cap = (case kr_per_hop_frontier_cap req of None \<Rightarrow> usize_MAX | Some cap \<Rightarrow> cap)"
  define capacity where "capacity = min cap remaining"
  define st0 :: "('a, 'n, 'e) hop_state" where
    "st0 = \<lparr> hs_out = out, hs_seen_edges = se, hs_sampler = (kr_seed req XOR (ucast depth * 0x9E3779B97F4A7C15), []),
       hs_offered_new = 0, hs_stream_pos = 0 \<rparr>"
  have d: "unat depth = unat (kr_k req) - left" "depth \<le> kr_k req" "Suc (unat (kr_k req) - Suc left) = unat depth"
    using hop_depth [of left "kr_k req"] Suc.prems(3) by (simp_all add: depth_def Suc_diff_Suc)
  show ?case
  proof (cases "frontier = []")
    case True
    then show ?thesis using Suc.prems(1,2) by auto
  next
    case False
    note body = Suc.prems(1) [unfolded reservoir_loop.simps Let_def, folded depth_def, folded remaining_def cap_def,
        folded capacity_def, folded st0_def]
    obtain st where st: "sample_frontier key S req (node_ids out) capacity frontier st0 = Inr st"
      using body False by (auto simp: bind_run_Done_iff split: sum.splits)
    have "hop_ok ?A req anchor (set frontier) (kh_nodes out) capacity st0"
      using Suc.prems(2) by (simp add: hop_ok_def st0_def candidates_ok_def)
    from sample_frontier_ok [OF st [unfolded node_ids_def] this]
    have hop: "hop_ok ?A req anchor (set frontier) (kh_nodes out) capacity st" using Suc.prems(4) by fastforce
    show ?thesis
    proof (cases "capacity = 0")
      case True
      then show ?thesis using body False st hop by (auto simp: bind_run_Done_iff hop_ok_def)
    next
      case pos: False
      let ?out = "hop_truncation cap remaining capacity st"
      have out: "kh_nodes ?out = kh_nodes out" "khop_ok ?A req anchor ?out (hs_seen_edges st)"
        using hop by (auto simp: hop_truncation_def hop_ok_def)
      obtain out1 sn1 se1 nf1 where
        r: "retain_winners req depth (sort_key fst (map snd (snd (hs_sampler st)))) (?out, node_ids ?out, hs_seen_edges st, []) =
          (Inr (out1, sn1, se1, nf1) :: 'err TraversalError + _)"
        and l: "reservoir_loop key bytes S req left (out1, sn1, se1, nf1) = Done (Inr out')"
        using body False st pos out(1) by (auto simp: bind_run_Done_iff node_ids_def split: sum.splits)
      have ok1: "khop_ok ?A req anchor out1 se1 \<and> sn1 = node_ids out1 \<and> (\<forall>v \<in> set nf1. (v, depth) \<in> places (kh_nodes out1)) \<and>
          (\<forall>nd \<in> set (kh_nodes out1). kn_depth nd \<le> depth)"
      proof (rule hop_retained [OF _ r out(2) _ _ _ _ d(2), unfolded out(1)])
        show "hop_ok ?A req anchor (set frontier) (kh_nodes out) capacity st" by (rule hop)
        show "\<exists>nd \<in> set (kh_nodes out). kn_node nd = v \<and> unat depth = Suc (unat (kn_depth nd))" if "v \<in> set frontier" for v
          using Suc.prems(4) [OF that] d(3) by auto
        show "unat (kn_depth nd) < unat depth" if "nd \<in> set (kh_nodes out)" for nd
          using Suc.prems(5) [OF that] d(3) by linarith
      qed (auto simp: capacity_def remaining_def cap_def)
      show ?thesis
        by (rule Suc.IH [of out1 se1 nf1]) (use ok1 l Suc.prems(3) d in \<open>auto simp: word_le_nat_alt\<close>)
    qed
  qed
qed

section \<open>A breadth-first expansion without truncation is exhaustive\<close>

lemma record_edge_eval:
  "record_edge budget src nb (out, se) = Inr (out', se') \<Longrightarrow>
     kh_nodes out' = kh_nodes out \<and> kh_truncation out' = kh_truncation out \<and> se' = insert (nb_rel_id nb) se"
  by (auto simp: record_edge_def bind_res_Inr_iff split: if_splits)

lemma retain_node_eval:
  "retain_node budget depth nb out = Inr out' \<Longrightarrow>
     kh_nodes out' = kh_nodes out @ [\<lparr> kn_node = nb_dst nb, kn_depth = depth, kn_data = nb_dst_data nb \<rparr>] \<and>
     kh_truncation out' = kh_truncation out"
  by (auto simp: retain_node_def bind_res_Inr_iff)

lemma bfs_batch_truncation:
  "bfs_batch req cur depth batch st = Inr (go, st') \<Longrightarrow> kh_truncation (bs_out st') = NoTruncation \<Longrightarrow>
   kh_truncation (bs_out st) = NoTruncation \<and> go"
proof (induction batch arbitrary: st)
  case (Cons nb batch)
  then show ?case
    by (fastforce simp: Let_def bind_res_Inr_iff split: if_splits dest!: record_edge_eval retain_node_eval)
qed simp

text \<open>A batch that drops nothing adds every unseen neighbour and every relationship.\<close>

lemma bfs_batch_full:
  fixes st :: "('n, 'e) bfs_state"
  assumes "bfs_batch req cur depth batch st = (Inr (go, st') :: 'err TraversalError + _)"
    and "kh_truncation (bs_out st') = NoTruncation"
  shows "\<exists>new. set new = nb_dst ` set batch - bs_seen_nodes st \<and>
    places (kh_nodes (bs_out st')) = places (kh_nodes (bs_out st)) \<union> (\<lambda>v. (v, depth)) ` set new \<and>
    bs_seen_nodes st' = bs_seen_nodes st \<union> set new \<and> bs_seen_edges st' = bs_seen_edges st \<union> nb_rel_id ` set batch \<and>
    bs_queue st' = bs_queue st @ (if depth < kr_k req then map (\<lambda>v. (v, depth)) new else [])"
  using assms
proof (induction batch arbitrary: st)
  case Nil
  then show ?case by (intro exI [of _ "[]"]) auto
next
  case (Cons nb batch)
  define capped where "capped = (case kr_per_hop_frontier_cap req of None \<Rightarrow> False | Some cap \<Rightarrow> bs_per_hop_new st ! unat depth \<ge> cap)"
  show ?case
  proof (cases "nb_dst nb \<in> bs_seen_nodes st")
    case True
    then obtain out se where e: "record_edge (kr_cost_budget req) cur nb (bs_out st, bs_seen_edges st) = (Inr (out, se) :: 'err TraversalError + _)"
      and b: "bfs_batch req cur depth batch (st\<lparr>bs_out := out, bs_seen_edges := se\<rparr>) = (Inr (go, st') :: 'err TraversalError + _)"
      using Cons.prems(1) by (auto simp: bind_res_Inr_iff Let_def)
    from Cons.IH [OF b Cons.prems(2)] obtain new where "set new = nb_dst ` set batch - bs_seen_nodes st"
      "places (kh_nodes (bs_out st')) = places (kh_nodes out) \<union> (\<lambda>v. (v, depth)) ` set new"
      "bs_seen_nodes st' = bs_seen_nodes st \<union> set new" "bs_seen_edges st' = se \<union> nb_rel_id ` set batch"
      "bs_queue st' = bs_queue st @ (if depth < kr_k req then map (\<lambda>v. (v, depth)) new else [])"
      by auto
    then show ?thesis using record_edge_eval [OF e] True by (intro exI [of _ new]) auto
  next
    case False
    have nc: "\<not> capped"
    proof
      assume capped
      then have "bfs_batch req cur depth batch (st\<lparr>bs_out := (bs_out st)\<lparr>kh_truncation := FrontierCapped\<rparr>\<rparr>) =
          (Inr (go, st') :: 'err TraversalError + _)"
        using Cons.prems(1) False by (simp add: capped_def [symmetric])
      from bfs_batch_truncation [OF this Cons.prems(2)] show False by simp
    qed
    have room: "length (kh_nodes (bs_out st)) < kr_limit req"
      using Cons.prems False nc by (auto simp: capped_def [symmetric] Let_def split: if_splits)
    define queue where "queue = (if depth < kr_k req then bs_queue st @ [(nb_dst nb, depth)] else bs_queue st)"
    obtain out1 se out st1 where e: "record_edge (kr_cost_budget req) cur nb (bs_out st, bs_seen_edges st) = (Inr (out1, se) :: 'err TraversalError + _)"
      and n: "retain_node (kr_cost_budget req) depth nb out1 = (Inr out :: 'err TraversalError + _)"
      and st1: "st1 = (st\<lparr>bs_out := out1, bs_seen_edges := se\<rparr>)\<lparr>bs_out := out,
          bs_seen_nodes := insert (nb_dst nb) (bs_seen_nodes st),
          bs_per_hop_new := (bs_per_hop_new st)[unat depth := Suc (bs_per_hop_new st ! unat depth)], bs_queue := queue\<rparr>"
      and b: "bfs_batch req cur depth batch st1 = (Inr (go, st') :: 'err TraversalError + _)"
      using Cons.prems(1) False nc room unfolding queue_def
      by (auto simp: bind_res_Inr_iff Let_def capped_def [symmetric] cong: if_cong)
    have s1: "bs_seen_nodes st1 = insert (nb_dst nb) (bs_seen_nodes st)" "bs_seen_edges st1 = insert (nb_rel_id nb) (bs_seen_edges st)"
      "places (kh_nodes (bs_out st1)) = insert (nb_dst nb, depth) (places (kh_nodes (bs_out st)))" "bs_queue st1 = queue"
      using record_edge_eval [OF e] retain_node_eval [OF n] by (simp_all add: st1)
    from Cons.IH [OF b Cons.prems(2)] obtain new where
      all: "set new = nb_dst ` set batch - bs_seen_nodes st1 \<and>
        places (kh_nodes (bs_out st')) = places (kh_nodes (bs_out st1)) \<union> (\<lambda>v. (v, depth)) ` set new \<and>
        bs_seen_nodes st' = bs_seen_nodes st1 \<union> set new \<and> bs_seen_edges st' = bs_seen_edges st1 \<union> nb_rel_id ` set batch \<and>
        bs_queue st' = bs_queue st1 @ (if depth < kr_k req then map (\<lambda>v. (v, depth)) new else [])" ..
    note new = all [THEN conjunct1] all [THEN conjunct2, THEN conjunct1] all [THEN conjunct2, THEN conjunct2, THEN conjunct1]
      all [THEN conjunct2, THEN conjunct2, THEN conjunct2, THEN conjunct1] all [THEN conjunct2, THEN conjunct2, THEN conjunct2, THEN conjunct2]
    have "set (nb_dst nb # new) = nb_dst ` set (nb # batch) - bs_seen_nodes st" using new(1) s1(1) False by auto
    moreover have "bs_queue st' = bs_queue st @ (if depth < kr_k req then map (\<lambda>v. (v, depth)) (nb_dst nb # new) else [])"
      using new(5) s1(4) by (simp add: queue_def)
    moreover have "places (kh_nodes (bs_out st')) = places (kh_nodes (bs_out st)) \<union> (\<lambda>v. (v, depth)) ` set (nb_dst nb # new)"
      "bs_seen_nodes st' = bs_seen_nodes st \<union> set (nb_dst nb # new)"
      "bs_seen_edges st' = bs_seen_edges st \<union> nb_rel_id ` set (nb # batch)"
      unfolding new(2-4) s1(1-3) by simp_all
    ultimately show ?thesis by (intro exI [of _ "nb_dst nb # new"] conjI)
  qed
qed

text \<open>The state between two turns: level \<open>d\<close> is split into the nodes \<open>U\<close> already expanded and those at
  the front of the queue.\<close>

definition succs :: "graph \<Rightarrow> NodeId set \<Rightarrow> NodeId set" where
  "succs A U = {v. \<exists>u \<in> U. \<exists>r. (r, v) \<in> A u}"

definition rels_from :: "graph \<Rightarrow> NodeId set \<Rightarrow> RelId set" where
  "rels_from A U = {r. \<exists>u \<in> U. \<exists>v. (r, v) \<in> A u}"

definition below :: "graph \<Rightarrow> NodeId \<Rightarrow> nat \<Rightarrow> NodeId set" where
  "below A s d = {u. \<exists>j < d. u \<in> level A s j}"

definition level_places :: "graph \<Rightarrow> NodeId \<Rightarrow> nat \<Rightarrow> (NodeId \<times> u32) set" where
  "level_places A s d = {(v, word_of_nat j) |v j. j \<le> d \<and> v \<in> level A s j}"

definition bfs_at ::
  "graph \<Rightarrow> nat \<Rightarrow> NodeId \<Rightarrow> nat \<Rightarrow> NodeId list \<Rightarrow> NodeId list \<Rightarrow> NodeId set \<Rightarrow> ('n, 'e) bfs_state \<Rightarrow> bool" where
  "bfs_at A k s d Qa Qb U st \<longleftrightarrow>
     d < k \<and> bs_queue st = map (\<lambda>v. (v, word_of_nat d)) Qa @ map (\<lambda>v. (v, word_of_nat (Suc d))) Qb \<and>
     U \<union> set Qa = level A s d \<and>
     places (kh_nodes (bs_out st)) = level_places A s d \<union> (\<lambda>v. (v, word_of_nat (Suc d))) ` (succs A U - within A s d) \<and>
     bs_seen_nodes st = within A s d \<union> succs A U \<and>
     set Qb = (if Suc d < k then succs A U - within A s d else {}) \<and>
     bs_seen_edges st = rels_from A (below A s d \<union> U)"

lemma below_Suc: "below A s (Suc d) = below A s d \<union> level A s d"
  by (auto simp: below_def less_Suc_eq)

lemma level_places_Suc:
  "level_places A s (Suc d) = level_places A s d \<union> (\<lambda>v. (v, word_of_nat (Suc d))) ` level A s (Suc d)"
  unfolding level_places_def le_Suc_eq by (auto simp del: level.simps of_nat_Suc)

lemma succs_level: "succs A (level A s d) - within A s d = level A s (Suc d)"
  unfolding level_Suc succs_def by blast

lemma bfs_at_shift:
  assumes "bfs_at A k s d [] Qb U st" "Suc d < k"
  shows "bfs_at A k s (Suc d) Qb [] {} st"
proof -
  have U: "U = level A s d" using assms(1) by (simp add: bfs_at_def)
  have "within A s d \<union> succs A U = within A s (Suc d)"
    unfolding U within_level using succs_level [of A s d] by blast
  then show ?thesis
    using assms unfolding bfs_at_def U succs_level level_places_Suc below_Suc
    by (simp add: succs_def rels_from_def del: level.simps of_nat_Suc)
qed

lemma bfs_at_turn:
  assumes at: "bfs_at A k s d (u # Qa) Qb U st"
    and new: "set new = succs A {u} - bs_seen_nodes st"
    and st': "places (kh_nodes (bs_out st')) = places (kh_nodes (bs_out st)) \<union> (\<lambda>v. (v, word_of_nat (Suc d))) ` set new"
      "bs_seen_nodes st' = bs_seen_nodes st \<union> set new" "bs_seen_edges st' = bs_seen_edges st \<union> rels_from A {u}"
      "bs_queue st' = tl (bs_queue st) @ (if Suc d < k then map (\<lambda>v. (v, word_of_nat (Suc d))) new else [])"
  shows "bfs_at A k s d Qa (if Suc d < k then Qb @ new else Qb) (insert u U) st'"
proof -
  have seen: "bs_seen_nodes st = within A s d \<union> succs A U" using at by (simp add: bfs_at_def)
  have su: "succs A (insert u U) - within A s d = (succs A U - within A s d) \<union> set new"
    unfolding new seen by (auto simp: succs_def)
  moreover have "bs_seen_nodes st' = within A s d \<union> succs A (insert u U)"
    unfolding st'(2) new seen by (auto simp: succs_def)
  moreover have "bs_seen_edges st' = rels_from A (below A s d \<union> insert u U)"
    using at unfolding st'(3) by (auto simp: bfs_at_def rels_from_def)
  ultimately show ?thesis
    using at st'(1,4) unfolding bfs_at_def su image_Un
    by (auto simp del: level.simps of_nat_Suc)
qed

lemma level_empty_later:
  assumes "level A s d = {}" "d \<le> j"
  shows "level A s j = {}"
  using assms(2)
proof (induction j rule: dec_induct)
  case base
  show ?case by (rule assms(1))
next
  case (step j)
  then show ?case unfolding level_Suc by simp
qed

lemma bfs_at_end:
  assumes at: "bfs_at A k s d [] [] U st"
  shows "places (kh_nodes (bs_out st)) = level_places A s k \<and> bs_seen_edges st = rels_from A (below A s k)"
proof -
  have U: "U = level A s d" and d: "d < k" using at by (simp_all add: bfs_at_def)
  have p: "places (kh_nodes (bs_out st)) = level_places A s (Suc d)" "bs_seen_edges st = rels_from A (below A s (Suc d))"
    using at unfolding bfs_at_def U succs_level level_places_Suc below_Suc by blast+
  show ?thesis
  proof (cases "Suc d < k")
    case False
    then have "k = Suc d" using d by simp
    then show ?thesis using p by simp
  next
    case True
    then have "level A s (Suc d) = {}" using at unfolding bfs_at_def U succs_level by simp
    then have e: "j < Suc d" if "v \<in> level A s j" for v j
      using that level_empty_later [of A s "Suc d" j] by (metis empty_iff not_less)
    have "j \<le> k \<longleftrightarrow> j \<le> Suc d" "j < k \<longleftrightarrow> j < Suc d" if "v \<in> level A s j" for v j
      using e [OF that] True by auto
    then have "level_places A s k = level_places A s (Suc d)" "below A s k = below A s (Suc d)"
      unfolding level_places_def below_def by blast+
    then show ?thesis using p by simp
  qed
qed

lemma bfs_loop_unfold:
  fixes S :: "('n, 'e, 'err) EdgeSource"
  assumes "bfs_loop S req st = Inr st'" "bs_queue st = (cur, d) # queue" "d < kr_k req"
  obtains batch go st1 where "S cur (kr_direction req) (kr_filter req) = Inr batch"
    "bfs_batch req cur (d + 1) batch (st\<lparr>bs_queue := queue\<rparr>) = (Inr (go, st1) :: 'err TraversalError + _)"
    "if go then bfs_loop S req st1 = Inr st' else st1 = st'"
proof -
  obtain batch where b: "S cur (kr_direction req) (kr_filter req) = Inr batch"
    using assms by (subst (asm) bfs_loop.simps) (auto simp: not_le [symmetric] split: sum.splits)
  obtain go st1 where "bfs_batch req cur (d + 1) batch (st\<lparr>bs_queue := queue\<rparr>) = (Inr (go, st1) :: 'err TraversalError + _)"
    "if go then bfs_loop S req st1 = Inr st' else st1 = st'"
    using assms b by (subst (asm) bfs_loop.simps) (auto split: sum.splits if_splits)
  from that [OF b this] show thesis .
qed

lemma bfs_loop_truncation:
  fixes S :: "('n, 'e, 'err) EdgeSource"
  assumes "bfs_loop S req st = Inr st'" "kh_truncation (bs_out st') = NoTruncation"
  shows "kh_truncation (bs_out st) = NoTruncation"
  using assms
proof (induction S req st rule: bfs_loop.induct)
  case (1 S req st)
  show ?case
  proof (cases "bs_queue st")
    case Nil
    then show ?thesis using "1.prems" by (simp add: bfs_loop.simps [of S])
  next
    case (Cons entry queue)
    obtain cur d where entry: "entry = (cur, d)" by (cases entry)
    show ?thesis
    proof (cases "kr_k req \<le> d")
      case True
      then have "bfs_loop S req (st\<lparr>bs_queue := queue\<rparr>) = Inr st'"
        using "1.prems"(1) Cons entry by (subst (asm) bfs_loop.simps) simp
      then show ?thesis using "1.IH"(1) [OF Cons entry [symmetric] True] "1.prems"(2) by simp
    next
      case False
      then have d: "d < kr_k req" by simp
      obtain batch go st1 where b: "S cur (kr_direction req) (kr_filter req) = Inr batch"
          "bfs_batch req cur (d + 1) batch (st\<lparr>bs_queue := queue\<rparr>) = (Inr (go, st1) :: 'err TraversalError + _)"
          "if go then bfs_loop S req st1 = Inr st' else st1 = st'"
        using bfs_loop_unfold [OF "1.prems"(1) Cons [unfolded entry] d] .
      have "kh_truncation (bs_out st1) = NoTruncation"
        using "1.IH"(2) [OF Cons entry [symmetric] False b(1,2) refl] b(3) "1.prems"(2) by (cases go) auto
      from bfs_batch_truncation [OF b(2) this] show ?thesis by simp
    qed
  qed
qed

lemma bfs_at_front:
  assumes "bfs_at A k s d Qa Qb U st" "bs_queue st \<noteq> []"
  shows "\<exists>d u Qa Qb U. bfs_at A k s d (u # Qa) Qb U st"
proof (cases Qa)
  case Nil
  then have "Qb \<noteq> []" using assms by (auto simp: bfs_at_def)
  then have "Suc d < k" using assms(1) by (auto simp: bfs_at_def split: if_splits)
  from bfs_at_shift [OF assms(1) [unfolded Nil] this] show ?thesis using \<open>Qb \<noteq> []\<close> by (cases Qb) blast+
qed (use assms in blast)

lemma word_of_level:
  assumes "d < unat (k :: u32)"
  shows "word_of_nat d < k" "word_of_nat d + 1 = (word_of_nat (Suc d) :: u32)" "(word_of_nat (Suc d) :: u32) < k \<longleftrightarrow> Suc d < unat k"
proof -
  have "unat k < 2 ^ 32" using unsigned_less [of k, where 'a = nat] by simp
  then have "unat (word_of_nat d :: u32) = d" "unat (word_of_nat (Suc d) :: u32) = Suc d"
    using assms by (simp_all add: unat_of_nat del: of_nat_Suc)
  then show "word_of_nat d < k" "(word_of_nat (Suc d) :: u32) < k \<longleftrightarrow> Suc d < unat k"
    using assms by (simp_all add: word_less_nat_alt del: of_nat_Suc)
qed simp

lemma bfs_loop_exhaustive:
  fixes S :: "('n, 'e, 'err) EdgeSource"
  assumes "bfs_loop S req st = Inr st'" "kh_truncation (bs_out st') = NoTruncation"
    and "bfs_at (steps S (kr_direction req) (kr_filter req)) (unat (kr_k req)) s d Qa Qb U st"
  shows "places (kh_nodes (bs_out st')) = level_places (steps S (kr_direction req) (kr_filter req)) s (unat (kr_k req)) \<and>
    bs_seen_edges st' = rels_from (steps S (kr_direction req) (kr_filter req)) (below (steps S (kr_direction req) (kr_filter req)) s (unat (kr_k req)))"
  using assms
proof (induction S req st arbitrary: d Qa Qb U rule: bfs_loop.induct)
  case (1 S req st)
  let ?A = "steps S (kr_direction req) (kr_filter req)" and ?k = "unat (kr_k req)"
  show ?case
  proof (cases "bs_queue st")
    case Nil
    then have "st' = st" "Qa = []" "Qb = []" using "1.prems" by (simp_all add: bfs_loop.simps [of S] bfs_at_def)
    then show ?thesis using bfs_at_end "1.prems"(3) by blast
  next
    case (Cons entry queue)
    then obtain e u Qa' Qb' U' where at: "bfs_at ?A ?k s e (u # Qa') Qb' U' st" using bfs_at_front [OF "1.prems"(3)] by auto
    then have e: "e < ?k" and q: "bs_queue st = (u, word_of_nat e) # queue"
      using Cons by (simp_all add: bfs_at_def)
    note w = word_of_level [OF e]
    obtain batch go st1 where b: "S u (kr_direction req) (kr_filter req) = Inr batch"
        "bfs_batch req u (word_of_nat (Suc e)) batch (st\<lparr>bs_queue := queue\<rparr>) = (Inr (go, st1) :: 'err TraversalError + _)"
        "if go then bfs_loop S req st1 = Inr st' else st1 = st'"
      using bfs_loop_unfold [OF "1.prems"(1) q w(1)] unfolding w(2) .
    have t: "kh_truncation (bs_out st1) = NoTruncation"
      using b(3) "1.prems"(2) bfs_loop_truncation [of S req st1 st'] by (cases go) auto
    then have go: "bfs_loop S req st1 = Inr st'" using bfs_batch_truncation [OF b(2)] b(3) by simp
    have A: "nb_dst ` set batch = succs ?A {u}" "nb_rel_id ` set batch = rels_from ?A {u}"
      using b(1) by (force simp: succs_def rels_from_def steps_def step_of_def)+
    have upd: "bs_seen_nodes (st\<lparr>bs_queue := queue\<rparr>) = bs_seen_nodes st" "bs_seen_edges (st\<lparr>bs_queue := queue\<rparr>) = bs_seen_edges st"
      "bs_out (st\<lparr>bs_queue := queue\<rparr>) = bs_out st" "bs_queue (st\<lparr>bs_queue := queue\<rparr>) = queue" by simp_all
    obtain new where "set new = succs ?A {u} - bs_seen_nodes st \<and>
        places (kh_nodes (bs_out st1)) = places (kh_nodes (bs_out st)) \<union> (\<lambda>v. (v, word_of_nat (Suc e))) ` set new \<and>
        bs_seen_nodes st1 = bs_seen_nodes st \<union> set new \<and> bs_seen_edges st1 = bs_seen_edges st \<union> rels_from ?A {u} \<and>
        bs_queue st1 = tl (bs_queue st) @ (if Suc e < ?k then map (\<lambda>v. (v, word_of_nat (Suc e))) new else [])"
      using bfs_batch_full [OF b(2) t] unfolding A w(3) q upd list.sel ..
    then have new: "set new = succs ?A {u} - bs_seen_nodes st"
        "places (kh_nodes (bs_out st1)) = places (kh_nodes (bs_out st)) \<union> (\<lambda>v. (v, word_of_nat (Suc e))) ` set new"
        "bs_seen_nodes st1 = bs_seen_nodes st \<union> set new" "bs_seen_edges st1 = bs_seen_edges st \<union> rels_from ?A {u}"
        "bs_queue st1 = tl (bs_queue st) @ (if Suc e < ?k then map (\<lambda>v. (v, word_of_nat (Suc e))) new else [])"
      by simp_all
    from bfs_at_turn [OF at new] have at1: "bfs_at ?A ?k s e Qa' (if Suc e < ?k then Qb' @ new else Qb') (insert u U') st1" .
    have ih: "\<not> kr_k req \<le> word_of_nat e" using w(1) by (simp add: not_le)
    show ?thesis by (rule "1.IH"(2) [OF q refl ih b(1) b(2) [folded w(2)] refl _ go "1.prems"(2) at1])
        (use bfs_batch_truncation [OF b(2) t] in simp)
  qed
qed

text \<open>Without a budget nothing fails, and a truncation has its cause.\<close>

definition cut_ok :: "KHopRequest \<Rightarrow> ('n, 'e) KHopResult \<Rightarrow> bool" where
  "cut_ok req out \<longleftrightarrow> (kh_truncation out = LimitReached \<longrightarrow> kr_limit req \<le> length (kh_nodes out)) \<and>
     (kh_truncation out = FrontierCapped \<longrightarrow> kr_per_hop_frontier_cap req \<noteq> None)"

lemma bfs_batch_returns:
  "kr_cost_budget req = None \<Longrightarrow> \<exists>go st'. bfs_batch req cur depth batch st = (Inr (go, st') :: 'err TraversalError + _)"
proof (induction batch arbitrary: st)
  case (Cons nb batch)
  then show ?case by (auto simp: Let_def record_edge_def retain_node_def charge_def intro: exI [of _ False])
qed auto

lemma cut_ok_keep:
  "cut_ok req out \<Longrightarrow> kh_truncation out' = kh_truncation out \<Longrightarrow> length (kh_nodes out) \<le> length (kh_nodes out') \<Longrightarrow> cut_ok req out'"
  by (auto simp: cut_ok_def)

lemma cut_ok_set:
  "kr_per_hop_frontier_cap req = Some c \<Longrightarrow> cut_ok req (out\<lparr>kh_truncation := FrontierCapped\<rparr>)"
  "kr_limit req \<le> length (kh_nodes out) \<Longrightarrow> cut_ok req (out\<lparr>kh_truncation := LimitReached\<rparr>)"
  by (auto simp: cut_ok_def)

lemma bfs_batch_cut:
  assumes "bfs_batch req cur depth batch st = (Inr (go, st') :: 'err TraversalError + _)" "cut_ok req (bs_out st)"
  shows "cut_ok req (bs_out st')"
  using assms
proof (induction batch arbitrary: st)
  case (Cons nb batch)
  show ?case
    using Cons.prems
    by (auto simp: Let_def bind_res_Inr_iff cut_ok_set split: if_splits option.splits
        dest!: record_edge_eval retain_node_eval Cons.IH intro: cut_ok_keep)
qed simp

lemma bfs_loop_total:
  fixes S :: "('n, 'e, 'err) EdgeSource"
  assumes "\<And>node. \<exists>batch. S node (kr_direction req) (kr_filter req) = Inr batch" "kr_cost_budget req = None"
    and "cut_ok req (bs_out st)"
  shows "\<exists>st'. bfs_loop S req st = Inr st' \<and> cut_ok req (bs_out st')"
  using assms
proof (induction S req st rule: bfs_loop.induct)
  case (1 S req st)
  show ?case
  proof (cases "bs_queue st")
    case (Cons entry queue)
    obtain cur d where entry: "entry = (cur, d)" by (cases entry)
    obtain batch where b: "S cur (kr_direction req) (kr_filter req) = Inr batch" using "1.prems"(1) by blast
    obtain go st1 where st1: "bfs_batch req cur (d + 1) batch (st\<lparr>bs_queue := queue\<rparr>) = (Inr (go, st1) :: 'err TraversalError + _)"
      using bfs_batch_returns [OF "1.prems"(2)] by blast
    have cut: "cut_ok req (bs_out st1)" using bfs_batch_cut [OF st1] "1.prems"(3) by simp
    show ?thesis
      using "1.IH"(1) [OF Cons entry [symmetric]] "1.IH"(2) [OF Cons entry [symmetric] _ b st1 refl] "1.prems" b st1 cut
      by (subst (1) bfs_loop.simps) (auto simp: Cons entry)
  qed (use "1.prems" in \<open>simp add: bfs_loop.simps [of S]\<close>)
qed

section \<open>Properties\<close>

definition anchor_result :: "NodeId \<Rightarrow> 'n \<Rightarrow> u64 \<Rightarrow> ('n, 'e) KHopResult" where
  "anchor_result anchor anchor_data cost =
     \<lparr> kh_nodes = [\<lparr> kn_node = anchor, kn_depth = 0, kn_data = anchor_data \<rparr>], kh_edges = [],
       kh_truncation = NoTruncation, kh_cost_consumed = cost \<rparr>"

lemma anchor_ok:
  "kr_limit req \<noteq> 0 \<Longrightarrow> cost_ok req cost \<Longrightarrow> khop_ok A req anchor (anchor_result anchor x cost) {}"
  by (simp add: khop_ok_def anchor_result_def nodes_ok_def edges_ok_def hop_count_def node_ids_def)

lemma khop_ok_seen: "khop_ok A req anchor out se \<Longrightarrow> se = ke_rel_id ` set (kh_edges out)"
  by (simp add: khop_ok_def edges_ok_def)

lemma bfs_start_ok:
  assumes "khop_ok A req anchor (anchor_result anchor x cost :: ('n, 'e) KHopResult) {}"
  shows "bfs_ok A req anchor \<lparr> bs_out = (anchor_result anchor x cost :: ('n, 'e) KHopResult), bs_seen_nodes = {anchor}, bs_seen_edges = {},
    bs_queue = [(anchor, 0)], bs_per_hop_new = replicate (unat (kr_k req) + 1) 0 \<rparr>"
proof -
  have "unat d < Suc (unat (kr_k req))" if "d \<le> kr_k req" for d using that by (simp add: word_le_nat_alt)
  then show ?thesis
    using assms by (simp add: bfs_ok_def node_ids_def anchor_result_def hop_count_def del: replicate_Suc)
qed

lemma k_hop_result:
  assumes "k_hop key bytes S anchor x cost req = Done (Inr out)"
  obtains c where "kr_limit req \<noteq> 0" "cost_ok req c"
    "case kr_sampling req of Bfs \<Rightarrow> khop_bfs S anchor req (anchor_result anchor x c) = Inr out
     | ReservoirVitterL \<Rightarrow> khop_reservoir key bytes S anchor req (anchor_result anchor x c) = Done (Inr out)"
  using assms
  by (auto simp: k_hop_def anchor_result_def Let_def split: if_splits sum.splits SamplingStrategy.splits dest: charge_ok)

lemma k_hop_bfs_returns:
  fixes S :: "('n, 'e, 'err) EdgeSource"
  assumes S: "edge_source S"
    and req: "kr_sampling req = Bfs" "kr_cost_budget req = None" "0 < kr_limit req" "kr_per_hop_frontier_cap req \<noteq> Some 0"
  obtains st where
    "bfs_loop S req \<lparr> bs_out = anchor_result anchor x cost, bs_seen_nodes = {anchor}, bs_seen_edges = {},
       bs_queue = [(anchor, 0)], bs_per_hop_new = replicate (unat (kr_k req) + 1) 0 \<rparr> = Inr st"
    "cut_ok req (bs_out st)" "k_hop key bytes S anchor x cost req = Done (Inr (bs_out st))"
proof -
  let ?st = "\<lparr> bs_out = anchor_result anchor x cost :: ('n, 'e) KHopResult, bs_seen_nodes = {anchor}, bs_seen_edges = {},
    bs_queue = [(anchor, 0)], bs_per_hop_new = replicate (unat (kr_k req) + 1) 0 \<rparr>"
  have "cut_ok req (bs_out ?st)" by (simp add: cut_ok_def anchor_result_def)
  then obtain st where st: "bfs_loop S req ?st = Inr st" "cut_ok req (bs_out st)"
    using bfs_loop_total [of S req ?st] edge_source.total [OF S] req(2) by blast
  have "k_hop key bytes S anchor x cost req = Done (Inr (bs_out st))"
    using req st(1) by (simp add: k_hop_def charge_def saturating_add64_def khop_bfs_def anchor_result_def Let_def)
  with st show thesis by (rule that)
qed

text \<open>C10: Whatever strategy, seed and caps a k-hop request asks for, a result that is returned keeps its
  bounds: the anchor first, different nodes, no more than the limit, none deeper than \<open>k\<close>, no hop wider than
  the frontier cap, every other node one hop beyond a retained node with a relationship between them,
  each relationship once and between retained nodes, and the cost within the budget.\<close>

theorem khop_bounds:
  assumes "k_hop key bytes S anchor x cost req = Done (Inr out)"
  shows "khop_ok (steps S (kr_direction req) (kr_filter req)) req anchor out (ke_rel_id ` set (kh_edges out))"
proof -
  let ?A = "steps S (kr_direction req) (kr_filter req)"
  obtain c where c: "kr_limit req \<noteq> 0" "cost_ok req c"
    "case kr_sampling req of Bfs \<Rightarrow> khop_bfs S anchor req (anchor_result anchor x c) = Inr out
     | ReservoirVitterL \<Rightarrow> khop_reservoir key bytes S anchor req (anchor_result anchor x c) = Done (Inr out)"
    using k_hop_result [OF assms] .
  note start = anchor_ok [OF c(1,2), of ?A anchor x]
  have "\<exists>se. khop_ok ?A req anchor out se"
  proof (cases "kr_sampling req")
    case Bfs
    then obtain st where "bfs_loop S req \<lparr> bs_out = anchor_result anchor x c, bs_seen_nodes = {anchor}, bs_seen_edges = {},
        bs_queue = [(anchor, 0)], bs_per_hop_new = replicate (unat (kr_k req) + 1) 0 \<rparr> = Inr st" "out = bs_out st"
      using c(3) by (auto simp: khop_bfs_def bind_res_Inr_iff)
    then show ?thesis using bfs_loop_ok [OF _ bfs_start_ok [OF start]] by (auto simp: bfs_ok_def)
  next
    case ReservoirVitterL
    have ids: "node_ids (anchor_result anchor x c) = {anchor}" by (simp add: node_ids_def anchor_result_def)
    show ?thesis
      by (rule reservoir_loop_ok [where out = "anchor_result anchor x c" and left = "unat (kr_k req)" and frontier = "[anchor]", OF _ start])
        (use c(3) ReservoirVitterL in \<open>simp_all add: ids khop_reservoir_def\<close>, simp_all add: anchor_result_def)
  qed
  then show ?thesis using khop_ok_seen by blast
qed

definition example_request :: KHopRequest where
  "example_request = (KHopRequest_new 2 Outbound)\<lparr>kr_limit := 6, kr_per_hop_frontier_cap := Some 3\<rparr>"

lemma example_request_simps:
  "kr_sampling example_request = Bfs" "kr_cost_budget example_request = None" "0 < kr_limit example_request"
  "kr_per_hop_frontier_cap example_request \<noteq> Some 0"
  by (simp_all add: example_request_def KHopRequest_new_def)

definition grid :: "(unit, unit, unit) EdgeSource" where
  "grid = mem_neighbors grid_graph"

lemma grid_source: "edge_source grid"
  unfolding grid_def grid_graph_def by (rule mem.edge_source_axioms)

theorem khop_bounds_witness:
  "\<exists>out. k_hop (\<lambda>_ _. 0 :: nat) 40 grid 1 () 0 example_request = Done (Inr out) \<and>
     khop_ok (steps grid Outbound EdgeFilter_any) example_request 1 out (ke_rel_id ` set (kh_edges out))"
proof -
  obtain out where "k_hop (\<lambda>_ _. 0 :: nat) 40 grid 1 () 0 example_request = Done (Inr out)"
    by (rule k_hop_bfs_returns [OF grid_source example_request_simps, of 1 "()" 0 "\<lambda>_ _. 0 :: nat" 40]) (rule that)
  from this khop_bounds [OF this] show ?thesis by (auto simp: example_request_def KHopRequest_new_def)
qed

text \<open>C8: Breadth-first expansion without a cost budget returns on every source that answers, and its result
  is either the whole neighbourhood - exactly the nodes within \<open>k\<close> hops, each with its hop distance, and
  exactly the relationships leaving nodes nearer than \<open>k\<close> - or marked as cut: at the limit only with as
  many nodes as the limit allows, at a hop only under a frontier cap.\<close>

theorem khop_exhaustive:
  fixes S :: "('n, 'e, 'err) EdgeSource"
  assumes S: "edge_source S"
    and req: "kr_sampling req = Bfs" "kr_cost_budget req = None" "0 < kr_limit req" "kr_per_hop_frontier_cap req \<noteq> Some 0"
  shows "\<exists>out. k_hop key bytes S anchor x cost req = Done (Inr out) \<and>
    (case kh_truncation out of
       NoTruncation \<Rightarrow>
         places (kh_nodes out) = level_places (steps S (kr_direction req) (kr_filter req)) anchor (unat (kr_k req)) \<and>
         ke_rel_id ` set (kh_edges out) =
           rels_from (steps S (kr_direction req) (kr_filter req))
             (below (steps S (kr_direction req) (kr_filter req)) anchor (unat (kr_k req)))
     | LimitReached \<Rightarrow> length (kh_nodes out) = kr_limit req
     | FrontierCapped \<Rightarrow> \<exists>cap. kr_per_hop_frontier_cap req = Some cap)"
proof -
  let ?A = "steps S (kr_direction req) (kr_filter req)" and ?out = "anchor_result anchor x cost :: ('n, 'e) KHopResult"
  let ?st = "\<lparr> bs_out = ?out, bs_seen_nodes = {anchor}, bs_seen_edges = {},
    bs_queue = [(anchor, 0)], bs_per_hop_new = replicate (unat (kr_k req) + 1) 0 \<rparr>"
  obtain st where st: "bfs_loop S req ?st = Inr st" "cut_ok req (bs_out st)"
      and run: "k_hop key bytes S anchor x cost req = Done (Inr (bs_out st))"
    using k_hop_bfs_returns [OF S req] .
  have ok: "khop_ok ?A req anchor (bs_out st) (bs_seen_edges st)" "length (kh_nodes (bs_out st)) \<le> kr_limit req"
    using bfs_loop_ok [OF st(1) bfs_start_ok [OF anchor_ok]] req by (auto simp: bfs_ok_def khop_ok_def nodes_ok_def cost_ok_def)
  have "places (kh_nodes (bs_out st)) = level_places ?A anchor (unat (kr_k req)) \<and>
      bs_seen_edges st = rels_from ?A (below ?A anchor (unat (kr_k req)))" if t: "kh_truncation (bs_out st) = NoTruncation"
  proof (cases "unat (kr_k req)")
    case 0
    then have "st = ?st\<lparr>bs_queue := []\<rparr>" using st(1) by (simp add: bfs_loop.simps [of S] unat_eq_zero)
    then show ?thesis using 0 by (simp add: anchor_result_def level_places_def rels_from_def below_def)
  next
    case (Suc k)
    then have "bfs_at ?A (unat (kr_k req)) anchor 0 [anchor] [] {} ?st"
      by (simp add: bfs_at_def succs_def within_0 anchor_result_def level_places_def rels_from_def below_def)
    from bfs_loop_exhaustive [OF st(1) t this] show ?thesis .
  qed
  then show ?thesis
    using run st(2) ok khop_ok_seen [OF ok(1)] by (auto simp: cut_ok_def split: Truncation.splits)
qed

theorem khop_exhaustive_witness:
  "edge_source grid \<and>
   (\<exists>out. k_hop (\<lambda>_ _. 0 :: nat) 40 grid 1 () 0 example_request = Done (Inr out) \<and>
      (case kh_truncation out of
         NoTruncation \<Rightarrow> places (kh_nodes out) = level_places (steps grid Outbound EdgeFilter_any) 1 2
       | LimitReached \<Rightarrow> length (kh_nodes out) = 6
       | FrontierCapped \<Rightarrow> True))"
proof -
  have r: "kr_direction example_request = Outbound" "kr_filter example_request = EdgeFilter_any"
      "unat (kr_k example_request) = 2" "kr_limit example_request = 6"
    by (simp_all add: example_request_def KHopRequest_new_def)
  obtain out where "k_hop (\<lambda>_ _. 0 :: nat) 40 grid 1 () 0 example_request = Done (Inr out)"
      "case kh_truncation out of
         NoTruncation \<Rightarrow> places (kh_nodes out) = level_places (steps grid Outbound EdgeFilter_any) 1 2 \<and>
           ke_rel_id ` set (kh_edges out) = rels_from (steps grid Outbound EdgeFilter_any) (below (steps grid Outbound EdgeFilter_any) 1 2)
       | LimitReached \<Rightarrow> length (kh_nodes out) = 6
       | FrontierCapped \<Rightarrow> \<exists>cap. kr_per_hop_frontier_cap example_request = Some cap"
    using khop_exhaustive [OF grid_source example_request_simps, of "\<lambda>_ _. 0 :: nat" 40 1 "()" 0, unfolded r] by blast
  then show ?thesis using grid_source by (intro conjI exI [of _ out]) (auto split: Truncation.splits)
qed

text \<open>C40: A sampled expansion with the default bounds panics: without a frontier cap and with the default
  limit the reservoir of the first hop is created with a capacity of the largest \<open>usize\<close>, whose buffer
  exceeds the address space.\<close>

theorem unbounded_reservoir_panics:
  assumes "0 < k" "0 < bytes"
  shows "k_hop key bytes S anchor x cost ((KHopRequest_new k d)\<lparr>kr_sampling := ReservoirVitterL\<rparr>) = Panicked"
proof -
  obtain left where k: "unat k = Suc left" using assms(1) by (cases "unat k") (auto simp: unat_eq_zero)
  have "2 ^ 63 - 1 < min (max (min usize_MAX (usize_MAX - 1)) 1 + 1) usize_MAX * bytes"
    using assms(2) by (cases bytes) (simp_all add: usize_MAX_def)
  then show ?thesis
    by (simp add: k_hop_def KHopRequest_new_def charge_def khop_reservoir_def k WeightedReservoir_new_def usize_MAX_def Let_def)
qed

theorem unbounded_reservoir_panics_witness:
  "k_hop (\<lambda>_ _. 0 :: nat) 40 grid 1 () 0
     ((KHopRequest_new 2 Outbound)\<lparr>kr_sampling := ReservoirVitterL\<rparr>) = Panicked"
  by (rule unbounded_reservoir_panics) simp_all

end
