(* ===== verification/Graph_Merge.thy ===== *)
theory Graph_Merge
  imports Graph_Khop "HOL-Library.Product_Lexorder"
begin

text \<open>
  The merge of several expansions (\<open>arcgraph-graph-traversal/src/merge.rs\<close>). The hash map of the best
  node per identifier is a list of nodes with different identifiers; its order does not matter, since
  the nodes are sorted by depth and identifier afterwards.
\<close>

fun truncation_rank :: "Truncation \<Rightarrow> nat" where
  "truncation_rank NoTruncation = 0"
| "truncation_rank FrontierCapped = 1"
| "truncation_rank LimitReached = 2"

definition strongest :: "Truncation \<Rightarrow> Truncation \<Rightarrow> Truncation" where
  "strongest a b = (if truncation_rank b > truncation_rank a then b else a)"

fun merge_node :: "'n KHopNode list \<Rightarrow> 'n KHopNode \<Rightarrow> 'n KHopNode list" where
  "merge_node [] node = [node]"
| "merge_node (existing # best) node =
     (if kn_node existing = kn_node node then
        (if kn_depth existing \<le> kn_depth node then existing # best else node # best)
      else existing # merge_node best node)"

fun merge_edge :: "'e KHopEdge list \<times> RelId set \<Rightarrow> 'e KHopEdge \<Rightarrow> 'e KHopEdge list \<times> RelId set" where
  "merge_edge (edges, seen_edges) edge =
     (if ke_rel_id edge \<in> seen_edges then (edges, seen_edges)
      else (edges @ [edge], insert (ke_rel_id edge) seen_edges))"

record ('n, 'e) merge_state =
  ms_cost_consumed :: u64
  ms_truncation :: Truncation
  ms_best :: "'n KHopNode list"
  ms_edges :: "'e KHopEdge list \<times> RelId set"

definition merge_part :: "('n, 'e) merge_state \<Rightarrow> ('n, 'e) KHopResult \<Rightarrow> ('n, 'e) merge_state" where
  "merge_part st part =
     \<lparr> ms_cost_consumed = saturating_add64 (ms_cost_consumed st) (kh_cost_consumed part),
       ms_truncation = strongest (ms_truncation st) (kh_truncation part),
       ms_best = foldl merge_node (ms_best st) (kh_nodes part),
       ms_edges = foldl merge_edge (ms_edges st) (kh_edges part) \<rparr>"

definition node_order :: "'n KHopNode \<Rightarrow> u32 \<times> NodeId" where
  "node_order n = (kn_depth n, kn_node n)"

definition merge_top_k :: "('n, 'e) KHopResult list \<Rightarrow> nat \<Rightarrow> ('n, 'e) KHopResult" where
  "merge_top_k parts limit =
     (let st = foldl merge_part
                 \<lparr> ms_cost_consumed = 0, ms_truncation = NoTruncation, ms_best = [], ms_edges = ([], {}) \<rparr> parts;
          nodes = sort_key node_order (ms_best st);
          truncation = (if length nodes > limit then strongest (ms_truncation st) LimitReached else ms_truncation st);
          nodes = take limit nodes;
          retained_nodes = kn_node ` set nodes
      in \<lparr> kh_nodes = nodes,
           kh_edges = filter (\<lambda>edge. ke_src edge \<in> retained_nodes \<and> ke_dst edge \<in> retained_nodes) (fst (ms_edges st)),
           kh_truncation = truncation,
           kh_cost_consumed = ms_cost_consumed st \<rparr>)"

section \<open>What a merge computes\<close>

text \<open>The places with the least depth of their node.\<close>

definition least_places :: "(u32 \<times> NodeId) set \<Rightarrow> (u32 \<times> NodeId) set" where
  "least_places P = {(d, v) \<in> P. \<forall>(d', v') \<in> P. v' = v \<longrightarrow> d \<le> d'}"

fun first_sights :: "'e KHopEdge list \<Rightarrow> 'e KHopEdge list" where
  "first_sights [] = []"
| "first_sights (e # es) = e # filter (\<lambda>e'. ke_rel_id e' \<noteq> ke_rel_id e) (first_sights es)"

definition best_of :: "(u32 \<times> NodeId) set \<Rightarrow> 'n KHopNode list \<Rightarrow> bool" where
  "best_of P best \<longleftrightarrow> distinct (map kn_node best) \<and> node_order ` set best = least_places P"

lemma least_places_insert:
  "least_places (insert (d, v) P) =
     (if \<exists>d' \<le> d. (d', v) \<in> least_places P then least_places P
      else insert (d, v) {p \<in> least_places P. snd p \<noteq> v})" if "finite P"
proof -
  have least: "\<exists>d' \<le> e. (d', v) \<in> least_places P" if "(e, v) \<in> P" for e
  proof -
    let ?D = "{d'. (d', v) \<in> P}"
    have "finite ?D" using \<open>finite P\<close> finite_imageI [of P fst] by (rule_tac finite_subset [of _ "fst ` P"]) force+
    then have "Min ?D \<in> ?D" "\<forall>x \<in> ?D. Min ?D \<le> x" using that by (intro Min_in ballI Min_le; blast)+
    then have "(Min ?D, v) \<in> least_places P" "Min ?D \<le> e" using that by (auto simp: least_places_def)
    then show ?thesis by blast
  qed
  show ?thesis
  proof (cases "\<exists>d' \<le> d. (d', v) \<in> least_places P")
    case True
    then obtain d' where d': "d' \<le> d" "(d', v) \<in> P" "\<And>e. (e, v) \<in> P \<Longrightarrow> d' \<le> e" by (auto simp: least_places_def)
    have "(e, w) \<in> least_places (insert (d, v) P) \<longleftrightarrow> (e, w) \<in> least_places P" for e w
    proof (cases "w = v")
      case True
      have "e = d'" if "(e, v) \<in> least_places (insert (d, v) P) \<or> (e, v) \<in> least_places P"
        using that d' by (intro order.antisym) (auto simp: least_places_def)
      moreover have "(d', v) \<in> least_places (insert (d, v) P)" "(d', v) \<in> least_places P"
        using d' by (auto simp: least_places_def)
      ultimately show ?thesis using True by blast
    qed (auto simp: least_places_def)
    then show ?thesis using True by (simp add: set_eq_iff)
  next
    case False
    then have d: "d < e" if "(e, v) \<in> P" for e using least [OF that] by (meson less_le_trans not_le)
    then have "least_places (insert (d, v) P) = insert (d, v) {p \<in> least_places P. snd p \<noteq> v}"
      unfolding least_places_def by (auto simp: less_imp_le dest: leD)
    then show ?thesis using False by (simp only: if_False)
  qed
qed

lemma merge_node_ids: "kn_node ` set (merge_node best n) = insert (kn_node n) (kn_node ` set best)"
  by (induction best n rule: merge_node.induct) auto

lemma merge_node_distinct: "distinct (map kn_node best) \<Longrightarrow> distinct (map kn_node (merge_node best n))"
  by (induction best n rule: merge_node.induct) (auto simp: merge_node_ids)

lemma merge_node_order:
  "distinct (map kn_node best) \<Longrightarrow> node_order ` set (merge_node best n) =
     (if \<exists>d' \<le> kn_depth n. (d', kn_node n) \<in> node_order ` set best then node_order ` set best
      else insert (node_order n) {p \<in> node_order ` set best. snd p \<noteq> kn_node n})"
proof (induction best n rule: merge_node.induct)
  case (2 existing best node)
  have rest: "{p \<in> node_order ` set best. snd p \<noteq> kn_node node} = node_order ` set best" if "kn_node existing = kn_node node"
    using "2.prems" that by (auto simp: node_order_def image_iff)
  show ?case
  proof (cases "kn_node existing = kn_node node")
    case True
    then have "\<nexists>d'. (d', kn_node node) \<in> node_order ` set best" using "2.prems" by (force simp: node_order_def)
    then show ?thesis using True rest [OF True] by (auto simp: node_order_def)
  next
    case False
    have old: "(\<exists>d' \<le> kn_depth node. (d', kn_node node) \<in> node_order ` set (existing # best)) \<longleftrightarrow>
        (\<exists>d' \<le> kn_depth node. (d', kn_node node) \<in> node_order ` set best)"
      and others: "{p \<in> node_order ` set (existing # best). snd p \<noteq> kn_node node} =
        insert (node_order existing) {p \<in> node_order ` set best. snd p \<noteq> kn_node node}"
      using False by (simp_all add: node_order_def [of existing] conj_disj_distribR Collect_disj_eq Collect_conv_if insert_Collect)
    have "node_order ` set (merge_node (existing # best) node) = insert (node_order existing) (node_order ` set (merge_node best node))"
      using False by simp
    moreover have "distinct (map kn_node best)" using "2.prems" by simp
    ultimately show ?thesis
      unfolding old others "2.IH" [OF False \<open>distinct (map kn_node best)\<close>] if_distrib [of "insert (node_order existing)"]
      by (simp only: insert_commute [of "node_order existing" "node_order node"] list.set image_insert)
  qed
qed (simp add: node_order_def)

lemma best_of_node: "best_of P best \<Longrightarrow> finite P \<Longrightarrow> best_of (insert (node_order n) P) (merge_node best n)"
  unfolding best_of_def
  by (simp only: merge_node_distinct merge_node_order least_places_insert simp_thms node_order_def [of n])

lemma best_of_nodes: "best_of P best \<Longrightarrow> finite P \<Longrightarrow> best_of (P \<union> node_order ` set ns) (foldl merge_node best ns)"
proof (induction ns arbitrary: P best)
  case (Cons n ns)
  from Cons.IH [OF best_of_node [OF Cons.prems]] Cons.prems(2) show ?case by simp
qed simp

lemma merge_edges:
  "foldl merge_edge (edges, seen) es =
     (edges @ filter (\<lambda>e. ke_rel_id e \<notin> seen) (first_sights es), seen \<union> ke_rel_id ` set es)"
proof (induction es arbitrary: edges seen)
  case (Cons e es)
  then show ?case by (auto simp: filter_filter intro: filter_cong)
qed simp

lemma first_sights_append:
  "first_sights (es @ fs) = first_sights es @ filter (\<lambda>e. ke_rel_id e \<notin> ke_rel_id ` set es) (first_sights fs)"
  by (induction es) (auto simp: filter_filter intro: filter_cong)

lemma merge_edges_split:
  "foldl merge_edge ([], {}) es = (first_sights es, ke_rel_id ` set es)"
  using merge_edges [of "[]" "{}" es] by simp

definition merge_places :: "('n, 'e) KHopResult list \<Rightarrow> (u32 \<times> NodeId) set" where
  "merge_places parts = (\<Union>part \<in> set parts. node_order ` set (kh_nodes part))"

lemma finite_merge_places [simp]: "finite (merge_places parts)"
  by (simp add: merge_places_def)

definition merged :: "('n, 'e) KHopResult list \<Rightarrow> ('n, 'e) merge_state" where
  "merged parts = foldl merge_part \<lparr> ms_cost_consumed = 0, ms_truncation = NoTruncation, ms_best = [], ms_edges = ([], {}) \<rparr> parts"

lemma merged_snoc: "merged (parts @ [part]) = merge_part (merged parts) part"
  by (simp add: merged_def)

lemma merged_best: "best_of (merge_places parts) (ms_best (merged parts))"
proof (induction parts rule: rev_induct)
  case Nil
  then show ?case by (simp add: merged_def best_of_def merge_places_def least_places_def)
next
  case (snoc part parts)
  have "merge_places (parts @ [part]) = merge_places parts \<union> node_order ` set (kh_nodes part)"
    by (auto simp: merge_places_def)
  then show ?case using best_of_nodes [OF snoc.IH, of "kh_nodes part"] by (simp add: merged_snoc merge_part_def)
qed

lemma merged_edges: "ms_edges (merged parts) = (first_sights (concat (map kh_edges parts)), ke_rel_id ` set (concat (map kh_edges parts)))"
proof (induction parts rule: rev_induct)
  case (snoc part parts)
  then show ?case by (simp add: merged_snoc merge_part_def merge_edges first_sights_append image_Un)
qed (simp add: merged_def)

lemma merged_truncation:
  "ms_truncation (merged parts) =
     (if LimitReached \<in> kh_truncation ` set parts then LimitReached
      else if FrontierCapped \<in> kh_truncation ` set parts then FrontierCapped else NoTruncation)"
proof (induction parts rule: rev_induct)
  case (snoc part parts)
  then show ?case by (cases "kh_truncation part") (auto simp: merged_snoc merge_part_def strongest_def)
qed (simp add: merged_def)

lemma unat_saturating_add64: "unat (saturating_add64 a b) = min (2 ^ 64 - 1) (unat a + unat b)"
proof (cases "a \<le> a + b")
  case True
  then have "unat (a + b) = unat a + unat b"
    using unsigned_less [of b, where 'a = nat] by (auto simp: word_le_nat_alt unat_plus_if_size word_size split: if_splits)
  then show ?thesis using True unsigned_less [of "a + b", where 'a = nat] by (simp add: saturating_add64_def)
next
  case False
  then have "2 ^ 64 \<le> unat a + unat b"
    using unat_plus_if_size [of a b] by (simp add: word_le_nat_alt word_size split: if_splits)
  then show ?thesis using False by (simp add: saturating_add64_def unsigned_minus_1_eq_mask mask_eq_exp_minus_1)
qed

lemma merged_cost: "unat (ms_cost_consumed (merged parts)) = min (2 ^ 64 - 1) (\<Sum>part \<leftarrow> parts. unat (kh_cost_consumed part))"
proof (induction parts rule: rev_induct)
  case (snoc part parts)
  then show ?case by (simp add: merged_snoc merge_part_def unat_saturating_add64)
qed (simp add: merged_def)

lemma sorted_nodes:
  assumes "best_of P best" "finite P"
  shows "map node_order (sort_key node_order best) = sorted_list_of_set (least_places P)"
proof -
  have "inj_on node_order (set best)" "distinct best"
    using assms(1) by (auto simp: best_of_def distinct_map inj_on_def node_order_def)
  then have "distinct (map node_order (sort_key node_order best))" by (simp add: distinct_map)
  moreover have "sorted (map node_order (sort_key node_order best))" by simp
  moreover have "set (map node_order (sort_key node_order best)) = least_places P" using assms(1) by (simp add: best_of_def)
  ultimately show ?thesis using sorted_list_of_set.idem_if_sorted_distinct [of "map node_order (sort_key node_order best)"] by simp
qed

text \<open>C17: Merging expansions keeps, of all the nodes the parts report, each at its least depth, the nearest
  \<open>limit\<close> in the order of depth and identifier - whatever the order of the parts; of the relationships the
  first sight of each identifier, where both end points are kept; the result is marked as cut at the
  limit exactly when a part is or the merge drops a node, and its cost is the sum of the parts', saturating.\<close>

theorem merge_top_k_exact:
  "map node_order (kh_nodes (merge_top_k parts limit)) = take limit (sorted_list_of_set (least_places (merge_places parts))) \<and>
   kh_edges (merge_top_k parts limit) =
     filter (\<lambda>e. ke_src e \<in> node_ids (merge_top_k parts limit) \<and> ke_dst e \<in> node_ids (merge_top_k parts limit))
       (first_sights (concat (map kh_edges parts))) \<and>
   kh_truncation (merge_top_k parts limit) =
     (if LimitReached \<in> kh_truncation ` set parts \<or> limit < card (least_places (merge_places parts)) then LimitReached
      else if FrontierCapped \<in> kh_truncation ` set parts then FrontierCapped else NoTruncation) \<and>
   unat (kh_cost_consumed (merge_top_k parts limit)) = min (2 ^ 64 - 1) (\<Sum>part \<leftarrow> parts. unat (kh_cost_consumed part))"
proof -
  let ?nodes = "sort_key node_order (ms_best (merged parts))"
  have order: "map node_order ?nodes = sorted_list_of_set (least_places (merge_places parts))"
    by (rule sorted_nodes [OF merged_best]) simp
  have "length ?nodes = card (least_places (merge_places parts))" using arg_cong [OF order, of length] by simp
  moreover have "merge_top_k parts limit =
     \<lparr> kh_nodes = take limit ?nodes,
       kh_edges = filter (\<lambda>e. ke_src e \<in> kn_node ` set (take limit ?nodes) \<and> ke_dst e \<in> kn_node ` set (take limit ?nodes))
         (first_sights (concat (map kh_edges parts))),
       kh_truncation = (if length ?nodes > limit then strongest (ms_truncation (merged parts)) LimitReached else ms_truncation (merged parts)),
       kh_cost_consumed = ms_cost_consumed (merged parts) \<rparr>"
    by (simp add: merge_top_k_def merged_def [symmetric] merged_edges Let_def)
  ultimately have m: "map node_order (kh_nodes (merge_top_k parts limit)) = take limit (map node_order ?nodes)"
      "kh_edges (merge_top_k parts limit) =
         filter (\<lambda>e. ke_src e \<in> node_ids (merge_top_k parts limit) \<and> ke_dst e \<in> node_ids (merge_top_k parts limit))
           (first_sights (concat (map kh_edges parts)))"
      "kh_truncation (merge_top_k parts limit) =
         (if card (least_places (merge_places parts)) > limit then strongest (ms_truncation (merged parts)) LimitReached
          else ms_truncation (merged parts))"
      "kh_cost_consumed (merge_top_k parts limit) = ms_cost_consumed (merged parts)"
    by (simp_all add: node_ids_def take_map)
  have "kh_truncation (merge_top_k parts limit) =
     (if LimitReached \<in> kh_truncation ` set parts \<or> limit < card (least_places (merge_places parts)) then LimitReached
      else if FrontierCapped \<in> kh_truncation ` set parts then FrontierCapped else NoTruncation)"
    unfolding m(3) merged_truncation strongest_def by simp
  then show ?thesis using m(1,2,4) merged_cost [of parts] unfolding order by simp
qed

end
