(* ===== verification/Spec2Isabelle.thy ===== *)
theory Spec2Isabelle
  imports Tel_Block Wal_Recovery Wal_Delta Page_Direct Txn_Isolation Graph_Yen Graph_Merge
begin

text \<open>
  A verification of the storage core and of the graph traversal of ArcGraph, a graph database in Rust.

  \<^bold>\<open>The program.\<close> A record (a node, a relationship or a bag of properties) lives in a slot of an 8 KiB page
  (crate \<open>arcgraph-storage\<close>, \<open>records.rs\<close>) in a fixed layout (crate \<open>arcgraph-core\<close>, \<open>record.rs\<close>); the
  edges of a node live in edge log blocks (\<open>tel.rs\<close>). A transaction (\<open>transaction.rs\<close>) reads versions as of
  its snapshot and commits by appending a record to the write-ahead log (\<open>wal/\<close>), in which a commit carries
  delta operations that name pages and slots directly (\<open>wal/delta.rs\<close>, \<open>address.rs\<close>, \<open>owner_row.rs\<close>,
  \<open>extent.rs\<close>). After a crash the log is read back (\<open>wal/recovery.rs\<close>). Queries walk the graph through the
  algorithms of the crate \<open>arcgraph-graph-traversal\<close>.

  \<^bold>\<open>How the model reads.\<close> A Rust struct is a \<open>record\<close>, an enum a \<open>datatype\<close>, an integer a machine
  word; identifier newtypes are words. A function that returns a \<open>Result\<close> returns a sum, \<open>Inl\<close> the
  error; where the source can panic (a slice index, a checked assertion, counter overflow) the result has the
  type \<open>run\<close> with the constructor \<open>Panicked\<close>. A buffer is a list of bytes. A structure behind locks or atomics is
  an explicit state, and each atomic section or atomic store is one step of a relation. Definitions keep
  the names of the source, with the type first where two types share a method name.

  \<^bold>\<open>Shared theories.\<close> \<open>Prelude\<close>: words, byte buffers, little-endian integers and the rewrite
  collections \<open>buf_simps\<close> and \<open>codec_simps\<close>. \<open>Core_Error\<close>: identifiers and the error enum.

  \<^bold>\<open>Layouts.\<close> \<open>Record_Codec\<close> models \<open>record.rs\<close>; the locale \<open>fixed_codec\<close> is the contract of a codec of a fixed
  size, interpreted for page header, node, relationship and edge entry. The lemmas show that decoding
  accepts exactly the encodings and that arrays of records are read back.

  \<^bold>\<open>Edge log.\<close> \<open>Tel_Block\<close> models \<open>tel.rs\<close> at the level of its atomics: an append stores the slot and
  then publishes the count, and a scan reads the count once. Shown: append refines list append, a scan that
  interleaves with appends sees the block as of its start, growth keeps the entries, and when a link is
  write-once.

  \<^bold>\<open>Write-ahead log.\<close> \<open>Wal_Record\<close> (framing and checksum), \<open>Wal_Encryption\<close> (key ring, payload framing),
  \<open>Wal_Segment\<close> (segment header, file names, the writer with rotation) and \<open>Wal_Recovery\<close> (the reader over all
  segments, torn tails, truncation). Shown: the decoder accepts exactly the encodings; recovery
  returns exactly what was written; after a crash in the middle of an append it returns all older records
  and a prefix of the batch; and recovery, truncation, reopening and appending again compose. The
  reader's loop is bounded by the bytes left, which the proofs show to be enough. \<open>Owner_Row\<close> models direct
  addresses and the row envelope, \<open>Wal_Delta\<close> the delta operations: validation per format, the codec, and
  the stamping of LSNs.

  \<^bold>\<open>Pages.\<close> \<open>Slotted_Page\<close> models every operation of \<open>records.rs\<close> on the bytes of a page. \<open>Page_Cells\<close> gives
  the specification, a list of cells (a hole, a permanent tombstone, or the bytes of a record), and
  shows that each operation refines its operation on cells, with reads returning the cells. \<open>Page_Direct\<close>
  treats pages of fixed-size records at direct addresses: publishers that arrive in any order leave the same
  bytes.

  \<^bold>\<open>Transactions.\<close> \<open>Mvcc_Chain\<close> models one version chain and LSN ranges; the locale \<open>asof_store\<close> is the contract
  of a store that is read as of an LSN, interpreted on version chains. \<open>Txn_Manager\<close> models the
  operations of \<open>transaction.rs\<close>, \<open>Txn_System\<close> their interleaving as a step relation with its invariant, and
  \<open>Txn_Isolation\<close> the promises: snapshot reads and their stability, first-committer-wins, atomic commits and
  undo, ordered publication, that commits in flight can always drain, and that garbage collection is
  safe and complete.

  \<^bold>\<open>Graph traversal.\<close> \<open>Graph_Source\<close> models edge sources; the locale \<open>edge_source\<close> is the contract the
  algorithms rely on, interpreted on the in-memory source. \<open>Graph_Shortest\<close> models \<open>shortest.rs\<close>: the searches
  end for every source, and on a source that keeps the contract they return shortest paths. \<open>Graph_Yen\<close> models
  \<open>yen.rs\<close>: without parallel relationships it returns the \<open>k\<close> shortest loopless paths; with them it can miss
  paths. \<open>Graph_Khop\<close> models the bounded expansion of \<open>khop.rs\<close> with both strategies and the reservoir of
  \<open>rng.rs\<close>: every result keeps the bounds of the request, an expansion that is not marked as cut is the whole
  neighbourhood, and a sampled expansion with the default bounds panics. \<open>Graph_Merge\<close> models \<open>merge.rs\<close>:
  the merged nodes depend on the set of the parts only. Loops over queues and frontiers end by the
  number of nodes not yet seen, not by fuel; the walk along recorded parents is a partial function that the
  proofs show to return.

  \<^bold>\<open>Parameters.\<close> The checksum of a record or a page is an arbitrary function of the bytes. AEAD ciphers
  and the secrets provider are parameters with the laws of the crates that supply them as hypotheses. The
  key of a sampling draw, a floating point logarithm, and the size of a reservoir entry are parameters. A
  directory of the file system is an association list of file contents.

  \<^bold>\<open>Not modelled.\<close> Threads, locks and \<open>fsync\<close> as such: the WAL writer thread, durability tiers, the
  checkpoint and the buffer pool are I/O and scheduling. The restamping of delta values inside a bundle and
  the bundle's staged page and allocator sections, page redo, the page allocator, the B-tree indexes and the
  CRUD layer are large clients of the modelled parts. The query language, the MCP and Bolt servers, the
  migrations and the command line are outside the storage core. Vector search and community detection
  compute with floating point numbers, and full text search wraps a third-party engine.
\<close>

end
